(* ===== verification/Prelude.thy ===== *)
theory Prelude
  imports Complex_Main "HOL-Library.Word"
begin

text \<open>
  Shared vocabulary of the development: the faults a C++ operation can end in, the result type
  that carries them, \<open>size_t\<close> and \<open>int64_t\<close> arithmetic, reachable states of a transition
  system, and the generic lemmas on results and lists that the component theories use.
\<close>

section \<open>Faults and results\<close>

text \<open>
  An operation of the library either returns or ends the process.  \<open>Assertion\<close> is a failing
  \<^verbatim>\<open>assert\<close> (the debug build of \<^verbatim>\<open>CMakeLists.txt\<close>, where asserts are active),
  \<open>Fatal\<close> is a \<^verbatim>\<open>LOG_SYSFATAL\<close> or \<^verbatim>\<open>LOG_FATAL\<close> record, whose destructor calls
  \<^verbatim>\<open>abort()\<close>, \<open>Undefined\<close> is undefined behaviour of the language (an access out of
  bounds, a null dereference, a signed overflow) and \<open>LengthError\<close> is the exception
  \<^verbatim>\<open>std::length_error\<close> of a vector grown beyond its maximal size, \<open>StackOverflow\<close> is a
  recursion of callbacks deeper than the stack, \<open>Diverges\<close> a callback that does not return.
\<close>

datatype fault = Assertion | Fatal | Undefined | LengthError | StackOverflow | Diverges

type_synonym 'a res = "fault + 'a"

definition rbind :: "'a res \<Rightarrow> ('a \<Rightarrow> 'b res) \<Rightarrow> 'b res" where
  "rbind m f = (case m of Inl e \<Rightarrow> Inl e | Inr x \<Rightarrow> f x)"

definition ensure :: "bool \<Rightarrow> 'a res \<Rightarrow> 'a res" where
  "ensure P m = (if P then m else Inl Assertion)"

definition require :: "bool \<Rightarrow> 'a res \<Rightarrow> 'a res" where
  "require P m = (if P then m else Inl Undefined)"

text \<open>A loop over a list whose body may fault.\<close>

fun rfold :: "('a \<Rightarrow> 's \<Rightarrow> 's res) \<Rightarrow> 'a list \<Rightarrow> 's \<Rightarrow> 's res" where
  "rfold f [] s = Inr s"
| "rfold f (x # xs) s = rbind (f x s) (rfold f xs)"

named_theorems res_simps \<open>rewriting of results\<close>

lemma rbind_simps [simp]: "rbind (Inr x) f = f x" "rbind (Inl e) f = Inl e"
  by (simp_all add: rbind_def)

lemma rbind_return: "rbind m Inr = m"
  by (cases m) simp_all

lemma rbind_Inr_iff [res_simps]: "rbind m f = Inr y \<longleftrightarrow> (\<exists>x. m = Inr x \<and> f x = Inr y)"
  by (cases m) auto

lemma rbind_Inl_iff [res_simps]:
  "rbind m f = Inl e \<longleftrightarrow> m = Inl e \<or> (\<exists>x. m = Inr x \<and> f x = Inl e)"
  by (cases m) auto

lemma ensure_Inr_iff [res_simps]: "ensure P m = Inr y \<longleftrightarrow> P \<and> m = Inr y"
  by (simp add: ensure_def)

lemma ensure_Inl_iff [res_simps]:
  "ensure P m = Inl e \<longleftrightarrow> (if P then m = Inl e else e = Assertion)"
  by (auto simp: ensure_def)

lemma require_Inr_iff [res_simps]: "require P m = Inr y \<longleftrightarrow> P \<and> m = Inr y"
  by (simp add: require_def)

lemma require_Inl_iff [res_simps]:
  "require P m = Inl e \<longleftrightarrow> (if P then m = Inl e else e = Undefined)"
  by (auto simp: require_def)

lemma ensure_True [simp]: "P \<Longrightarrow> ensure P m = m"
  by (simp add: ensure_def)

lemma ensure_False [simp]: "\<not> P \<Longrightarrow> ensure P m = Inl Assertion"
  by (simp add: ensure_def)

lemma require_True [simp]: "P \<Longrightarrow> require P m = m"
  by (simp add: require_def)

lemma require_False [simp]: "\<not> P \<Longrightarrow> require P m = Inl Undefined"
  by (simp add: require_def)

lemma rfold_append: "rfold f (xs @ ys) s = rbind (rfold f xs s) (rfold f ys)"
proof (induction xs arbitrary: s)
  case (Cons x xs)
  then show ?case by (cases "f x s") simp_all
qed simp

lemma rbind_rfold_Nil [simp]: "rbind m (rfold f []) = m"
  by (cases m) simp_all

text \<open>A property kept by the body is kept by the loop.\<close>

lemma rfold_preserves:
  assumes "\<And>x s s'. x \<in> set xs \<Longrightarrow> P s \<Longrightarrow> f x s = Inr s' \<Longrightarrow> P s'"
    and "P s" and "rfold f xs s = Inr s'"
  shows "P s'"
  using assms
proof (induction xs arbitrary: s)
  case (Cons x xs)
  from Cons.prems(3) obtain t where t: "f x s = Inr t" "rfold f xs t = Inr s'"
    by (auto simp: rbind_Inr_iff)
  with Cons.prems(1,2) have "P t" by auto
  with Cons.IH Cons.prems(1) t(2) show ?case by auto
qed simp

text \<open>An operation that establishes \<open>P\<close>, or ends the process because a system call failed.\<close>

definition or_fatal :: "('a \<Rightarrow> bool) \<Rightarrow> 'a res \<Rightarrow> bool" where
  "or_fatal P m \<longleftrightarrow> m = Inl Fatal \<or> (\<exists>x. m = Inr x \<and> P x)"

lemma or_fatal_simps [simp]: "or_fatal P (Inr x) = P x" "or_fatal P (Inl e) \<longleftrightarrow> e = Fatal"
  by (simp_all add: or_fatal_def)

lemma or_fatal_Inr: "or_fatal P m \<Longrightarrow> m = Inr x \<Longrightarrow> P x"
  by (simp add: or_fatal_def)

lemma or_fatal_rbind: "or_fatal P m \<Longrightarrow> (\<And>x. m = Inr x \<Longrightarrow> P x \<Longrightarrow> or_fatal Q (f x)) \<Longrightarrow> or_fatal Q (rbind m f)"
  by (auto simp: or_fatal_def)

lemma or_fatal_mono: "or_fatal P m \<Longrightarrow> (\<And>x. m = Inr x \<Longrightarrow> P x \<Longrightarrow> Q x) \<Longrightarrow> or_fatal Q m"
  by (auto simp: or_fatal_def)

section \<open>Machine integers\<close>

text \<open>
  \<open>size_t\<close> values are natural numbers below \<open>2 ^ 64\<close>; addition and subtraction wrap around.
\<close>

definition sz_add :: "nat \<Rightarrow> nat \<Rightarrow> nat" where
  "sz_add a b = (a + b) mod 2 ^ 64"

definition sz_sub :: "nat \<Rightarrow> nat \<Rightarrow> nat" where
  "sz_sub a b = (a + (2 ^ 64 - b)) mod 2 ^ 64"

named_theorems sz_simps \<open>size arithmetic that does not wrap\<close>

lemma sz_add_eq [sz_simps]: "a + b < 2 ^ 64 \<Longrightarrow> sz_add a b = a + b"
  by (simp add: sz_add_def)

lemma sz_sub_eq [sz_simps]: "b \<le> a \<Longrightarrow> a < 2 ^ 64 \<Longrightarrow> sz_sub a b = a - b"
proof -
  assume a: "b \<le> a" "a < 2 ^ 64"
  then have "a + (2 ^ 64 - b) = (a - b) + 2 ^ 64" by simp
  then have "sz_sub a b = ((a - b) + 2 ^ 64) mod 2 ^ 64" by (simp only: sz_sub_def)
  also have "\<dots> = (a - b) mod 2 ^ 64" by (simp only: mod_add_self2)
  also have "\<dots> = a - b" using a by simp
  finally show ?thesis .
qed

text \<open>
  \<open>int64_t\<close> values are integers; an operation whose result leaves the range is undefined.
\<close>

definition i64_ok :: "int \<Rightarrow> bool" where
  "i64_ok x \<longleftrightarrow> - (2 ^ 63) \<le> x \<and> x < 2 ^ 63"

definition i64 :: "int \<Rightarrow> int res" where
  "i64 x = require (i64_ok x) (Inr x)"

lemma i64_Inr_iff [res_simps]: "i64 x = Inr y \<longleftrightarrow> i64_ok x \<and> y = x"
  by (auto simp: i64_def res_simps)

text \<open>Division and remainder of C++ truncate towards zero.\<close>

definition cdiv :: "int \<Rightarrow> int \<Rightarrow> int" where
  "cdiv a b = sgn a * sgn b * (\<bar>a\<bar> div \<bar>b\<bar>)"

definition cmod :: "int \<Rightarrow> int \<Rightarrow> int" where
  "cmod a b = a - cdiv a b * b"

lemma cdiv_nonneg: "0 \<le> a \<Longrightarrow> 0 < b \<Longrightarrow> cdiv a b = a div b"
  by (cases "a = 0") (auto simp: cdiv_def)

lemma cmod_nonneg: "0 \<le> a \<Longrightarrow> 0 < b \<Longrightarrow> cmod a b = a mod b"
  by (simp add: cmod_def cdiv_nonneg minus_div_mult_eq_mod)

lemma cdiv_cmod_eq: "cdiv a b * b + cmod a b = a"
  by (simp add: cmod_def)

lemma cmod_neg: "a < 0 \<Longrightarrow> 0 < b \<Longrightarrow> cmod a b = - ((- a) mod b)"
  by (simp add: cmod_def cdiv_def minus_div_mult_eq_mod [symmetric])

section \<open>Reachable states\<close>

inductive reach :: "('s \<Rightarrow> bool) \<Rightarrow> ('s \<Rightarrow> 's \<Rightarrow> bool) \<Rightarrow> 's \<Rightarrow> bool"
  for init :: "'s \<Rightarrow> bool" and step :: "'s \<Rightarrow> 's \<Rightarrow> bool" where
  reach_init: "init s \<Longrightarrow> reach init step s"
| reach_step: "reach init step s \<Longrightarrow> step s t \<Longrightarrow> reach init step t"

text \<open>
  The contract between a component and its step relation: what holds at the start and is kept
  by every step holds in every reachable state.
\<close>

locale invariant =
  fixes init :: "'s \<Rightarrow> bool" and step :: "'s \<Rightarrow> 's \<Rightarrow> bool" and inv :: "'s \<Rightarrow> bool"
  assumes inv_init: "init s \<Longrightarrow> inv s"
    and inv_step: "inv s \<Longrightarrow> step s t \<Longrightarrow> inv t"
begin

lemma reach_inv: "reach init step s \<Longrightarrow> inv s"
  by (induction rule: reach.induct) (auto intro: inv_init inv_step)

lemma rtranclp_inv: "step\<^sup>*\<^sup>* s t \<Longrightarrow> inv s \<Longrightarrow> inv t"
  by (induction rule: rtranclp_induct) (auto intro: inv_step)

end

section \<open>Lists\<close>

text \<open>Writing a block into an array (the effect of \<^verbatim>\<open>memcpy\<close> from outside the array).\<close>

definition splice_at :: "'a list \<Rightarrow> nat \<Rightarrow> 'a list \<Rightarrow> 'a list" where
  "splice_at xs i d = take i xs @ d @ drop (i + length d) xs"

lemma length_splice_at [simp]: "i + length d \<le> length xs \<Longrightarrow> length (splice_at xs i d) = length xs"
  by (simp add: splice_at_def)

lemma take_splice_at [simp]:
  "i + length d \<le> length xs \<Longrightarrow> take (i + length d) (splice_at xs i d) = take i xs @ d"
  by (simp add: splice_at_def)

lemma take_drop_append: "r \<le> w \<Longrightarrow> drop r (take w xs) = take (w - r) (drop r xs)"
  by (simp add: drop_take)

section \<open>Printing numbers\<close>

text \<open>Decimal printing, \<^verbatim>\<open>%d\<close>, \<^verbatim>\<open>%0wd\<close> and \<^verbatim>\<open>%wd\<close> of \<^verbatim>\<open>snprintf\<close>.\<close>

definition digit_char :: "nat \<Rightarrow> char" where
  "digit_char d = ''0123456789'' ! d"

fun nat_digits :: "nat \<Rightarrow> string" where
  "nat_digits n =
     (if n < 10 then [digit_char n] else nat_digits (n div 10) @ [digit_char (n mod 10)])"

declare nat_digits.simps [simp del]

definition show_int :: "int \<Rightarrow> string" where
  "show_int i = (if i < 0 then ''-'' @ nat_digits (nat (- i)) else nat_digits (nat i))"

definition pad_left :: "char \<Rightarrow> nat \<Rightarrow> string \<Rightarrow> string" where
  "pad_left c w s = replicate (w - length s) c @ s"

text \<open>The zeros of \<^verbatim>\<open>%0wd\<close> go between the sign and the digits.\<close>

definition show_int0 :: "nat \<Rightarrow> int \<Rightarrow> string" where
  "show_int0 w i =
     (if i < 0 then ''-'' @ pad_left (CHR ''0'') (w - 1) (nat_digits (nat (- i)))
      else pad_left (CHR ''0'') w (nat_digits (nat i)))"

text \<open>\<^verbatim>\<open>snprintf\<close> into a block of \<open>bufsize\<close> bytes keeps \<open>bufsize - 1\<close> characters.\<close>

definition snprintf :: "nat \<Rightarrow> string \<Rightarrow> string" where
  "snprintf bufsize s = take (bufsize - 1) s"

text \<open>Reading the digits back.\<close>

definition char_digit :: "char \<Rightarrow> nat" where
  "char_digit c = of_char c - 48"

definition digits_nat :: "string \<Rightarrow> nat" where
  "digits_nat s = foldl (\<lambda>n c. 10 * n + char_digit c) 0 s"

lemma less_10_cases:
  "(d::nat) < 10 \<Longrightarrow> d = 0 \<or> d = 1 \<or> d = 2 \<or> d = 3 \<or> d = 4 \<or> d = 5 \<or> d = 6 \<or> d = 7 \<or> d = 8 \<or> d = 9"
  by arith

lemma char_digit_char: "d < 10 \<Longrightarrow> char_digit (digit_char d) = d"
  by (drule less_10_cases) (auto simp: char_digit_def digit_char_def)

lemma digits_nat_digits [simp]: "digits_nat (nat_digits n) = n"
proof (induction n rule: nat_digits.induct)
  case (1 n)
  show ?case
  proof (cases "n < 10")
    case True
    then show ?thesis by (simp add: nat_digits.simps [of n] digits_nat_def char_digit_char)
  next
    case False
    with 1 show ?thesis
      by (simp add: nat_digits.simps [of n] digits_nat_def char_digit_char)
  qed
qed

text \<open>A number below \<open>10 ^ k\<close> has at most \<open>k\<close> digits.\<close>

lemma length_nat_digits: "n < 10 ^ k \<Longrightarrow> 0 < k \<Longrightarrow> length (nat_digits n) \<le> k"
proof (induction k arbitrary: n)
  case (Suc k)
  show ?case
  proof (cases "n < 10")
    case True
    then show ?thesis by (simp add: nat_digits.simps)
  next
    case False
    then have "0 < k" using Suc.prems(1) by (cases k) auto
    moreover have "n div 10 < 10 ^ k" using Suc.prems(1) by (simp add: less_mult_imp_div_less)
    ultimately have "length (nat_digits (n div 10)) \<le> k" by (rule Suc.IH [rotated])
    with False show ?thesis by (simp add: nat_digits.simps [of n])
  qed
qed simp

lemma nat_digits_nonempty [simp]: "nat_digits n \<noteq> []"
  by (simp add: nat_digits.simps [of n])

lemma nat_digits_inject: "nat_digits m = nat_digits n \<Longrightarrow> m = n"
  by (metis digits_nat_digits)

end
