(* ===== verification/Interfaces.thy ===== *)
theory Interfaces
  imports Prelude
begin

text \<open>
  The contracts between components, as locales: a sink of bytes (what \<^verbatim>\<open>HttpResponse\<close> and
  \<^verbatim>\<open>TcpConnection\<close> rely on when they append to a \<^verbatim>\<open>Buffer\<close>), a byte stream (a sink that
  can also be read), and a FIFO queue of elements (the queues of the thread library).
  The generic clients of the contracts are the functions \<open>put_all\<close>, \<open>run_stream\<close> and
  \<open>run_fifo\<close>; their lemmas are proved once inside the locales.
\<close>

section \<open>Byte sinks and byte streams\<close>

definition put_all :: "('x \<Rightarrow> 'b \<Rightarrow> 'b res) \<Rightarrow> 'x list \<Rightarrow> 'b \<Rightarrow> 'b res" where
  "put_all put xs b = rfold put xs b"

locale byte_sink =
  fixes put :: "'a list \<Rightarrow> 'b \<Rightarrow> 'b res"
    and contents :: "'b \<Rightarrow> 'a list"
    and room :: "nat \<Rightarrow> 'b \<Rightarrow> bool"
    and wf :: "'b \<Rightarrow> bool"
  assumes put_ok: "wf b \<Longrightarrow> room (length s) b \<Longrightarrow>
      \<exists>b'. put s b = Inr b' \<and> wf b' \<and> contents b' = contents b @ s \<and>
           (\<forall>n. room (length s + n) b \<longrightarrow> room n b')"
    and room_mono: "room n b \<Longrightarrow> m \<le> n \<Longrightarrow> room m b"
begin

lemma put_all_ok:
  assumes "wf b" "room (length (concat ss)) b"
  shows "\<exists>b'. put_all put ss b = Inr b' \<and> wf b' \<and> contents b' = contents b @ concat ss"
  using assms
proof (induction ss arbitrary: b)
  case (Cons s ss)
  have "room (length s) b" using Cons.prems(2) by (rule room_mono) simp
  from put_ok [OF Cons.prems(1) this] obtain c where c: "put s b = Inr c" "wf c"
    "contents c = contents b @ s" "\<And>n. room (length s + n) b \<Longrightarrow> room n c" by blast
  have "room (length (concat ss)) c" by (rule c(4)) (use Cons.prems(2) in simp)
  from Cons.IH [OF c(2) this] c(1,3) show ?case by (auto simp: put_all_def)
qed (simp add: put_all_def)

end

locale byte_stream = byte_sink put contents room wf
  for put :: "'a list \<Rightarrow> 'b \<Rightarrow> 'b res" and contents :: "'b \<Rightarrow> 'a list"
    and room :: "nat \<Rightarrow> 'b \<Rightarrow> bool" and wf :: "'b \<Rightarrow> bool" +
  fixes get :: "nat \<Rightarrow> 'b \<Rightarrow> ('a list \<times> 'b) res"
  assumes get_ok: "wf b \<Longrightarrow> n \<le> length (contents b) \<Longrightarrow>
      \<exists>b'. get n b = Inr (take n (contents b), b') \<and> wf b' \<and> contents b' = drop n (contents b)"
    and get_short: "wf b \<Longrightarrow> length (contents b) < n \<Longrightarrow> get n b = Inl Assertion"
    and put_wf: "wf b \<Longrightarrow> length s < 2 ^ 63 \<Longrightarrow> put s b = Inr b' \<Longrightarrow>
      wf b' \<and> contents b' = contents b @ s"

datatype 'a stream_op = Put "'a list" | Get nat

text \<open>A run of operations returns the bytes read, in order, and the final stream.\<close>

fun run_stream :: "('a list \<Rightarrow> 'b \<Rightarrow> 'b res) \<Rightarrow> (nat \<Rightarrow> 'b \<Rightarrow> ('a list \<times> 'b) res) \<Rightarrow>
    'a stream_op list \<Rightarrow> 'b \<Rightarrow> ('a list \<times> 'b) res" where
  "run_stream put get [] b = Inr ([], b)"
| "run_stream put get (Put s # ops) b = rbind (put s b) (run_stream put get ops)"
| "run_stream put get (Get n # ops) b =
     rbind (get n b) (\<lambda>(r, b1). rbind (run_stream put get ops b1) (\<lambda>(rs, b2). Inr (r @ rs, b2)))"

fun puts :: "'a stream_op list \<Rightarrow> 'a list" where
  "puts [] = []"
| "puts (Put s # ops) = s @ puts ops"
| "puts (Get n # ops) = puts ops"

context byte_stream
begin

lemma get_Inr:
  assumes "wf b" "get n b = Inr (r, b')"
  shows "n \<le> length (contents b) \<and> wf b' \<and> contents b = r @ contents b'"
proof (cases "n \<le> length (contents b)")
  case True
  from get_ok [OF assms(1) True] assms(2) True show ?thesis by auto
next
  case False
  with get_short [OF assms(1)] assms(2) show ?thesis by simp
qed

text \<open>Nothing is lost, duplicated or reordered between writers and readers.\<close>

lemma run_stream_fifo:
  assumes "wf b" "\<forall>op \<in> set ops. \<forall>s. op = Put s \<longrightarrow> length s < 2 ^ 63"
    and "run_stream put get ops b = Inr (out, b')"
  shows "wf b' \<and> out @ contents b' = contents b @ puts ops"
  using assms
proof (induction ops arbitrary: b out)
  case (Cons op ops)
  show ?case
  proof (cases op)
    case (Put s)
    with Cons.prems obtain c where c: "put s b = Inr c" "run_stream put get ops c = Inr (out, b')"
      by (auto simp: rbind_Inr_iff)
    have "length s < 2 ^ 63" using Cons.prems(2) Put by simp
    from put_wf [OF Cons.prems(1) this c(1)] Cons.IH [OF _ _ c(2)] Cons.prems(2) Put
    show ?thesis by simp
  next
    case (Get n)
    with Cons.prems(3) obtain r c rs where c: "get n b = Inr (r, c)"
      "run_stream put get ops c = Inr (rs, b')" "out = r @ rs"
      by (auto simp: rbind_Inr_iff)
    from get_Inr [OF Cons.prems(1) c(1)] Cons.IH [OF _ _ c(2)] Cons.prems(2) Get c(3)
    show ?thesis by simp
  qed
qed simp

end

section \<open>FIFO queues of elements\<close>

locale fifo =
  fixes push :: "'a \<Rightarrow> 'q \<Rightarrow> 'q res"
    and pop :: "'q \<Rightarrow> ('a \<times> 'q) res"
    and items :: "'q \<Rightarrow> 'a list"
    and full :: "'q \<Rightarrow> bool"
    and wf :: "'q \<Rightarrow> bool"
  assumes push_ok: "wf q \<Longrightarrow> \<not> full q \<Longrightarrow>
      \<exists>q'. push x q = Inr q' \<and> wf q' \<and> items q' = items q @ [x]"
    and pop_ok: "wf q \<Longrightarrow> items q = x # xs \<Longrightarrow>
      \<exists>q'. pop q = Inr (x, q') \<and> wf q' \<and> items q' = xs"

datatype 'a fifo_op = Push 'a | Pop

fun run_fifo :: "('a \<Rightarrow> 'q \<Rightarrow> 'q res) \<Rightarrow> ('q \<Rightarrow> ('a \<times> 'q) res) \<Rightarrow>
    'a fifo_op list \<Rightarrow> 'q \<Rightarrow> ('a list \<times> 'q) res" where
  "run_fifo push pop [] q = Inr ([], q)"
| "run_fifo push pop (Push x # ops) q = rbind (push x q) (run_fifo push pop ops)"
| "run_fifo push pop (Pop # ops) q =
     rbind (pop q) (\<lambda>(x, q1). rbind (run_fifo push pop ops q1) (\<lambda>(xs, q2). Inr (x # xs, q2)))"

text \<open>
  The operations a client may run: it pushes only when there is room and pops only when there is
  an element, as the documentation of \<^verbatim>\<open>CircularQueue\<close> asks and the blocking queues ensure.
\<close>

fun allowed :: "nat option \<Rightarrow> nat \<Rightarrow> 'a fifo_op list \<Rightarrow> bool" where
  "allowed cap n [] = True"
| "allowed cap n (Push x # ops) =
     ((case cap of None \<Rightarrow> True | Some c \<Rightarrow> n < c) \<and> allowed cap (Suc n) ops)"
| "allowed cap n (Pop # ops) = (0 < n \<and> allowed cap (n - 1) ops)"

fun pushed :: "'a fifo_op list \<Rightarrow> 'a list" where
  "pushed [] = []"
| "pushed (Push x # ops) = x # pushed ops"
| "pushed (Pop # ops) = pushed ops"

locale bounded_fifo = fifo push pop items full wf
  for push :: "'a \<Rightarrow> 'q \<Rightarrow> 'q res" and pop :: "'q \<Rightarrow> ('a \<times> 'q) res"
    and items :: "'q \<Rightarrow> 'a list" and full :: "'q \<Rightarrow> bool" and wf :: "'q \<Rightarrow> bool" +
  fixes capacity :: "'q \<Rightarrow> nat option"
  assumes full_iff: "wf q \<Longrightarrow>
      full q \<longleftrightarrow> (case capacity q of None \<Rightarrow> False | Some c \<Rightarrow> c \<le> length (items q))"
    and push_capacity: "wf q \<Longrightarrow> \<not> full q \<Longrightarrow> push x q = Inr q' \<Longrightarrow> capacity q' = capacity q"
    and pop_capacity: "wf q \<Longrightarrow> items q \<noteq> [] \<Longrightarrow> pop q = Inr (x, q') \<Longrightarrow> capacity q' = capacity q"
begin

lemma run_fifo_ok:
  assumes "wf q" "allowed (capacity q) (length (items q)) ops"
  shows "\<exists>out q'. run_fifo push pop ops q = Inr (out, q') \<and> wf q' \<and>
    out @ items q' = items q @ pushed ops"
  using assms
proof (induction ops arbitrary: q)
  case (Cons op ops)
  show ?case
  proof (cases op)
    case (Push x)
    with Cons.prems full_iff have nf: "\<not> full q" by (auto split: option.splits)
    from push_ok [OF Cons.prems(1) nf] obtain p where p: "push x q = Inr p" "wf p"
      "items p = items q @ [x]" by blast
    with push_capacity [OF Cons.prems(1) nf p(1)] Cons.prems Push
    have "allowed (capacity p) (length (items p)) ops" by simp
    from Cons.IH [OF p(2) this] p Push show ?thesis by auto
  next
    case Pop
    with Cons.prems obtain x xs where xs: "items q = x # xs" by (cases "items q") auto
    from pop_ok [OF Cons.prems(1) xs] obtain p where p: "pop q = Inr (x, p)" "wf p" "items p = xs"
      by blast
    with pop_capacity [OF Cons.prems(1) _ p(1)] Cons.prems Pop xs
    have "allowed (capacity p) (length (items p)) ops" by simp
    from Cons.IH [OF p(2) this] obtain out q' where
      "run_fifo push pop ops p = Inr (out, q')" "wf q'" "out @ items q' = items p @ pushed ops"
      by blast
    with p xs Pop show ?thesis by auto
  qed
qed simp

lemma run_fifo_capacity:
  assumes "wf q" "allowed (capacity q) (length (items q)) ops"
    and "run_fifo push pop ops q = Inr (out, q')"
  shows "capacity q' = capacity q"
  using assms
proof (induction ops arbitrary: q out)
  case (Cons op ops)
  show ?case
  proof (cases op)
    case (Push x)
    with Cons.prems full_iff have nf: "\<not> full q" by (auto split: option.splits)
    from push_ok [OF Cons.prems(1) nf] obtain p where p: "push x q = Inr p" "wf p"
      "items p = items q @ [x]" by blast
    with push_capacity [OF Cons.prems(1) nf p(1)] Cons.prems Push Cons.IH [OF p(2)]
    show ?thesis by simp
  next
    case Pop
    with Cons.prems obtain x xs where xs: "items q = x # xs" by (cases "items q") auto
    from pop_ok [OF Cons.prems(1) xs] obtain p where p: "pop q = Inr (x, p)" "wf p" "items p = xs"
      by blast
    with pop_capacity [OF Cons.prems(1) _ p(1)] Cons.prems Pop xs Cons.IH [OF p(2)]
    show ?thesis by (auto simp: rbind_Inr_iff)
  qed
qed simp

end

end
