(* ===== verification/NetBuffer.thy ===== *)
theory NetBuffer
  imports Interfaces
begin

text \<open>
  The growable I/O buffer, \<^verbatim>\<open>src/net/Buffer.h\<close> and \<^verbatim>\<open>src/net/Buffer.cc\<close>: a vector of bytes
  with a read index and a write index.  A pointer into the buffer is the offset from
  \<^verbatim>\<open>Begin()\<close>.  Every operation keeps its asserts; index arithmetic is \<open>size_t\<close> arithmetic.
  The abstraction is \<open>content\<close>, the readable bytes, and the operations are shown to be those of
  a byte stream.
\<close>

section \<open>The vector and memory operations the buffer uses\<close>

text \<open>\<^verbatim>\<open>std::vector<char>\<close> holds at most \<open>PTRDIFF_MAX\<close> bytes; growing value-initialises.\<close>

definition vector_max :: nat where
  "vector_max = 2 ^ 63 - 1"

definition vector_resize :: "nat \<Rightarrow> string \<Rightarrow> string res" where
  "vector_resize n xs =
     (if vector_max < n then Inl LengthError
      else Inr (take n xs @ replicate (n - length xs) (CHR 0x00)))"

text \<open>\<^verbatim>\<open>memcpy\<close> into the vector from other memory: a block written out of bounds is undefined.\<close>

definition memcpy_in :: "nat \<Rightarrow> string \<Rightarrow> string \<Rightarrow> string res" where
  "memcpy_in i d xs = require (i + length d \<le> length xs) (Inr (splice_at xs i d))"

text \<open>
  \<^verbatim>\<open>memcpy\<close> inside the vector, as the ascending loop over bytes that the comment in
  \<^verbatim>\<open>CheckAndMakePlace\<close> relies on (\<open>the target is before the source, so overlap is harmless\<close>).
\<close>

fun memcpy_up :: "nat \<Rightarrow> nat \<Rightarrow> nat \<Rightarrow> string \<Rightarrow> string" where
  "memcpy_up dst src 0 xs = xs"
| "memcpy_up dst src (Suc n) xs = memcpy_up (Suc dst) (Suc src) n (xs[dst := xs ! src])"

section \<open>The class\<close>

record Buffer =
  buffer :: string
  readIndex :: nat
  writeIndex :: nat

definition kInitialSize :: nat where "kInitialSize = 1024"

definition kInitPrependSize :: nat where "kInitPrependSize = 8"

definition kCRLF :: string where "kCRLF = [CHR 0x0D, CHR 0x0A]"

lemma length_kCRLF [simp]: "length kCRLF = 2"
  by (simp add: kCRLF_def)

definition ReadableBytes :: "Buffer \<Rightarrow> nat" where
  "ReadableBytes b = sz_sub (writeIndex b) (readIndex b)"

definition WritableBytes :: "Buffer \<Rightarrow> nat" where
  "WritableBytes b = sz_sub (length (buffer b)) (writeIndex b)"

definition PrependableBytes :: "Buffer \<Rightarrow> nat" where
  "PrependableBytes b = readIndex b"

definition Peek :: "Buffer \<Rightarrow> nat" where
  "Peek b = readIndex b"

definition BeginWrite :: "Buffer \<Rightarrow> nat" where
  "BeginWrite b = writeIndex b"

text \<open>The readable bytes, from \<^verbatim>\<open>Peek()\<close> up to \<^verbatim>\<open>BeginWrite()\<close>.\<close>

definition content :: "Buffer \<Rightarrow> string" where
  "content b = take (writeIndex b - readIndex b) (drop (readIndex b) (buffer b))"

definition Buffer_new :: "nat \<Rightarrow> Buffer res" where
  "Buffer_new initialSize =
     rbind (vector_resize (sz_add kInitPrependSize initialSize) []) (\<lambda>v.
       let b = \<lparr>buffer = v, readIndex = kInitPrependSize, writeIndex = kInitPrependSize\<rparr> in
       ensure (ReadableBytes b = 0) (ensure (WritableBytes b = initialSize)
         (ensure (PrependableBytes b = kInitPrependSize) (Inr b))))"

definition Swap :: "Buffer \<Rightarrow> Buffer \<Rightarrow> Buffer \<times> Buffer" where
  "Swap b rhs =
     (b\<lparr>buffer := buffer rhs, readIndex := readIndex rhs, writeIndex := writeIndex rhs\<rparr>,
      rhs\<lparr>buffer := buffer b, readIndex := readIndex b, writeIndex := writeIndex b\<rparr>)"

definition RetrieveAll :: "Buffer \<Rightarrow> Buffer" where
  "RetrieveAll b = b\<lparr>readIndex := kInitPrependSize, writeIndex := kInitPrependSize\<rparr>"

definition Retrieve :: "nat \<Rightarrow> Buffer \<Rightarrow> Buffer res" where
  "Retrieve len b =
     ensure (len \<le> ReadableBytes b)
       (Inr (if len < ReadableBytes b then b\<lparr>readIndex := sz_add (readIndex b) len\<rparr>
             else RetrieveAll b))"

definition RetrieveUntil :: "nat \<Rightarrow> Buffer \<Rightarrow> Buffer res" where
  "RetrieveUntil endp b =
     ensure (Peek b \<le> endp) (ensure (endp \<le> BeginWrite b) (Retrieve (endp - Peek b) b))"

text \<open>\<^verbatim>\<open>std::string(Peek(), len)\<close> reads \<open>len\<close> bytes of the vector.\<close>

definition RetrieveAsString :: "nat \<Rightarrow> Buffer \<Rightarrow> (string \<times> Buffer) res" where
  "RetrieveAsString len b =
     ensure (len \<le> ReadableBytes b)
       (require (Peek b + len \<le> length (buffer b))
         (rbind (Retrieve len b) (\<lambda>b'. Inr (take len (drop (Peek b) (buffer b)), b'))))"

definition RetrieveAllAsString :: "Buffer \<Rightarrow> (string \<times> Buffer) res" where
  "RetrieveAllAsString b = RetrieveAsString (ReadableBytes b) b"

definition HasWriten :: "nat \<Rightarrow> Buffer \<Rightarrow> Buffer res" where
  "HasWriten len b =
     ensure (len \<le> WritableBytes b) (Inr (b\<lparr>writeIndex := sz_add (writeIndex b) len\<rparr>))"

definition Unwrite :: "nat \<Rightarrow> Buffer \<Rightarrow> Buffer res" where
  "Unwrite len b =
     ensure (len \<le> ReadableBytes b) (Inr (b\<lparr>writeIndex := sz_sub (writeIndex b) len\<rparr>))"

definition Prepend :: "string \<Rightarrow> Buffer \<Rightarrow> Buffer res" where
  "Prepend data b =
     ensure (length data \<le> PrependableBytes b)
       (let r = sz_sub (readIndex b) (length data) in
        rbind (memcpy_in r data (buffer b)) (\<lambda>v. Inr (b\<lparr>buffer := v, readIndex := r\<rparr>)))"

definition CheckAndMakePlace :: "nat \<Rightarrow> Buffer \<Rightarrow> Buffer res" where
  "CheckAndMakePlace len b =
     (if len \<le> WritableBytes b then Inr b
      else
        rbind
          (if sz_add len kInitPrependSize \<le> sz_add (WritableBytes b) (PrependableBytes b) then
             ensure (kInitPrependSize < readIndex b)
               (let readable = ReadableBytes b;
                    b' = b\<lparr>buffer := memcpy_up kInitPrependSize (readIndex b) readable (buffer b),
                           readIndex := kInitPrependSize,
                           writeIndex := sz_add kInitPrependSize readable\<rparr>
                in ensure (readable = ReadableBytes b') (Inr b'))
           else
             rbind (vector_resize (sz_add (writeIndex b) len) (buffer b))
               (\<lambda>v. Inr (b\<lparr>buffer := v\<rparr>)))
          (\<lambda>b'. ensure (len \<le> WritableBytes b') (Inr b')))"

definition Append :: "string \<Rightarrow> Buffer \<Rightarrow> Buffer res" where
  "Append data b =
     rbind (CheckAndMakePlace (length data) b) (\<lambda>b1.
       rbind (memcpy_in (BeginWrite b1) data (buffer b1)) (\<lambda>v.
         Inr (b1\<lparr>buffer := v, writeIndex := sz_add (writeIndex b1) (length data)\<rparr>)))"

text \<open>
  \<^verbatim>\<open>ReadFd\<close> is given the answer of \<^verbatim>\<open>readv(2)\<close>: a function of the lengths of the blocks it
  was handed, \<open>None\<close> for an error.  The bytes fill the writable part of the vector first and
  the stack block of 65536 bytes after it.
\<close>

definition extrabufSize :: nat where "extrabufSize = 65536"

definition ReadFd_iov :: "Buffer \<Rightarrow> nat list" where
  "ReadFd_iov b =
     (if extrabufSize \<le> WritableBytes b then [WritableBytes b]
      else [WritableBytes b, extrabufSize])"

definition ReadFd :: "(nat list \<Rightarrow> string option) \<Rightarrow> Buffer \<Rightarrow> (int \<times> Buffer) res" where
  "ReadFd readv b =
     (let writable = WritableBytes b in
      case readv (ReadFd_iov b) of
        None \<Rightarrow> Inr (- 1, b)
      | Some bytes \<Rightarrow>
          let n = length bytes;
              vec0 = take writable bytes;
              extrabuf = drop writable bytes
          in rbind (memcpy_in (BeginWrite b) vec0 (buffer b)) (\<lambda>v.
               if n \<le> writable then
                 Inr (int n, b\<lparr>buffer := v, writeIndex := sz_add (writeIndex b) n\<rparr>)
               else
                 rbind (Append extrabuf (b\<lparr>buffer := v, writeIndex := length v\<rparr>))
                   (\<lambda>b'. Inr (int n, b'))))"

text \<open>What the manual page of \<^verbatim>\<open>readv\<close> promises: never more bytes than the blocks hold.\<close>

definition readv_spec :: "(nat list \<Rightarrow> string option) \<Rightarrow> bool" where
  "readv_spec readv \<longleftrightarrow> (\<forall>iov s. readv iov = Some s \<longrightarrow> length s \<le> sum_list iov)"

text \<open>\<^verbatim>\<open>std::search\<close>: the offset of the first occurrence, the length if there is none.\<close>

fun std_search :: "'a list \<Rightarrow> 'a list \<Rightarrow> nat" where
  "std_search pat [] = 0"
| "std_search pat (x # xs) =
     (if take (length pat) (x # xs) = pat then 0 else Suc (std_search pat xs))"

definition FindCRLF :: "Buffer \<Rightarrow> nat option" where
  "FindCRLF b =
     (let crlf = Peek b + std_search kCRLF (content b) in
      if crlf = BeginWrite b then None else Some crlf)"

section \<open>The invariant and the readable bytes\<close>

definition buf_inv :: "Buffer \<Rightarrow> bool" where
  "buf_inv b \<longleftrightarrow> readIndex b \<le> writeIndex b \<and> writeIndex b \<le> length (buffer b) \<and>
     kInitPrependSize \<le> length (buffer b) \<and> length (buffer b) \<le> vector_max"

text \<open>
  \<open>buf_room\<close> is room for \<open>n\<close> more bytes after the write index within the maximal size of a
  vector; \<open>buf_fits\<close> adds the case where the bytes fit once the readable part is moved.
\<close>

definition buf_room :: "nat \<Rightarrow> Buffer \<Rightarrow> bool" where
  "buf_room n b \<longleftrightarrow> writeIndex b + n \<le> vector_max"

definition buf_fits :: "nat \<Rightarrow> Buffer \<Rightarrow> bool" where
  "buf_fits n b \<longleftrightarrow> buf_room n b \<or>
     n + kInitPrependSize \<le> length (buffer b) - writeIndex b + readIndex b"

named_theorems buf_simps \<open>sizes of a well-formed buffer\<close>

lemma vector_max_bound [simp]: "vector_max < 2 ^ 64" "vector_max + vector_max < 2 ^ 64"
  by (simp_all add: vector_max_def)

lemma ReadableBytes_eq [buf_simps]: "buf_inv b \<Longrightarrow> ReadableBytes b = writeIndex b - readIndex b"
  by (auto simp: ReadableBytes_def buf_inv_def vector_max_def intro!: sz_sub_eq)

lemma WritableBytes_eq [buf_simps]:
  "buf_inv b \<Longrightarrow> WritableBytes b = length (buffer b) - writeIndex b"
  by (auto simp: WritableBytes_def buf_inv_def vector_max_def intro!: sz_sub_eq)

lemma length_content [buf_simps]: "buf_inv b \<Longrightarrow> length (content b) = writeIndex b - readIndex b"
  by (auto simp: content_def buf_inv_def)

lemma ReadableBytes_content: "buf_inv b \<Longrightarrow> ReadableBytes b = length (content b)"
  by (simp add: buf_simps)

lemma content_RetrieveAll [simp]: "content (RetrieveAll b) = []"
  by (simp add: content_def RetrieveAll_def)

lemma Buffer_new_ok:
  assumes "initialSize + kInitPrependSize \<le> vector_max"
  shows "\<exists>b. Buffer_new initialSize = Inr b \<and> buf_inv b \<and> content b = [] \<and>
    writeIndex b = kInitPrependSize \<and> length (buffer b) = kInitPrependSize + initialSize"
proof -
  have s: "sz_add kInitPrependSize initialSize = kInitPrependSize + initialSize"
    using assms by (intro sz_add_eq) (simp add: vector_max_def)
  let ?b = "\<lparr>buffer = replicate (kInitPrependSize + initialSize) (CHR 0x00),
    readIndex = kInitPrependSize, writeIndex = kInitPrependSize\<rparr>"
  have i: "buf_inv ?b" using assms by (simp add: buf_inv_def)
  have "Buffer_new initialSize = Inr ?b"
    using assms i buf_simps(1,2) [OF i]
    by (simp add: Buffer_new_def s vector_resize_def PrependableBytes_def)
  with i show ?thesis by (simp add: content_def)
qed

section \<open>Reading\<close>

lemma Retrieve_ok:
  assumes "buf_inv b" "len \<le> length (content b)"
  shows "\<exists>b'. Retrieve len b = Inr b' \<and> content b' = drop len (content b) \<and> buffer b' = buffer b \<and>
    buf_inv b'"
proof (cases "len < length (content b)")
  case True
  have "sz_add (readIndex b) len = readIndex b + len"
    using assms True by (intro sz_add_eq) (auto simp: buf_simps buf_inv_def vector_max_def)
  with assms True show ?thesis
    by (auto simp: Retrieve_def buf_simps content_def buf_inv_def drop_take add.commute)
next
  case False
  with assms show ?thesis
    by (auto simp: Retrieve_def ReadableBytes_content RetrieveAll_def content_def buf_inv_def)
qed

lemma Retrieve_short: "buf_inv b \<Longrightarrow> length (content b) < len \<Longrightarrow> Retrieve len b = Inl Assertion"
  by (simp add: Retrieve_def ReadableBytes_content)

lemma RetrieveAsString_ok:
  assumes "buf_inv b" "len \<le> length (content b)"
  shows "\<exists>b'. RetrieveAsString len b = Inr (take len (content b), b') \<and> buf_inv b' \<and>
    content b' = drop len (content b) \<and> buffer b' = buffer b"
proof -
  from Retrieve_ok [OF assms] obtain b' where
    "Retrieve len b = Inr b'" "content b' = drop len (content b)" "buffer b' = buffer b" "buf_inv b'"
    by blast
  moreover have "Peek b + len \<le> length (buffer b)"
    using assms by (auto simp: buf_simps Peek_def buf_inv_def)
  moreover have "take len (drop (Peek b) (buffer b)) = take len (content b)"
    using assms by (simp add: content_def Peek_def buf_simps)
  ultimately show ?thesis
    using assms by (simp add: RetrieveAsString_def ReadableBytes_content)
qed

lemma RetrieveAsString_short:
  "buf_inv b \<Longrightarrow> length (content b) < len \<Longrightarrow> RetrieveAsString len b = Inl Assertion"
  by (simp add: RetrieveAsString_def ReadableBytes_content)

section \<open>Making room and writing\<close>

lemma length_memcpy_up [simp]: "length (memcpy_up dst src n xs) = length xs"
  by (induction n arbitrary: dst src xs) simp_all

lemma memcpy_up_outside:
  "j < dst \<or> dst + n \<le> j \<Longrightarrow> memcpy_up dst src n xs ! j = xs ! j"
  by (induction n arbitrary: dst src xs) (auto simp: nth_list_update)

text \<open>
  The ascending copy to a lower address delivers the source block even where the two blocks
  overlap: the claim of the comment in \<^verbatim>\<open>CheckAndMakePlace\<close>.
\<close>

lemma memcpy_up_block:
  assumes "dst \<le> src" "src + n \<le> length xs"
  shows "take n (drop dst (memcpy_up dst src n xs)) = take n (drop src xs)"
  using assms
proof (induction n arbitrary: dst src xs)
  case (Suc n)
  let ?ys = "xs[dst := xs ! src]"
  let ?r = "memcpy_up (Suc dst) (Suc src) n ?ys"
  have "take n (drop (Suc dst) ?r) = take n (drop (Suc src) ?ys)"
    using Suc.prems by (intro Suc.IH) simp_all
  also have "drop (Suc src) ?ys = drop (Suc src) xs"
    using Suc.prems(1) by simp
  finally have tl: "take n (drop (Suc dst) ?r) = take n (drop (Suc src) xs)" .
  have hd: "?r ! dst = xs ! src"
    using Suc.prems by (simp add: memcpy_up_outside)
  have len: "dst < length ?r" "src < length xs" using Suc.prems by simp_all
  show ?case
    using tl hd by (simp add: Cons_nth_drop_Suc [OF len(1), symmetric]
        Cons_nth_drop_Suc [OF len(2), symmetric])
qed simp

lemma vector_resize_grow:
  "length xs \<le> n \<Longrightarrow> n \<le> vector_max \<Longrightarrow>
    vector_resize n xs = Inr (xs @ replicate (n - length xs) (CHR 0x00))"
  by (simp add: vector_resize_def)

text \<open>
  Making room for \<open>len\<close> bytes: either there is room already, or the readable bytes are moved to
  the front, or the vector grows; no assert fires and the content is unchanged.
\<close>

lemma CheckAndMakePlace_ok:
  assumes inv: "buf_inv b" and len: "len < 2 ^ 63" and room: "buf_fits len b"
  shows "\<exists>b'. CheckAndMakePlace len b = Inr b' \<and> buf_inv b' \<and> content b' = content b \<and>
    writeIndex b' + len \<le> length (buffer b') \<and> length (buffer b) \<le> length (buffer b') \<and>
    writeIndex b' \<le> writeIndex b"
proof -
  let ?r = "readIndex b" and ?w = "writeIndex b" and ?L = "length (buffer b)"
  have b: "?r \<le> ?w" "?w \<le> ?L" "kInitPrependSize \<le> ?L" "?L < 2 ^ 63"
    using inv by (auto simp: buf_inv_def vector_max_def)
  have s1: "sz_add len kInitPrependSize = len + kInitPrependSize"
    using len by (intro sz_add_eq) (simp add: kInitPrependSize_def)
  have s2: "sz_add (WritableBytes b) (PrependableBytes b) = ?L - ?w + ?r"
    using b inv by (simp add: buf_simps PrependableBytes_def sz_add_eq)
  consider (enough) "len \<le> ?L - ?w"
    | (move) "?L - ?w < len" "len + kInitPrependSize \<le> ?L - ?w + ?r"
    | (grow) "?L - ?w < len" "?L - ?w + ?r < len + kInitPrependSize" by linarith
  then show ?thesis
  proof cases
    case enough
    with b inv show ?thesis by (auto simp: CheckAndMakePlace_def buf_simps)
  next
    case move
    then have r8: "kInitPrependSize < ?r" by linarith
    define n where "n = ?w - ?r"
    let ?b = "b\<lparr>buffer := memcpy_up kInitPrependSize ?r n (buffer b),
      readIndex := kInitPrependSize, writeIndex := kInitPrependSize + n\<rparr>"
    have n: "?w = ?r + n" using b by (simp add: n_def)
    have i: "buf_inv ?b" using b r8 inv n by (auto simp: buf_inv_def)
    have c: "content ?b = content b"
      using memcpy_up_block [of kInitPrependSize ?r n "buffer b"] b r8 n
      by (simp add: content_def)
    have s3: "sz_add kInitPrependSize n = kInitPrependSize + n"
      using b n by (intro sz_add_eq) (simp add: kInitPrependSize_def)
    have "ReadableBytes ?b = n" "WritableBytes ?b = ?L - (kInitPrependSize + n)"
      by (simp_all only: buf_simps(1,2) [OF i]) simp_all
    moreover have "len \<le> ?L - (kInitPrependSize + n)" using move b r8 n by linarith
    moreover have "ReadableBytes b = n" by (simp add: ReadableBytes_eq [OF inv] n_def)
    moreover have "?L - ?w < len" "sz_add len kInitPrependSize
        \<le> sz_add (WritableBytes b) (PrependableBytes b)"
      using move by (simp_all add: s1 s2)
    ultimately have "CheckAndMakePlace len b = Inr ?b"
      using r8 by (simp add: CheckAndMakePlace_def WritableBytes_eq [OF inv] s3)
    moreover have "writeIndex ?b + len \<le> length (buffer ?b)" using move b r8 n by simp
    ultimately show ?thesis using i c r8 n by auto
  next
    case grow
    have max: "?w + len \<le> vector_max"
      using room grow(2) by (auto simp: buf_fits_def buf_room_def)
    have s4: "sz_add ?w len = ?w + len" using b len by (intro sz_add_eq) simp
    let ?v = "buffer b @ replicate (?w + len - ?L) (CHR 0x00)"
    let ?b = "b\<lparr>buffer := ?v\<rparr>"
    have rs: "vector_resize (?w + len) (buffer b) = Inr ?v"
      using grow b max by (intro vector_resize_grow) auto
    have i: "buf_inv ?b" using b grow max by (auto simp: buf_inv_def)
    have c: "content ?b = content b" using b by (simp add: content_def)
    have "len \<le> WritableBytes ?b" using grow b by (simp add: WritableBytes_eq [OF i])
    then have "CheckAndMakePlace len b = Inr ?b"
      using grow by (simp add: CheckAndMakePlace_def WritableBytes_eq [OF inv] s1
          s2 [unfolded WritableBytes_eq [OF inv]] s4 rs)
    with i c grow b show ?thesis by auto
  qed
qed

lemma Append_fits:
  assumes inv: "buf_inv b" and len: "length d < 2 ^ 63" and room: "buf_fits (length d) b"
  shows "\<exists>b'. Append d b = Inr b' \<and> buf_inv b' \<and> content b' = content b @ d \<and>
    length (buffer b) \<le> length (buffer b') \<and> writeIndex b' \<le> writeIndex b + length d"
proof -
  from CheckAndMakePlace_ok [OF assms] obtain c where c: "CheckAndMakePlace (length d) b = Inr c"
    "buf_inv c" "content c = content b" "writeIndex c + length d \<le> length (buffer c)"
    "length (buffer b) \<le> length (buffer c)" "writeIndex c \<le> writeIndex b" by blast
  let ?b = "c\<lparr>buffer := splice_at (buffer c) (writeIndex c) d, writeIndex := writeIndex c + length d\<rparr>"
  have "sz_add (writeIndex c) (length d) = writeIndex c + length d"
    using c(2,4) by (intro sz_add_eq) (auto simp: buf_inv_def vector_max_def)
  then have a: "Append d b = Inr ?b"
    using c(1,4) by (simp add: Append_def memcpy_in_def BeginWrite_def)
  have i: "buf_inv ?b" using c(2,4) by (simp add: buf_inv_def)
  have "content ?b = drop (readIndex c) (take (writeIndex c + length d)
      (splice_at (buffer c) (writeIndex c) d))"
    using c(2) by (simp add: content_def take_drop_append buf_inv_def)
  also have "\<dots> = drop (readIndex c) (take (writeIndex c) (buffer c) @ d)"
    using c(4) by simp
  also have "\<dots> = content c @ d"
    using c(2) by (simp add: content_def drop_take buf_inv_def)
  finally show ?thesis using a i c by auto
qed

lemma buf_room_fits: "buf_room n b \<Longrightarrow> n < 2 ^ 63 \<and> buf_fits n b"
  by (auto simp: buf_room_def buf_fits_def vector_max_def)

lemma Append_ok:
  assumes "buf_inv b" "buf_room (length d) b"
  shows "\<exists>b'. Append d b = Inr b' \<and> buf_inv b' \<and> content b' = content b @ d \<and>
    length (buffer b) \<le> length (buffer b') \<and> writeIndex b' \<le> writeIndex b + length d"
  using Append_fits [OF assms(1)] buf_room_fits [OF assms(2)] by blast

text \<open>Beyond the maximal size of a vector, growing throws.\<close>

lemma Append_length_error:
  assumes inv: "buf_inv b" and len: "length d < 2 ^ 63" and no: "\<not> buf_fits (length d) b"
  shows "Append d b = Inl LengthError"
proof -
  have b: "readIndex b \<le> writeIndex b" "writeIndex b \<le> length (buffer b)"
    "length (buffer b) \<le> vector_max" "vector_max < writeIndex b + length d"
    "length (buffer b) - writeIndex b + readIndex b < length d + kInitPrependSize"
    using inv no by (auto simp: buf_inv_def buf_fits_def buf_room_def)
  have s: "sz_add (length d) kInitPrependSize = length d + kInitPrependSize"
    "sz_add (length (buffer b) - writeIndex b) (readIndex b) = length (buffer b) - writeIndex b + readIndex b"
    "sz_add (writeIndex b) (length d) = writeIndex b + length d"
    using b len by (auto simp: sz_add_eq vector_max_def kInitPrependSize_def)
  have "\<not> length d \<le> length (buffer b) - writeIndex b" using b by linarith
  then show ?thesis
    using b inv
    by (simp add: Append_def CheckAndMakePlace_def buf_simps s PrependableBytes_def
        vector_resize_def)
qed

section \<open>The remaining operations\<close>

lemma RetrieveUntil_ok:
  assumes "buf_inv b" "n \<le> length (content b)"
  shows "\<exists>b'. RetrieveUntil (Peek b + n) b = Inr b' \<and> content b' = drop n (content b) \<and>
    buffer b' = buffer b \<and> buf_inv b'"
proof -
  have "Peek b + n \<le> BeginWrite b"
    using assms by (auto simp: buf_simps Peek_def BeginWrite_def buf_inv_def)
  with Retrieve_ok [OF assms] show ?thesis by (simp add: RetrieveUntil_def)
qed

lemma Unwrite_ok:
  assumes "buf_inv b" "n \<le> length (content b)"
  shows "\<exists>b'. Unwrite n b = Inr b' \<and> content b' = take (length (content b) - n) (content b) \<and> buf_inv b'"
proof -
  have "sz_sub (writeIndex b) n = writeIndex b - n"
    using assms by (intro sz_sub_eq) (auto simp: buf_simps buf_inv_def vector_max_def)
  moreover have "content (b\<lparr>writeIndex := writeIndex b - n\<rparr>) =
      take (length (content b) - n) (content b)"
    using assms by (simp add: length_content) (simp add: content_def add.commute)
  ultimately show ?thesis
    using assms by (auto simp: Unwrite_def ReadableBytes_content length_content buf_inv_def)
qed

lemma Prepend_ok:
  assumes "buf_inv b" "length d \<le> PrependableBytes b"
  shows "\<exists>b'. Prepend d b = Inr b' \<and> buf_inv b' \<and> content b' = d @ content b \<and>
    writeIndex b' = writeIndex b \<and> PrependableBytes b' = PrependableBytes b - length d"
proof -
  define r where "r = readIndex b - length d"
  have r: "readIndex b = r + length d" using assms(2) by (simp add: r_def PrependableBytes_def)
  have b: "readIndex b \<le> writeIndex b" "writeIndex b \<le> length (buffer b)"
    using assms(1) by (auto simp: buf_inv_def)
  have "sz_sub (readIndex b) (length d) = r"
    using assms unfolding r_def
    by (intro sz_sub_eq) (auto simp: PrependableBytes_def buf_inv_def vector_max_def)
  then have "Prepend d b = Inr (b\<lparr>buffer := splice_at (buffer b) r d, readIndex := r\<rparr>)"
    using assms(2) r b by (simp add: Prepend_def memcpy_in_def)
  moreover have "content (b\<lparr>buffer := splice_at (buffer b) r d, readIndex := r\<rparr>) = d @ content b"
    using r b by (simp add: content_def splice_at_def take_add drop_drop)
  ultimately show ?thesis
    using assms r by (auto simp: buf_inv_def PrependableBytes_def)
qed

lemma HasWriten_ok:
  assumes "buf_inv b" "n \<le> WritableBytes b"
  shows "\<exists>b'. HasWriten n b = Inr b' \<and> buf_inv b' \<and> buffer b' = buffer b \<and>
    content b' = content b @ take n (drop (writeIndex b) (buffer b))"
proof -
  have n: "writeIndex b + n \<le> length (buffer b)"
    using assms by (auto simp: buf_simps buf_inv_def)
  then have "sz_add (writeIndex b) n = writeIndex b + n"
    using assms(1) by (intro sz_add_eq) (auto simp: buf_inv_def vector_max_def)
  moreover have "content (b\<lparr>writeIndex := writeIndex b + n\<rparr>) =
      content b @ take n (drop (writeIndex b) (buffer b))"
    using assms(1) by (simp add: content_def buf_inv_def take_drop_append [symmetric] take_add)
  ultimately show ?thesis
    using assms n by (auto simp: HasWriten_def buf_inv_def)
qed

text \<open>Searching.\<close>

lemma std_search_le: "std_search pat xs \<le> length xs"
  by (induction xs) auto

lemma std_search_hit:
  "std_search pat xs < length xs \<Longrightarrow> take (length pat) (drop (std_search pat xs) xs) = pat"
  by (induction xs) auto

lemma std_search_least:
  "i < length xs \<Longrightarrow> take (length pat) (drop i xs) = pat \<Longrightarrow> std_search pat xs \<le> i"
proof (induction xs arbitrary: i)
  case (Cons x xs)
  then show ?case by (cases i) auto
qed simp

lemma FindCRLF_Some:
  assumes "buf_inv b" "FindCRLF b = Some p"
  shows "\<exists>i. p = Peek b + i \<and> i + 2 \<le> length (content b) \<and> take 2 (drop i (content b)) = kCRLF \<and>
    (\<forall>j<i. take 2 (drop j (content b)) \<noteq> kCRLF)"
proof -
  let ?i = "std_search kCRLF (content b)"
  have "?i < length (content b)" and p: "p = Peek b + ?i"
    using assms std_search_le [of kCRLF "content b"]
    by (auto simp: FindCRLF_def Let_def buf_simps Peek_def BeginWrite_def buf_inv_def
        split: if_splits)
  with std_search_hit [of kCRLF "content b"] have t: "take 2 (drop ?i (content b)) = kCRLF"
    by simp
  then have "length (take 2 (drop ?i (content b))) = 2" by simp
  then have "?i + 2 \<le> length (content b)" by simp
  moreover have "take 2 (drop j (content b)) \<noteq> kCRLF" if "j < ?i" for j
    using std_search_least [of j "content b" kCRLF] \<open>?i < length (content b)\<close> that by auto
  ultimately show ?thesis using p t by blast
qed

lemma FindCRLF_None:
  assumes "buf_inv b" "FindCRLF b = None"
  shows "\<forall>j. take 2 (drop j (content b)) \<noteq> kCRLF"
proof -
  have e: "std_search kCRLF (content b) = length (content b)"
    using assms by (auto simp: FindCRLF_def Let_def buf_simps Peek_def BeginWrite_def buf_inv_def
        split: if_splits)
  show ?thesis
  proof (rule allI, rule notI)
    fix j assume j: "take 2 (drop j (content b)) = kCRLF"
    then have "j < length (content b)" by (rule contrapos_pp) (simp add: kCRLF_def)
    with std_search_least [of j "content b" kCRLF] j e show False by simp
  qed
qed

text \<open>Reading from a descriptor.\<close>

lemma sum_ReadFd_iov:
  "buf_inv b \<Longrightarrow> sum_list (ReadFd_iov b) \<le> WritableBytes b + extrabufSize"
  by (simp add: ReadFd_iov_def)

lemma ReadFd_ok:
  assumes inv: "buf_inv b" and spec: "readv_spec readv"
    and room: "length (buffer b) + extrabufSize \<le> vector_max"
    and s: "readv (ReadFd_iov b) = Some s"
  shows "\<exists>b'. ReadFd readv b = Inr (int (length s), b') \<and> buf_inv b' \<and> content b' = content b @ s"
proof -
  let ?w = "writeIndex b" and ?L = "length (buffer b)"
  have b: "readIndex b \<le> ?w" "?w \<le> ?L" "?L \<le> vector_max" using inv by (auto simp: buf_inv_def)
  have W: "WritableBytes b = ?L - ?w" using inv by (simp add: buf_simps)
  have n: "length s \<le> ?L - ?w + extrabufSize"
    using spec s sum_ReadFd_iov [OF inv] W by (fastforce simp: readv_spec_def)
  define v where "v = splice_at (buffer b) ?w (take (?L - ?w) s)"
  have m: "memcpy_in (BeginWrite b) (take (?L - ?w) s) (buffer b) = Inr v"
    using b by (simp add: memcpy_in_def BeginWrite_def v_def)
  have lv: "length v = ?L" using b by (simp add: v_def)
  have tv: "take (?w + length (take (?L - ?w) s)) v = take ?w (buffer b) @ take (?L - ?w) s"
    unfolding v_def using b by (intro take_splice_at) simp
  show ?thesis
  proof (cases "length s \<le> ?L - ?w")
    case True
    let ?b = "b\<lparr>buffer := v, writeIndex := ?w + length s\<rparr>"
    have "sz_add ?w (length s) = ?w + length s"
      using True b by (intro sz_add_eq) (auto simp: vector_max_def)
    then have "ReadFd readv b = Inr (int (length s), ?b)"
      using True s m by (simp add: ReadFd_def W Let_def)
    moreover have "content ?b = drop (readIndex b) (take (?w + length s) v)"
      using b by (simp add: content_def take_drop_append)
    then have "content ?b = drop (readIndex b) (take ?w (buffer b) @ s)" using tv True by simp
    then have "content ?b = content b @ s" using b by (simp add: content_def drop_take)
    moreover have "buf_inv ?b" using inv True lv by (auto simp: buf_inv_def)
    ultimately show ?thesis by blast
  next
    case False
    let ?b = "b\<lparr>buffer := v, writeIndex := length v\<rparr>" and ?x = "drop (?L - ?w) s"
    have i: "buf_inv ?b" using inv lv by (auto simp: buf_inv_def)
    have full: "?w + length (take (?L - ?w) s) = length v" using b lv False by simp
    have "content ?b = drop (readIndex b) v" using lv by (simp add: content_def)
    also have "\<dots> = drop (readIndex b) (take ?w (buffer b) @ take (?L - ?w) s)"
      using tv unfolding full by simp
    also have "\<dots> = content b @ take (?L - ?w) s" using b by (simp add: content_def drop_take)
    finally have c: "content ?b = content b @ take (?L - ?w) s" .
    have "buf_room (length ?x) ?b" using n room lv by (simp add: buf_room_def)
    from Append_ok [OF i this] obtain b' where
      "Append ?x ?b = Inr b'" "buf_inv b'" "content b' = content ?b @ ?x" by auto
    moreover from this c have "content b' = content b @ s" by simp
    ultimately show ?thesis using False s m lv by (simp add: ReadFd_def W Let_def)
  qed
qed

section \<open>Every sequence of operations\<close>

text \<open>
  The public operations that change a buffer, with their arguments; a result that is not a buffer is
  dropped.  \<open>OReadFd\<close> carries what the kernel has for the descriptor and delivers as much of it as
  the blocks hold.
\<close>

datatype buf_op =
    OAppend string
  | OPrepend string
  | ORetrieve nat
  | ORetrieveUntil nat
  | ORetrieveAll
  | ORetrieveAsString nat
  | ORetrieveAllAsString
  | OHasWriten nat
  | OUnwrite nat
  | OReadFd "string option"
  | OSwap Buffer

fun exec_op :: "buf_op \<Rightarrow> Buffer \<Rightarrow> Buffer res" where
  "exec_op (OAppend d) b = Append d b"
| "exec_op (OPrepend d) b = Prepend d b"
| "exec_op (ORetrieve n) b = Retrieve n b"
| "exec_op (ORetrieveUntil p) b = RetrieveUntil p b"
| "exec_op ORetrieveAll b = Inr (RetrieveAll b)"
| "exec_op (ORetrieveAsString n) b = rbind (RetrieveAsString n b) (\<lambda>(s, b'). Inr b')"
| "exec_op ORetrieveAllAsString b = rbind (RetrieveAllAsString b) (\<lambda>(s, b'). Inr b')"
| "exec_op (OHasWriten n) b = HasWriten n b"
| "exec_op (OUnwrite n) b = Unwrite n b"
| "exec_op (OReadFd k) b =
     rbind (ReadFd (\<lambda>iov. map_option (take (sum_list iov)) k) b) (\<lambda>(n, b'). Inr b')"
| "exec_op (OSwap rhs) b = Inr (fst (Swap b rhs))"

text \<open>Arguments that a program can form, and the conditions the assertions of the class state.\<close>

fun op_typed :: "buf_op \<Rightarrow> bool" where
  "op_typed (OAppend d) \<longleftrightarrow> length d < 2 ^ 63"
| "op_typed (OSwap rhs) \<longleftrightarrow> buf_inv rhs"
| "op_typed op \<longleftrightarrow> True"

fun op_pre :: "buf_op \<Rightarrow> Buffer \<Rightarrow> bool" where
  "op_pre (OPrepend d) b \<longleftrightarrow> length d \<le> readIndex b"
| "op_pre (ORetrieve n) b \<longleftrightarrow> n \<le> length (content b)"
| "op_pre (ORetrieveUntil p) b \<longleftrightarrow> readIndex b \<le> p \<and> p \<le> writeIndex b"
| "op_pre (ORetrieveAsString n) b \<longleftrightarrow> n \<le> length (content b)"
| "op_pre (OHasWriten n) b \<longleftrightarrow> writeIndex b + n \<le> length (buffer b)"
| "op_pre (OUnwrite n) b \<longleftrightarrow> n \<le> length (content b)"
| "op_pre op b \<longleftrightarrow> True"

lemma Retrieve_typed:
  "buf_inv b \<Longrightarrow> if n \<le> length (content b) then \<exists>b'. Retrieve n b = Inr b' \<and> buf_inv b'
    else Retrieve n b = Inl Assertion"
  using Retrieve_ok [of b n] by (auto simp: Retrieve_def ReadableBytes_content)

lemma RetrieveAsString_typed:
  "buf_inv b \<Longrightarrow> if n \<le> length (content b) then \<exists>s b'. RetrieveAsString n b = Inr (s, b') \<and> buf_inv b'
    else RetrieveAsString n b = Inl Assertion"
  using Retrieve_typed [of b n]
  by (auto simp: RetrieveAsString_def ReadableBytes_content length_content Peek_def buf_inv_def)

lemma ReadFd_typed:
  assumes inv: "buf_inv b" and spec: "readv_spec readv"
  shows "ReadFd readv b = Inl LengthError \<or> (\<exists>n b'. ReadFd readv b = Inr (n, b') \<and> buf_inv b')"
proof (cases "readv (ReadFd_iov b)")
  case None
  then show ?thesis using inv by (simp add: ReadFd_def)
next
  case (Some s)
  let ?w = "writeIndex b" and ?W = "WritableBytes b"
  have b: "readIndex b \<le> ?w" "?w \<le> length (buffer b)" "length (buffer b) \<le> vector_max" and W: "?W = length (buffer b) - ?w"
    using inv by (auto simp: buf_inv_def buf_simps)
  have n: "length s \<le> ?W + extrabufSize"
    using spec Some sum_ReadFd_iov [OF inv] by (fastforce simp: readv_spec_def)
  define v where "v = splice_at (buffer b) ?w (take ?W s)"
  have m: "memcpy_in (BeginWrite b) (take ?W s) (buffer b) = Inr v" and lv: "length v = length (buffer b)"
    using b by (simp_all add: memcpy_in_def BeginWrite_def v_def W)
  show ?thesis
  proof (cases "length s \<le> ?W")
    case True
    moreover from this have "sz_add ?w (length s) = ?w + length s"
      using b W by (intro sz_add_eq) (auto simp: vector_max_def)
    ultimately show ?thesis using Some m lv inv W by (auto simp: ReadFd_def Let_def buf_inv_def)
  next
    case False
    let ?b = "b\<lparr>buffer := v, writeIndex := length v\<rparr>" and ?x = "drop ?W s"
    have i: "buf_inv ?b" using inv lv by (auto simp: buf_inv_def)
    have "length ?x < 2 ^ 63" using n by (simp add: extrabufSize_def)
    then have "Append ?x ?b = Inl LengthError \<or> (\<exists>b'. Append ?x ?b = Inr b' \<and> buf_inv b')"
      using Append_fits [OF i] Append_length_error [OF i] by blast
    then show ?thesis using False Some m by (auto simp: ReadFd_def Let_def)
  qed
qed

lemma exec_op_typed:
  assumes inv: "buf_inv b" and ty: "op_typed op"
  shows "if op_pre op b then exec_op op b = Inl LengthError \<or> (\<exists>b'. exec_op op b = Inr b' \<and> buf_inv b')
    else exec_op op b = Inl Assertion"
proof (cases op)
  case (OAppend d)
  then show ?thesis using Append_fits [OF inv, of d] Append_length_error [OF inv, of d] ty by auto
next
  case (OPrepend d)
  then show ?thesis using Prepend_ok [OF inv, of d] by (auto simp: Prepend_def PrependableBytes_def)
next
  case (ORetrieve n)
  then show ?thesis using Retrieve_typed [OF inv, of n] by simp
next
  case (ORetrieveUntil p)
  then show ?thesis using Retrieve_typed [OF inv, of "p - readIndex b"] inv
    by (cases "readIndex b \<le> p"; cases "p \<le> writeIndex b")
      (auto simp: RetrieveUntil_def Peek_def BeginWrite_def length_content ensure_def)
next
  case (ORetrieveAsString n)
  then show ?thesis using RetrieveAsString_typed [OF inv, of n] by (auto split: if_splits)
next
  case ORetrieveAllAsString
  then show ?thesis using RetrieveAsString_typed [OF inv, of "length (content b)"] inv
    by (auto simp: RetrieveAllAsString_def ReadableBytes_content)
next
  case (OHasWriten n)
  have "n \<le> WritableBytes b \<longleftrightarrow> writeIndex b + n \<le> length (buffer b)"
    using inv by (auto simp: buf_simps buf_inv_def)
  then show ?thesis using OHasWriten HasWriten_ok [OF inv, of n] by (auto simp: HasWriten_def)
next
  case (OUnwrite n)
  then show ?thesis using Unwrite_ok [OF inv, of n] inv by (auto simp: Unwrite_def ReadableBytes_content)
next
  case (OReadFd k)
  have "readv_spec (\<lambda>iov. map_option (take (sum_list iov)) k)" by (auto simp: readv_spec_def)
  from ReadFd_typed [OF inv this] OReadFd show ?thesis by auto
next
  case (OSwap rhs)
  then show ?thesis using ty by (simp add: Swap_def buf_inv_def)
qed (use inv in \<open>auto simp: RetrieveAll_def buf_inv_def\<close>)

lemma exec_ops_typed:
  "buf_inv b \<Longrightarrow> \<forall>op \<in> set ops. op_typed op \<Longrightarrow>
    case rfold exec_op ops b of Inl e \<Rightarrow> e = Assertion \<or> e = LengthError | Inr b' \<Rightarrow> buf_inv b'"
proof (induction ops arbitrary: b)
  case (Cons op ops)
  from exec_op_typed [OF Cons.prems(1), of op] Cons.prems(2)
  have "(\<exists>e. exec_op op b = Inl e \<and> (e = Assertion \<or> e = LengthError)) \<or> (\<exists>b'. exec_op op b = Inr b' \<and> buf_inv b')"
    by (auto split: if_splits)
  then show ?case using Cons.IH Cons.prems(2) by auto
qed simp

section \<open>The buffer is a byte stream\<close>

lemma buffer_put_wf:
  assumes "buf_inv b" "length s < 2 ^ 63" "Append s b = Inr b'"
  shows "buf_inv b' \<and> content b' = content b @ s"
  using Append_fits [OF assms(1,2)] Append_length_error [OF assms(1,2)] assms(3)
  by (cases "buf_fits (length s) b") auto

interpretation buf: byte_stream Append content buf_room buf_inv RetrieveAsString
proof unfold_locales
  show "\<exists>b'. Append s b = Inr b' \<and> buf_inv b' \<and> content b' = content b @ s \<and>
      (\<forall>n. buf_room (length s + n) b \<longrightarrow> buf_room n b')"
    if "buf_inv b" "buf_room (length s) b" for b s
    using Append_ok [OF that] by (fastforce simp: buf_room_def)
  show "buf_room m b" if "buf_room n b" "m \<le> n" for b m n
    using that by (simp add: buf_room_def)
  show "\<exists>b'. RetrieveAsString n b = Inr (take n (content b), b') \<and> buf_inv b' \<and>
      content b' = drop n (content b)" if "buf_inv b" "n \<le> length (content b)" for b n
    using RetrieveAsString_ok [OF that] by blast
qed (fact RetrieveAsString_short buffer_put_wf)+

section \<open>Properties\<close>


definition exampleBuffer :: Buffer where
  "exampleBuffer = \<lparr>buffer = ''????????world?????'', readIndex = 8, writeIndex = 13\<rparr>"

lemmas buf_eval = Append_def CheckAndMakePlace_def memcpy_in_def splice_at_def vector_resize_def
  RetrieveAsString_def Retrieve_def RetrieveAll_def ReadableBytes_def WritableBytes_def
  PrependableBytes_def BeginWrite_def Peek_def sz_add_def sz_sub_def kInitPrependSize_def
  vector_max_def FindCRLF_def ReadFd_iov_def extrabufSize_def kCRLF_def content_def Let_def

lemma exampleBuffer_inv: "buf_inv exampleBuffer"
  by (simp add: exampleBuffer_def buf_inv_def kInitPrependSize_def vector_max_def)




text \<open>
  A buffer is a FIFO byte stream.  Any run of \<^verbatim>\<open>Append\<close> and \<^verbatim>\<open>RetrieveAsString\<close>
  calls that returns has delivered the appended bytes in order, without loss or duplication: the
  bytes retrieved, followed by the bytes still readable, are the bytes readable at the start
  followed by all bytes appended.
\<close>

theorem buffer_stream_fifo:
  assumes "buf_inv b" and "\<forall>op \<in> set ops. \<forall>s. op = Put s \<longrightarrow> length s < 2 ^ 63"
    and "run_stream Append RetrieveAsString ops b = Inr (out, b')"
  shows "buf_inv b' \<and> out @ content b' = content b @ puts ops"
  using assms by (rule buf.run_stream_fifo)

theorem buffer_stream_fifo_witness:
  "\<exists>out b'. run_stream Append RetrieveAsString [Put ''ab'', Get 3, Put ''c'', Get 4] exampleBuffer
       = Inr (out, b') \<and> out @ content b' = ''worldabc''"
proof -
  let ?ops = "[Put ''ab'', Get 3, Put ''c'', Get 4]"
  have r: "run_stream Append RetrieveAsString ?ops exampleBuffer = Inr (''worldab'',
      \<lparr>buffer = ''????????worldabc??'', readIndex = 15, writeIndex = 16\<rparr>)"
    by (simp add: buf_eval exampleBuffer_def)
  from buffer_stream_fifo [OF exampleBuffer_inv _ r] r show ?thesis
    by (auto simp: exampleBuffer_def content_def)
qed



text \<open>
  \<^verbatim>\<open>FindCRLF\<close> finds the first line end: it returns a null pointer only if no CR LF pair
  is readable, and otherwise a pointer to the first pair, so that \<^verbatim>\<open>RetrieveUntil(crlf + 2)\<close>
  removes exactly the first line and its line end.
\<close>

theorem FindCRLF_first_line:
  assumes "buf_inv b"
  shows "case FindCRLF b of
      None \<Rightarrow> \<forall>j. take 2 (drop j (content b)) \<noteq> kCRLF
    | Some p \<Rightarrow> \<exists>line rest b'. p = Peek b + length line \<and>
        content b = line @ kCRLF @ rest \<and>
        (\<forall>j < length line. take 2 (drop j (content b)) \<noteq> kCRLF) \<and>
        RetrieveUntil (p + 2) b = Inr b' \<and> buf_inv b' \<and> content b' = rest"
proof (cases "FindCRLF b")
  case None
  with FindCRLF_None [OF assms] show ?thesis by simp
next
  case (Some p)
  from FindCRLF_Some [OF assms Some] obtain i where i: "p = Peek b + i"
    "i + 2 \<le> length (content b)" "take 2 (drop i (content b)) = kCRLF"
    "\<forall>j<i. take 2 (drop j (content b)) \<noteq> kCRLF" by blast
  from RetrieveUntil_ok [OF assms i(2)] obtain b' where b': "RetrieveUntil (p + 2) b = Inr b'"
    "buf_inv b'" "content b' = drop (i + 2) (content b)" using i(1) by (auto simp: add.assoc)
  have "content b = take i (content b) @ kCRLF @ drop (i + 2) (content b)"
    using i(3) by (metis add.commute append_take_drop_id drop_drop)
  with i b' Some show ?thesis by (auto intro!: exI [of _ "take i (content b)"])
qed

theorem FindCRLF_first_line_witness:
  "\<exists>b. buf_inv b \<and> content b = ''GET'' @ kCRLF @ ''x'' \<and> FindCRLF b = Some 11"
proof -
  let ?b = "\<lparr>buffer = ''????????GET'' @ kCRLF @ ''x'', readIndex = 8, writeIndex = 14\<rparr>"
  have i: "buf_inv ?b" by (simp add: buf_inv_def kCRLF_def kInitPrependSize_def vector_max_def)
  have "FindCRLF ?b = Some 11" by (simp add: buf_eval)
  with FindCRLF_first_line [OF i] i show ?thesis
    by (intro exI [of _ ?b]) (simp add: content_def kCRLF_def)
qed

end
