(* ===== verification/Queues.thy ===== *)
theory Queues
  imports Interfaces "HOL-Library.Multiset"
begin

text \<open>
  The blocking queues, \<^verbatim>\<open>src/utils/BlockingQueue.h\<close> and
  \<^verbatim>\<open>src/utils/BoundedBlockingQueue.h\<close>.  The first part models the sequential containers:
  the circular queue over a vector, and the deque.  The second part models the monitors built
  on them: threads entering \<^verbatim>\<open>Put\<close> and \<^verbatim>\<open>Take\<close>, waiting on the two conditions and being
  woken by \<^verbatim>\<open>Notify\<close> or spuriously.
\<close>

section \<open>The circular queue\<close>

text \<open>
  \<^verbatim>\<open>vec_\<close> is a list together with the capacity it has reserved.  \<^verbatim>\<open>count_\<close> counts the slots
  used so far, until the vector is filled for the first time.
\<close>

record 'a CircularQueue =
  beginIndex :: nat
  endIndex :: nat
  qsize :: nat
  qcount :: nat
  vec :: "'a list"
  qcapacity :: nat

text \<open>
  \<^verbatim>\<open>vec_.reserve(maxSize)\<close> converts the \<open>int\<close> to \<open>size_t\<close>: a negative value throws.  The
  capacity the vector then has is the argument \<open>reserved\<close>; it is at least \<open>maxSize\<close>.
\<close>

definition CircularQueue_new :: "int \<Rightarrow> nat \<Rightarrow> 'a CircularQueue res" where
  "CircularQueue_new maxSize reserved =
     (if maxSize < 0 then Inl LengthError
      else Inr \<lparr>beginIndex = 0, endIndex = 0, qsize = 0, qcount = 0, vec = [],
                qcapacity = reserved\<rparr>)"

definition cq_full :: "'a CircularQueue \<Rightarrow> bool" where
  "cq_full q \<longleftrightarrow> qsize q = qcapacity q"

definition cq_empty :: "'a CircularQueue \<Rightarrow> bool" where
  "cq_empty q \<longleftrightarrow> qsize q = 0"

text \<open>\<^verbatim>\<open>std::vector::push_back\<close>: the capacity grows only when the vector is full.\<close>

definition vec_push_back :: "'a \<Rightarrow> 'a CircularQueue \<Rightarrow> 'a CircularQueue" where
  "vec_push_back x q = q\<lparr>vec := vec q @ [x],
     qcapacity := (if length (vec q) < qcapacity q then qcapacity q else max 1 (2 * qcapacity q))\<rparr>"

definition cq_push_back :: "'a \<Rightarrow> 'a CircularQueue \<Rightarrow> 'a CircularQueue res" where
  "cq_push_back x q =
     rbind
       (if qcount q < qcapacity q then
          Inr ((vec_push_back x q)\<lparr>qcount := Suc (qcount q)\<rparr>)
        else require (endIndex q < length (vec q)) (Inr (q\<lparr>vec := (vec q)[endIndex q := x]\<rparr>)))
       (\<lambda>q1. require (qcapacity q1 \<noteq> 0)
         (Inr (q1\<lparr>endIndex := (endIndex q1 + 1) mod qcapacity q1, qsize := sz_add (qsize q1) 1\<rparr>)))"

definition cq_front :: "'a CircularQueue \<Rightarrow> 'a res" where
  "cq_front q = require (beginIndex q < length (vec q)) (Inr (vec q ! beginIndex q))"

definition cq_pop_front :: "'a CircularQueue \<Rightarrow> 'a CircularQueue res" where
  "cq_pop_front q =
     require (qcapacity q \<noteq> 0)
       (Inr (q\<lparr>beginIndex := (beginIndex q + 1) mod qcapacity q, qsize := sz_sub (qsize q) 1\<rparr>))"

text \<open>What \<^verbatim>\<open>Take()\<close> does with a non-empty queue.\<close>

definition cq_take :: "'a CircularQueue \<Rightarrow> ('a \<times> 'a CircularQueue) res" where
  "cq_take q = rbind (cq_front q) (\<lambda>x. rbind (cq_pop_front q) (\<lambda>q1. Inr (x, q1)))"

section \<open>Refinement of the circular queue to a list\<close>

definition cq_items :: "'a CircularQueue \<Rightarrow> 'a list" where
  "cq_items q = map (\<lambda>i. vec q ! ((beginIndex q + i) mod qcapacity q)) [0..<qsize q]"

definition cq_inv :: "'a CircularQueue \<Rightarrow> bool" where
  "cq_inv q \<longleftrightarrow> qcapacity q < 2 ^ 31 \<and> qsize q \<le> qcapacity q \<and>
     (0 < qcapacity q \<longrightarrow> beginIndex q < qcapacity q \<and>
        endIndex q = (beginIndex q + qsize q) mod qcapacity q) \<and>
     qcount q = length (vec q) \<and>
     (if qcount q < qcapacity q then beginIndex q + qsize q = qcount q else qcount q = qcapacity q)"

lemma length_cq_items [simp]: "length (cq_items q) = qsize q"
  by (simp add: cq_items_def)

lemma wrap_index:
  "b < c \<Longrightarrow> i \<le> c \<Longrightarrow> (b + i) mod c = (if b + i < c then b + i else b + i - (c::nat))"
  by (auto simp: mod_if)

lemma CircularQueue_new_inv:
  "CircularQueue_new maxSize reserved = Inr q \<Longrightarrow> reserved < 2 ^ 31 \<Longrightarrow>
    cq_inv q \<and> cq_items q = [] \<and> qcapacity q = reserved"
  by (auto simp: CircularQueue_new_def cq_inv_def cq_items_def split: if_splits)

lemma cq_items_cong:
  assumes "qsize q' = qsize q" "\<And>i. i < qsize q \<Longrightarrow>
    vec q' ! ((beginIndex q' + i) mod qcapacity q') = vec q ! ((beginIndex q + i) mod qcapacity q)"
  shows "cq_items q' = cq_items q"
  using assms by (auto simp: cq_items_def)

lemma cq_push_back_ok:
  assumes inv: "cq_inv q" and nf: "\<not> cq_full q"
  shows "\<exists>q'. cq_push_back x q = Inr q' \<and> cq_inv q' \<and> cq_items q' = cq_items q @ [x] \<and>
    qcapacity q' = qcapacity q"
proof -
  let ?b = "beginIndex q" and ?c = "qcapacity q" and ?n = "qsize q"
  have c: "?n < ?c" "?c < 2 ^ 31" "?b < ?c" "endIndex q = (?b + ?n) mod ?c"
    using inv nf by (auto simp: cq_inv_def cq_full_def)
  have sz: "sz_add ?n 1 = Suc ?n" using c by (simp add: sz_add_eq)
  have idx: "\<And>i. i \<le> ?n \<Longrightarrow> (?b + i) mod ?c = (if ?b + i < ?c then ?b + i else ?b + i - ?c)"
    using c by (intro wrap_index) auto
  have e1: "(endIndex q + 1) mod ?c = (?b + Suc ?n) mod ?c"
    using c by (simp add: mod_Suc_eq)
  show ?thesis
  proof (cases "qcount q < ?c")
    case True
    then have t: "?b + ?n = qcount q" "length (vec q) = qcount q"
      using inv by (auto simp: cq_inv_def)
    let ?q = "q\<lparr>vec := vec q @ [x], qcount := Suc (qcount q),
      endIndex := (?b + Suc ?n) mod ?c, qsize := Suc ?n\<rparr>"
    have "cq_push_back x q = Inr ?q"
      using True t sz c e1 by (simp add: cq_push_back_def vec_push_back_def)
    moreover have "cq_inv ?q" using c t True by (auto simp: cq_inv_def)
    moreover have "cq_items ?q = cq_items q @ [x]"
      using t idx True by (auto simp: cq_items_def nth_append)
    ultimately show ?thesis by auto
  next
    case False
    then have t: "length (vec q) = ?c" "qcount q = ?c"
      using inv by (auto simp: cq_inv_def)
    let ?q = "q\<lparr>vec := (vec q)[endIndex q := x],
      endIndex := (?b + Suc ?n) mod ?c, qsize := Suc ?n\<rparr>"
    have "endIndex q < ?c" using c by simp
    then have "cq_push_back x q = Inr ?q"
      using False t sz c e1 by (simp add: cq_push_back_def)
    moreover have "cq_inv ?q" using c t by (auto simp: cq_inv_def)
    moreover have "(?b + ?n) mod ?c \<noteq> (?b + i) mod ?c" if "i < ?n" for i
      using that c idx [of i] idx [of ?n] by (auto split: if_splits)
    then have "cq_items ?q = cq_items q @ [x]"
      using c t by (auto simp: cq_items_def)
    ultimately show ?thesis by auto
  qed
qed

lemma cq_take_ok:
  assumes inv: "cq_inv q" and it: "cq_items q = x # xs"
  shows "\<exists>q'. cq_take q = Inr (x, q') \<and> cq_inv q' \<and> cq_items q' = xs \<and> qcapacity q' = qcapacity q"
proof -
  let ?b = "beginIndex q" and ?c = "qcapacity q" and ?n = "qsize q"
  have n: "?n = Suc (length xs)" using it length_cq_items [of q] by simp
  have c: "?n \<le> ?c" "0 < ?c" "?c < 2 ^ 31" "?b < ?c" "endIndex q = (?b + ?n) mod ?c"
    using inv n by (auto simp: cq_inv_def)
  have sz: "sz_sub ?n 1 = length xs" using c n by (simp add: sz_sub_eq)
  let ?q = "q\<lparr>beginIndex := (?b + 1) mod ?c, qsize := length xs\<rparr>"
  have b: "?b < length (vec q)"
    using inv c n by (auto simp: cq_inv_def split: if_splits)
  have items: "cq_items q = vec q ! ?b # map (\<lambda>i. vec q ! ((?b + Suc i) mod ?c)) [0..<length xs]"
    using c unfolding cq_items_def n by (simp add: upt_conv_Cons map_Suc_upt [symmetric] del: upt_Suc)
  then have "cq_take q = Inr (x, ?q)"
    using it b c sz by (simp add: cq_take_def cq_front_def cq_pop_front_def)
  moreover have "cq_items ?q = xs"
    using it items by (simp add: cq_items_def mod_simps)
  moreover have "cq_inv ?q"
  proof -
    have "((?b + 1) mod ?c + length xs) mod ?c = (?b + ?n) mod ?c"
      using n by (simp add: mod_simps)
    moreover have "(?b + 1) mod ?c + length xs = qcount q" if "qcount q < ?c"
      using that inv n by (auto simp: cq_inv_def)
    ultimately show ?thesis using inv c n by (auto simp: cq_inv_def)
  qed
  ultimately show ?thesis by auto
qed

interpretation cq: bounded_fifo cq_push_back cq_take cq_items cq_full cq_inv "\<lambda>q. Some (qcapacity q)"
proof unfold_locales
  show "\<exists>q'. cq_push_back x q = Inr q' \<and> cq_inv q' \<and> cq_items q' = cq_items q @ [x]"
    if "cq_inv q" "\<not> cq_full q" for q :: "'a CircularQueue" and x
    using cq_push_back_ok [OF that] by blast
  show "\<exists>q'. cq_take q = Inr (x, q') \<and> cq_inv q' \<and> cq_items q' = xs"
    if "cq_inv q" "cq_items q = x # xs" for q :: "'a CircularQueue" and x xs
    using cq_take_ok [OF that] by blast
  show "cq_full q = (case Some (qcapacity q) of None \<Rightarrow> False | Some c \<Rightarrow> c \<le> length (cq_items q))"
    if "cq_inv q" for q :: "'a CircularQueue"
    using that by (auto simp: cq_full_def cq_inv_def)
  show "Some (qcapacity q') = Some (qcapacity q)"
    if "cq_inv q" "\<not> cq_full q" "cq_push_back x q = Inr q'" for q q' :: "'a CircularQueue" and x
    using cq_push_back_ok [OF that(1,2), of x] that(3) by auto
  show "Some (qcapacity q') = Some (qcapacity q)"
    if "cq_inv q" "cq_items q \<noteq> []" "cq_take q = Inr (x, q')" for q q' :: "'a CircularQueue" and x
    using that(2) cq_take_ok [OF that(1)] that(3) by (cases "cq_items q") auto
qed

section \<open>The deque\<close>

definition dq_push_back :: "'a \<Rightarrow> 'a list \<Rightarrow> 'a list res" where
  "dq_push_back x q = Inr (q @ [x])"

definition dq_take :: "'a list \<Rightarrow> ('a \<times> 'a list) res" where
  "dq_take q = (case q of [] \<Rightarrow> Inl Undefined | x # xs \<Rightarrow> Inr (x, xs))"

interpretation dq: bounded_fifo dq_push_back dq_take "\<lambda>q. q" "\<lambda>q. False" "\<lambda>q. True" "\<lambda>q. None"
  by unfold_locales (auto simp: dq_push_back_def dq_take_def)

section \<open>BoundedBlockingQueue as a monitor\<close>

text \<open>
  The state between critical sections: the queue, the values of the threads blocked in
  \<^verbatim>\<open>notFull_.Wait()\<close> and of those woken but not yet running again, the numbers of such
  threads for \<^verbatim>\<open>notEmpty_\<close>, and the history of values put and taken.  The mutex makes each
  critical section one step; a woken thread evaluates its \<^verbatim>\<open>while\<close> condition again.
\<close>

record 'a BoundedBlockingQueue =
  queue :: "'a CircularQueue"
  waitNotFull :: "'a multiset"
  wokenNotFull :: "'a multiset"
  waitNotEmpty :: nat
  wokenNotEmpty :: nat
  putLog :: "'a list"
  takeLog :: "'a list"

definition bbq_new :: "int \<Rightarrow> nat \<Rightarrow> 'a BoundedBlockingQueue res" where
  "bbq_new maxSize reserved =
     rbind (CircularQueue_new maxSize reserved) (\<lambda>q.
       Inr \<lparr>queue = q, waitNotFull = {#}, wokenNotFull = {#}, waitNotEmpty = 0,
            wokenNotEmpty = 0, putLog = [], takeLog = []\<rparr>)"

definition bbq_notify_notEmpty :: "'a BoundedBlockingQueue \<Rightarrow> 'a BoundedBlockingQueue" where
  "bbq_notify_notEmpty s =
     (if waitNotEmpty s = 0 then s
      else s\<lparr>waitNotEmpty := waitNotEmpty s - 1, wokenNotEmpty := Suc (wokenNotEmpty s)\<rparr>)"

text \<open>The scheduler picks which blocked producer \<^verbatim>\<open>notFull_.Notify()\<close> wakes.\<close>

definition bbq_notify_notFull :: "'a \<Rightarrow> 'a BoundedBlockingQueue \<Rightarrow> 'a BoundedBlockingQueue" where
  "bbq_notify_notFull pick s =
     (if pick \<in># waitNotFull s
      then s\<lparr>waitNotFull := waitNotFull s - {#pick#}, wokenNotFull := add_mset pick (wokenNotFull s)\<rparr>
      else s)"

text \<open>The critical section of \<^verbatim>\<open>Put(x)\<close>, up to its end or to the next wait.\<close>

definition bbq_put :: "'a \<Rightarrow> 'a BoundedBlockingQueue \<Rightarrow> 'a BoundedBlockingQueue res" where
  "bbq_put x s =
     (if cq_full (queue s) then Inr (s\<lparr>waitNotFull := add_mset x (waitNotFull s)\<rparr>)
      else ensure (\<not> cq_full (queue s))
        (rbind (cq_push_back x (queue s)) (\<lambda>q.
          Inr (bbq_notify_notEmpty (s\<lparr>queue := q, putLog := putLog s @ [x]\<rparr>)))))"

definition bbq_take :: "'a \<Rightarrow> 'a BoundedBlockingQueue \<Rightarrow> 'a BoundedBlockingQueue res" where
  "bbq_take pick s =
     (if cq_empty (queue s) then Inr (s\<lparr>waitNotEmpty := Suc (waitNotEmpty s)\<rparr>)
      else rbind (cq_front (queue s)) (\<lambda>front.
        rbind (cq_pop_front (queue s)) (\<lambda>q.
          Inr (bbq_notify_notFull pick (s\<lparr>queue := q, takeLog := takeLog s @ [front]\<rparr>)))))"

text \<open>
  The steps of the monitor: a thread enters \<^verbatim>\<open>Put\<close> or \<^verbatim>\<open>Take\<close>, a woken thread runs again,
  or a blocked thread wakes spuriously.  A notification with blocked producers wakes one.
\<close>

inductive bbq_step :: "'a BoundedBlockingQueue \<Rightarrow> 'a BoundedBlockingQueue \<Rightarrow> bool" where
  put: "bbq_put x s = Inr t \<Longrightarrow> bbq_step s t"
| take: "bbq_take pick s = Inr t \<Longrightarrow> waitNotFull s = {#} \<or> pick \<in># waitNotFull s \<Longrightarrow> bbq_step s t"
| rerun_put: "x \<in># wokenNotFull s \<Longrightarrow>
    bbq_put x (s\<lparr>wokenNotFull := wokenNotFull s - {#x#}\<rparr>) = Inr t \<Longrightarrow> bbq_step s t"
| rerun_take: "0 < wokenNotEmpty s \<Longrightarrow>
    bbq_take pick (s\<lparr>wokenNotEmpty := wokenNotEmpty s - 1\<rparr>) = Inr t \<Longrightarrow>
    waitNotFull s = {#} \<or> pick \<in># waitNotFull s \<Longrightarrow> bbq_step s t"
| spurious_put: "x \<in># waitNotFull s \<Longrightarrow> bbq_step s (bbq_notify_notFull x s)"
| spurious_take: "bbq_step s (bbq_notify_notEmpty s)"

definition bbq_init :: "int \<Rightarrow> nat \<Rightarrow> 'a BoundedBlockingQueue \<Rightarrow> bool" where
  "bbq_init maxSize reserved s \<longleftrightarrow> reserved < 2 ^ 31 \<and> bbq_new maxSize reserved = Inr s"

text \<open>
  The core invariant is the FIFO discipline; \<open>bbq_wake\<close> says that no wakeup is lost: while
  consumers are blocked, at least as many are on their way as there are elements, and while
  producers are blocked, at least as many are on their way as there are free slots.
\<close>

definition bbq_core :: "'a BoundedBlockingQueue \<Rightarrow> bool" where
  "bbq_core s \<longleftrightarrow> cq_inv (queue s) \<and> takeLog s @ cq_items (queue s) = putLog s"

definition bbq_wake :: "nat \<Rightarrow> nat \<Rightarrow> 'a BoundedBlockingQueue \<Rightarrow> bool" where
  "bbq_wake de df s \<longleftrightarrow>
     (0 < waitNotEmpty s \<longrightarrow> qsize (queue s) \<le> wokenNotEmpty s + de) \<and>
     (waitNotFull s \<noteq> {#} \<longrightarrow> qcapacity (queue s) - qsize (queue s) \<le> size (wokenNotFull s) + df)"

definition bbq_inv :: "nat \<Rightarrow> 'a BoundedBlockingQueue \<Rightarrow> bool" where
  "bbq_inv cap s \<longleftrightarrow> bbq_core s \<and> bbq_wake 0 0 s \<and> qcapacity (queue s) = cap"

text \<open>The observers, each under the lock.\<close>

definition bbq_Size :: "'a BoundedBlockingQueue \<Rightarrow> nat" where "bbq_Size s = qsize (queue s)"

definition bbq_Empty :: "'a BoundedBlockingQueue \<Rightarrow> bool" where "bbq_Empty s \<longleftrightarrow> cq_empty (queue s)"

definition bbq_Full :: "'a BoundedBlockingQueue \<Rightarrow> bool" where "bbq_Full s \<longleftrightarrow> cq_full (queue s)"

definition bbq_Capacity :: "'a BoundedBlockingQueue \<Rightarrow> nat" where "bbq_Capacity s = qcapacity (queue s)"

lemma bbq_observers:
  assumes "bbq_inv cap s"
  shows "bbq_Size s = length (cq_items (queue s))" "bbq_Empty s \<longleftrightarrow> cq_items (queue s) = []"
    "bbq_Full s \<longleftrightarrow> length (cq_items (queue s)) = cap" "bbq_Capacity s = cap"
  using assms by (auto simp: bbq_inv_def bbq_Size_def bbq_Empty_def bbq_Full_def bbq_Capacity_def cq_empty_def cq_full_def
      cq_items_def)

lemma cq_items_qsize: "cq_items q = xs \<Longrightarrow> qsize q = length xs"
  using length_cq_items [of q] by simp

lemma bbq_put_ok:
  assumes core: "bbq_core s" and wake: "bbq_wake 0 df s" and df: "df \<le> 1"
  shows "\<exists>t. bbq_put x s = Inr t \<and> bbq_core t \<and> bbq_wake 0 0 t \<and>
    qcapacity (queue t) = qcapacity (queue s)"
proof (cases "cq_full (queue s)")
  case True
  with core wake show ?thesis
    by (simp add: bbq_put_def bbq_core_def bbq_wake_def cq_full_def)
next
  case False
  from core have inv: "cq_inv (queue s)" by (simp add: bbq_core_def)
  from cq_push_back_ok [OF inv False, of x] obtain q where q: "cq_push_back x (queue s) = Inr q"
    "cq_inv q" "cq_items q = cq_items (queue s) @ [x]" "qcapacity q = qcapacity (queue s)" by blast
  then have sz: "qsize q = Suc (qsize (queue s))" using cq_items_qsize [OF q(3)] by simp
  have "qsize (queue s) < qcapacity (queue s)"
    using False inv by (auto simp: cq_full_def cq_inv_def)
  with core wake df q sz False show ?thesis
    by (auto simp: bbq_put_def bbq_core_def bbq_wake_def bbq_notify_notEmpty_def)
qed

lemma bbq_take_ok:
  assumes core: "bbq_core s" and wake: "bbq_wake de 0 s" and de: "de \<le> 1"
    and pick: "waitNotFull s = {#} \<or> pick \<in># waitNotFull s"
  shows "\<exists>t. bbq_take pick s = Inr t \<and> bbq_core t \<and> bbq_wake 0 0 t \<and>
    qcapacity (queue t) = qcapacity (queue s)"
proof (cases "cq_items (queue s)")
  case Nil
  then have "qsize (queue s) = 0" using cq_items_qsize [OF Nil] by simp
  with core wake show ?thesis
    by (simp add: bbq_take_def bbq_core_def bbq_wake_def cq_empty_def)
next
  case (Cons x xs)
  from core have inv: "cq_inv (queue s)" by (simp add: bbq_core_def)
  from cq_take_ok [OF inv Cons] obtain q where q: "cq_take (queue s) = Inr (x, q)" "cq_inv q"
    "cq_items q = xs" "qcapacity q = qcapacity (queue s)" by blast
  then have f: "cq_front (queue s) = Inr x" "cq_pop_front (queue s) = Inr q"
    by (auto simp: cq_take_def res_simps)
  have sz: "qsize (queue s) = Suc (qsize q)"
    using cq_items_qsize [OF Cons] cq_items_qsize [OF q(3)] by simp
  with core wake de q f pick Cons show ?thesis
    by (auto simp: bbq_take_def bbq_core_def bbq_wake_def bbq_notify_notFull_def cq_empty_def)
qed

text \<open>A take never faults, whichever producer is picked.\<close>

lemma bbq_take_total:
  assumes "cq_inv (queue s)"
  shows "\<exists>t. bbq_take pick s = Inr t"
proof (cases "cq_items (queue s)")
  case Nil
  then show ?thesis using cq_items_qsize [OF Nil] by (simp add: bbq_take_def cq_empty_def)
next
  case (Cons x xs)
  from cq_take_ok [OF assms Cons] obtain q where "cq_take (queue s) = Inr (x, q)" by auto
  then have "cq_front (queue s) = Inr x" "cq_pop_front (queue s) = Inr q"
    by (auto simp: cq_take_def rbind_Inr_iff)
  then show ?thesis by (simp add: bbq_take_def)
qed

lemma bbq_rerun_put_wake:
  "x \<in># wokenNotFull s \<Longrightarrow> bbq_wake 0 0 s \<Longrightarrow>
    bbq_wake 0 1 (s\<lparr>wokenNotFull := wokenNotFull s - {#x#}\<rparr>)"
  using size_Suc_Diff1 [of x "wokenNotFull s"] unfolding bbq_wake_def by simp

lemma bbq_rerun_take_wake:
  "0 < wokenNotEmpty s \<Longrightarrow> bbq_wake 0 0 s \<Longrightarrow>
    bbq_wake 1 0 (s\<lparr>wokenNotEmpty := wokenNotEmpty s - 1\<rparr>)"
  by (auto simp: bbq_wake_def)

lemma bbq_inv_step:
  assumes "bbq_inv cap s" "bbq_step s t"
  shows "bbq_inv cap t"
  using assms(2,1)
proof cases
  case (put x)
  with assms(1) bbq_put_ok [of s 0 x] show ?thesis by (auto simp: bbq_inv_def)
next
  case (take pick)
  with assms(1) bbq_take_ok [of s 0 pick] show ?thesis by (auto simp: bbq_inv_def)
next
  case (rerun_put x)
  with assms(1) bbq_put_ok [of "s\<lparr>wokenNotFull := wokenNotFull s - {#x#}\<rparr>" 1 x]
    bbq_rerun_put_wake [of x s]
  show ?thesis by (auto simp: bbq_inv_def bbq_core_def)
next
  case (rerun_take pick)
  with assms(1) bbq_take_ok [of "s\<lparr>wokenNotEmpty := wokenNotEmpty s - 1\<rparr>" 1 pick]
    bbq_rerun_take_wake [of s]
  show ?thesis by (auto simp: bbq_inv_def bbq_core_def)
next
  case (spurious_put x)
  with assms(1) show ?thesis
    by (auto simp: bbq_inv_def bbq_core_def bbq_wake_def bbq_notify_notFull_def)
next
  case spurious_take
  with assms(1) show ?thesis
    by (auto simp: bbq_inv_def bbq_core_def bbq_wake_def bbq_notify_notEmpty_def)
qed

lemma bbq_init_inv: "bbq_init maxSize reserved s \<Longrightarrow> bbq_inv reserved s"
  by (auto simp: bbq_init_def bbq_new_def bbq_inv_def bbq_core_def bbq_wake_def res_simps
      dest!: CircularQueue_new_inv)

interpretation bbq: invariant "bbq_init maxSize reserved" bbq_step "bbq_inv reserved"
  by unfold_locales (fact bbq_init_inv, fact bbq_inv_step)

section \<open>BlockingQueue as a monitor\<close>

record 'a BlockingQueue =
  bqueue :: "'a list"
  bWait :: nat
  bWoken :: nat
  bPutLog :: "'a list"
  bTakeLog :: "'a list"

definition bq_new :: "'a BlockingQueue" where
  "bq_new = \<lparr>bqueue = [], bWait = 0, bWoken = 0, bPutLog = [], bTakeLog = []\<rparr>"

definition bq_notify :: "'a BlockingQueue \<Rightarrow> 'a BlockingQueue" where
  "bq_notify s =
     (if bWait s = 0 then s else s\<lparr>bWait := bWait s - 1, bWoken := Suc (bWoken s)\<rparr>)"

definition bq_Put :: "'a \<Rightarrow> 'a BlockingQueue \<Rightarrow> 'a BlockingQueue res" where
  "bq_Put x s =
     rbind (dq_push_back x (bqueue s)) (\<lambda>q.
       Inr (bq_notify (s\<lparr>bqueue := q, bPutLog := bPutLog s @ [x]\<rparr>)))"

definition bq_Take :: "'a BlockingQueue \<Rightarrow> 'a BlockingQueue res" where
  "bq_Take s =
     (if bqueue s = [] then Inr (s\<lparr>bWait := Suc (bWait s)\<rparr>)
      else rbind (dq_take (bqueue s)) (\<lambda>(x, q).
        Inr (s\<lparr>bqueue := q, bTakeLog := bTakeLog s @ [x]\<rparr>)))"

definition bq_Size :: "'a BlockingQueue \<Rightarrow> nat" where
  "bq_Size s = length (bqueue s)"

inductive bq_step :: "'a BlockingQueue \<Rightarrow> 'a BlockingQueue \<Rightarrow> bool" where
  bq_put: "bq_Put x s = Inr t \<Longrightarrow> bq_step s t"
| bq_take: "bq_Take s = Inr t \<Longrightarrow> bq_step s t"
| bq_rerun: "0 < bWoken s \<Longrightarrow> bq_Take (s\<lparr>bWoken := bWoken s - 1\<rparr>) = Inr t \<Longrightarrow> bq_step s t"
| bq_spurious: "bq_step s (bq_notify s)"

definition bq_inv :: "'a BlockingQueue \<Rightarrow> bool" where
  "bq_inv s \<longleftrightarrow> bTakeLog s @ bqueue s = bPutLog s \<and>
     (0 < bWait s \<longrightarrow> length (bqueue s) \<le> bWoken s)"

lemma bq_inv_step: "bq_inv s \<Longrightarrow> bq_step s t \<Longrightarrow> bq_inv t"
  by (erule bq_step.cases)
    (auto simp: bq_inv_def bq_Put_def bq_Take_def dq_push_back_def dq_take_def bq_notify_def
      split: if_splits list.splits)

interpretation bq: invariant "\<lambda>s. s = bq_new" bq_step bq_inv
proof unfold_locales
  show "bq_inv s" if "s = bq_new" for s :: "'a BlockingQueue"
    using that by (simp add: bq_inv_def bq_new_def)
qed (fact bq_inv_step)

section \<open>Properties\<close>

text \<open>
  The circular queue is a bounded FIFO queue.  From a queue constructed with a capacity
  of at least one, every sequence of \<^verbatim>\<open>push_back\<close> and \<^verbatim>\<open>front\<close>/\<^verbatim>\<open>pop_front\<close> in which the
  client pushes only onto a queue that is not full and pops only from one that is not empty
  runs without an access outside the vector, and the elements popped followed by the elements
  still queued are the elements pushed, in order, across the wrap-around of the indices.
\<close>

theorem CircularQueue_fifo:
  assumes "CircularQueue_new maxSize reserved = Inr q" and "reserved < 2 ^ 31"
    and "allowed (Some reserved) 0 ops"
  shows "\<exists>out q'. run_fifo cq_push_back cq_take ops q = Inr (out, q') \<and>
    out @ cq_items q' = pushed ops \<and> qsize q' \<le> reserved"
proof -
  from CircularQueue_new_inv [OF assms(1,2)] have q: "cq_inv q" "cq_items q = []"
    "qcapacity q = reserved" by auto
  with assms(3) have "allowed (Some (qcapacity q)) (length (cq_items q)) ops" by simp
  from cq.run_fifo_ok [OF q(1) this] obtain out q' where
    r: "run_fifo cq_push_back cq_take ops q = Inr (out, q')" "cq_inv q'"
      "out @ cq_items q' = pushed ops" using q(2) by auto
  have "qcapacity q' = qcapacity q"
    using cq.run_fifo_capacity [OF q(1) \<open>allowed (Some (qcapacity q)) (length (cq_items q)) ops\<close> r(1)]
    by simp
  with r q(3) show ?thesis by (auto simp: cq_inv_def)
qed

theorem CircularQueue_fifo_witness:
  "\<exists>out q'. run_fifo cq_push_back cq_take [Push 1, Push 2, Pop, Push 3, Pop, Push (4::int)]
      \<lparr>beginIndex = 0, endIndex = 0, qsize = 0, qcount = 0, vec = [], qcapacity = 2\<rparr>
      = Inr (out, q') \<and> out @ cq_items q' = [1, 2, 3, 4] \<and> qsize q' \<le> 2"
  using CircularQueue_fifo [of 2 2
      "\<lparr>beginIndex = 0, endIndex = 0, qsize = 0, qcount = 0, vec = [], qcapacity = 2\<rparr>"
      "[Push 1, Push 2, Pop, Push 3, Pop, Push (4::int)]"]
  by (simp add: CircularQueue_new_def)

text \<open>An example run: two consumers block on the empty queue, then a producer puts a value.\<close>

definition bbq_example :: "int BoundedBlockingQueue" where
  "bbq_example =
     \<lparr>queue = \<lparr>beginIndex = 0, endIndex = 1, qsize = 1, qcount = 1, vec = [7], qcapacity = 2\<rparr>,
      waitNotFull = {#}, wokenNotFull = {#}, waitNotEmpty = 1, wokenNotEmpty = 1,
      putLog = [7], takeLog = []\<rparr>"

lemmas bbq_eval = bbq_init_def bbq_new_def bbq_take_def bbq_put_def cq_empty_def cq_full_def
  CircularQueue_new_def bbq_notify_notEmpty_def cq_push_back_def vec_push_back_def sz_add_def

lemma bbq_example_reach: "reach (bbq_init 2 2) bbq_step bbq_example"
proof -
  let ?q = "\<lparr>beginIndex = 0, endIndex = 0, qsize = 0, qcount = 0, vec = [], qcapacity = 2\<rparr>"
  let ?s = "\<lambda>n. \<lparr>queue = ?q, waitNotFull = {#}, wokenNotFull = {#}, waitNotEmpty = n,
      wokenNotEmpty = 0, putLog = [], takeLog = []\<rparr> :: int BoundedBlockingQueue"
  have "reach (bbq_init 2 2) bbq_step (?s 0)"
    by (rule reach_init) (simp add: bbq_eval)
  then have "reach (bbq_init 2 2) bbq_step (?s 1)"
    by (rule reach_step) (rule bbq_step.take [of 0], simp_all add: bbq_eval)
  then have "reach (bbq_init 2 2) bbq_step (?s 2)"
    by (rule reach_step) (rule bbq_step.take [of 0], simp_all add: bbq_eval)
  then show ?thesis
    by (rule reach_step) (rule bbq_step.put [of 7], simp add: bbq_eval bbq_example_def)
qed

text \<open>
  C23: The bounded blocking queue in every reachable state of its monitor, whatever the
  interleaving of producers and consumers and whatever spurious wakeups occur: the values taken
  followed by the values queued are the values put, the queue never exceeds its capacity, and no
  critical section of \<^verbatim>\<open>Put\<close> or \<^verbatim>\<open>Take\<close> can fault, so the assert in \<^verbatim>\<open>Put\<close> never
  fires.
\<close>

theorem BoundedBlockingQueue_fifo:
  assumes "reach (bbq_init maxSize reserved) bbq_step s"
  shows "takeLog s @ cq_items (queue s) = putLog s \<and> qsize (queue s) \<le> reserved \<and>
    (\<forall>x. \<exists>t. bbq_put x s = Inr t) \<and> (\<forall>pick. \<exists>t. bbq_take pick s = Inr t)"
proof -
  have inv: "bbq_inv reserved s" by (rule bbq.reach_inv [OF assms])
  then have "\<exists>t. bbq_put x s = Inr t" for x
    using bbq_put_ok [of s 0 x] by (auto simp: bbq_inv_def)
  moreover have "\<exists>t. bbq_take pick s = Inr t" for pick
    using inv bbq_take_total [of s pick] by (auto simp: bbq_inv_def bbq_core_def)
  ultimately show ?thesis using inv by (auto simp: bbq_inv_def bbq_core_def cq_inv_def)
qed

theorem BoundedBlockingQueue_fifo_witness:
  "takeLog bbq_example @ cq_items (queue bbq_example) = [7] \<and> qsize (queue bbq_example) \<le> 2"
  using BoundedBlockingQueue_fifo [OF bbq_example_reach] by (simp add: bbq_example_def)

text \<open>
  C24: No wakeup is lost in the bounded blocking queue.  In every reachable state, if a consumer
  is blocked although an element is available then some consumer has been woken and will run, and
  if a producer is blocked although a slot is free then some producer has been woken; so the
  single \<^verbatim>\<open>Notify\<close> after each operation suffices.
\<close>

theorem BoundedBlockingQueue_no_lost_wakeup:
  assumes "reach (bbq_init maxSize reserved) bbq_step s"
  shows "(0 < waitNotEmpty s \<and> \<not> cq_empty (queue s) \<longrightarrow> 0 < wokenNotEmpty s) \<and>
    (waitNotFull s \<noteq> {#} \<and> \<not> cq_full (queue s) \<longrightarrow> wokenNotFull s \<noteq> {#})"
  using bbq.reach_inv [OF assms]
  by (auto simp: bbq_inv_def bbq_core_def bbq_wake_def cq_empty_def cq_full_def cq_inv_def)

theorem BoundedBlockingQueue_no_lost_wakeup_witness:
  "0 < waitNotEmpty bbq_example \<and> \<not> cq_empty (queue bbq_example) \<and> 0 < wokenNotEmpty bbq_example"
  using BoundedBlockingQueue_no_lost_wakeup [OF bbq_example_reach]
  by (simp add: bbq_example_def cq_empty_def)

end
