(* ===== verification/Containers.thy ===== *)
theory Containers
  imports Prelude "HOL-Library.Char_ord" "HOL-Library.List_Lexorder"
begin

text \<open>
  The ordered containers of the C++ library that the classes keep as members: \<^verbatim>\<open>std::set\<close> with
  a comparison (the timers of \<^verbatim>\<open>TimerQueue\<close>) and \<^verbatim>\<open>std::map\<close> (headers, registered channels,
  connections).  Both are lists in iteration order.  The laws their users need are stated as the
  locales \<open>comparison\<close> and \<open>ordered_map\<close>.
\<close>

section \<open>Ordered sets\<close>

definition set_lower :: "('a \<Rightarrow> 'a \<Rightarrow> bool) \<Rightarrow> 'a \<Rightarrow> 'a list \<Rightarrow> 'a list \<times> 'a list" where
  "set_lower lt x xs = (takeWhile (\<lambda>y. lt y x) xs, dropWhile (\<lambda>y. lt y x) xs)"

definition set_find :: "('a \<Rightarrow> 'a \<Rightarrow> bool) \<Rightarrow> 'a \<Rightarrow> 'a list \<Rightarrow> 'a option" where
  "set_find lt x xs =
     (case snd (set_lower lt x xs) of [] \<Rightarrow> None | y # ys \<Rightarrow> if lt x y then None else Some y)"

text \<open>\<^verbatim>\<open>insert\<close> returns whether the element was inserted, \<^verbatim>\<open>erase\<close> removes an equivalent one.\<close>

definition set_insert :: "('a \<Rightarrow> 'a \<Rightarrow> bool) \<Rightarrow> 'a \<Rightarrow> 'a list \<Rightarrow> 'a list \<times> bool" where
  "set_insert lt x xs =
     (if set_find lt x xs \<noteq> None then (xs, False)
      else (fst (set_lower lt x xs) @ x # snd (set_lower lt x xs), True))"

definition set_erase :: "('a \<Rightarrow> 'a \<Rightarrow> bool) \<Rightarrow> 'a \<Rightarrow> 'a list \<Rightarrow> 'a list" where
  "set_erase lt x xs =
     (if set_find lt x xs = None then xs
      else fst (set_lower lt x xs) @ tl (snd (set_lower lt x xs)))"

locale comparison =
  fixes lt :: "'a \<Rightarrow> 'a \<Rightarrow> bool"
  assumes lt_irrefl: "\<not> lt x x"
    and lt_trans: "lt x y \<Longrightarrow> lt y z \<Longrightarrow> lt x z"
    and lt_negtrans: "lt x z \<Longrightarrow> lt x y \<or> lt y z"
begin

lemma lt_asym: "lt x y \<Longrightarrow> \<not> lt y x"
  using lt_irrefl lt_trans by blast

lemma sorted_distinct: "sorted_wrt lt xs \<Longrightarrow> distinct xs"
  by (induction xs) (auto simp: lt_irrefl)

lemma lower_split: "fst (set_lower lt x xs) @ snd (set_lower lt x xs) = xs"
  by (simp add: set_lower_def)

lemma lower_sorted:
  "sorted_wrt lt xs \<Longrightarrow> sorted_wrt lt (fst (set_lower lt x xs) @ snd (set_lower lt x xs))"
  by (simp only: lower_split)

lemma lower_fst: "y \<in> set (fst (set_lower lt x xs)) \<Longrightarrow> lt y x \<and> y \<in> set xs"
  by (auto simp: set_lower_def dest: set_takeWhileD)

lemma lower_snd:
  "sorted_wrt lt xs \<Longrightarrow> y \<in> set (snd (set_lower lt x xs)) \<Longrightarrow> \<not> lt y x \<and> y \<in> set xs"
proof (induction xs)
  case (Cons a xs)
  show ?case
  proof (cases "lt a x")
    case True
    with Cons show ?thesis by (simp add: set_lower_def)
  next
    case False
    with Cons.prems show ?thesis by (auto simp: set_lower_def dest: lt_trans)
  qed
qed (simp add: set_lower_def)

text \<open>The lower bound splits a sorted set into the elements below \<open>x\<close> and the others.\<close>

lemma lower_filter:
  assumes "sorted_wrt lt xs"
  shows "set_lower lt x xs = (filter (\<lambda>y. lt y x) xs, filter (\<lambda>y. \<not> lt y x) xs)"
  using assms
proof (induction xs)
  case (Cons a xs)
  show ?case
  proof (cases "lt a x")
    case True
    with Cons show ?thesis by (simp add: set_lower_def)
  next
    case False
    with Cons.prems have "\<forall>y\<in>set xs. \<not> lt y x" by (auto dest: lt_trans)
    with False show ?thesis by (simp add: set_lower_def filter_empty_conv)
  qed
qed (simp add: set_lower_def)

lemma find_Some:
  assumes "sorted_wrt lt xs" "set_find lt x xs = Some y"
  shows "y \<in> set xs \<and> \<not> lt x y \<and> \<not> lt y x"
  using assms lower_snd [OF assms(1), of y x]
  by (auto simp: set_find_def split: list.splits if_splits)

lemma find_None:
  assumes "sorted_wrt lt xs" "set_find lt x xs = None" "y \<in> set xs"
  shows "lt x y \<or> lt y x"
proof (cases "y \<in> set (fst (set_lower lt x xs))")
  case True
  then show ?thesis using lower_fst by blast
next
  case False
  moreover have "y \<in> set (fst (set_lower lt x xs) @ snd (set_lower lt x xs))"
    using assms(3) by (simp only: lower_split)
  ultimately have y: "y \<in> set (snd (set_lower lt x xs))" by simp
  then obtain z zs where z: "snd (set_lower lt x xs) = z # zs" by (cases "snd (set_lower lt x xs)") auto
  with assms(2) have "lt x z" by (simp add: set_find_def split: if_splits)
  moreover have "sorted_wrt lt (z # zs)"
    using lower_sorted [OF assms(1), of x] z by (simp add: sorted_wrt_append)
  ultimately show ?thesis using y z by (auto dest: lt_trans)
qed

lemma insert_new:
  assumes "sorted_wrt lt xs" "\<And>y. y \<in> set xs \<Longrightarrow> lt x y \<or> lt y x"
  shows "snd (set_insert lt x xs)" "sorted_wrt lt (fst (set_insert lt x xs))"
    "set (fst (set_insert lt x xs)) = insert x (set xs)"
    "length (fst (set_insert lt x xs)) = Suc (length xs)"
proof -
  let ?a = "fst (set_lower lt x xs)" and ?b = "snd (set_lower lt x xs)"
  have none: "set_find lt x xs = None"
    using find_Some [OF assms(1)] assms(2) by (cases "set_find lt x xs") blast+
  have e: "set_insert lt x xs = (?a @ x # ?b, True)" using none by (simp add: set_insert_def)
  have s: "sorted_wrt lt (?a @ ?b)" using assms(1) by (simp only: lower_split)
  have "\<forall>y\<in>set ?b. lt x y" using lower_snd [OF assms(1)] assms(2) by blast
  moreover have "\<forall>y\<in>set ?a. lt y x" using lower_fst by blast
  ultimately show "sorted_wrt lt (fst (set_insert lt x xs))"
    using s by (simp add: e sorted_wrt_append)
  show "snd (set_insert lt x xs)" by (simp add: e)
  have "set xs = set (?a @ ?b)" "length xs = length (?a @ ?b)" by (simp_all only: lower_split)
  then show "set (fst (set_insert lt x xs)) = insert x (set xs)"
    "length (fst (set_insert lt x xs)) = Suc (length xs)" by (auto simp: e)
qed

lemma erase_found:
  assumes "sorted_wrt lt xs" "set_find lt x xs = Some y"
  shows "\<exists>as bs. xs = as @ y # bs \<and> set_erase lt x xs = as @ bs \<and> sorted_wrt lt (as @ bs)"
proof -
  from assms(2) obtain bs where bs: "snd (set_lower lt x xs) = y # bs"
    by (auto simp: set_find_def split: list.splits if_splits)
  with lower_split [of x xs] have "xs = fst (set_lower lt x xs) @ y # bs" by simp
  moreover have "sorted_wrt lt (fst (set_lower lt x xs) @ bs)"
    using lower_sorted [OF assms(1), of x] bs by (simp add: sorted_wrt_append)
  ultimately show ?thesis
    using assms(2) bs by (intro exI [of _ "fst (set_lower lt x xs)"] exI [of _ bs])
      (simp add: set_erase_def)
qed

end

section \<open>Ordered maps\<close>

type_synonym ('k, 'v) std_map = "('k \<times> 'v) list"

definition map_set :: "'k::linorder \<Rightarrow> 'v \<Rightarrow> ('k, 'v) std_map \<Rightarrow> ('k, 'v) std_map" where
  "map_set k v m =
     takeWhile (\<lambda>p. fst p < k) m @ (k, v) # dropWhile (\<lambda>p. fst p \<le> k) m"

definition map_erase :: "'k::linorder \<Rightarrow> ('k, 'v) std_map \<Rightarrow> ('k, 'v) std_map" where
  "map_erase k m = takeWhile (\<lambda>p. fst p < k) m @ dropWhile (\<lambda>p. fst p \<le> k) m"

definition map_find :: "'k::linorder \<Rightarrow> ('k, 'v) std_map \<Rightarrow> 'v option" where
  "map_find k m = map_of m k"

definition map_wf :: "('k::linorder, 'v) std_map \<Rightarrow> bool" where
  "map_wf m \<longleftrightarrow> sorted_wrt (<) (map fst m)"

locale ordered_map =
  fixes assign :: "'k::linorder \<Rightarrow> 'v \<Rightarrow> 'm \<Rightarrow> 'm"
    and erase :: "'k \<Rightarrow> 'm \<Rightarrow> 'm"
    and find :: "'k \<Rightarrow> 'm \<Rightarrow> 'v option"
    and iterate :: "'m \<Rightarrow> ('k \<times> 'v) list"
    and wf :: "'m \<Rightarrow> bool"
  assumes assign_wf: "wf m \<Longrightarrow> wf (assign k v m)"
    and erase_wf: "wf m \<Longrightarrow> wf (erase k m)"
    and find_assign: "wf m \<Longrightarrow> find j (assign k v m) = (if j = k then Some v else find j m)"
    and find_erase: "wf m \<Longrightarrow> find j (erase k m) = (if j = k then None else find j m)"
    and iterate_sorted: "wf m \<Longrightarrow> sorted_wrt (<) (map fst (iterate m))"
    and iterate_find: "wf m \<Longrightarrow> (k, v) \<in> set (iterate m) \<longleftrightarrow> find k m = Some v"
begin

definition assign_all :: "('k \<times> 'v) list \<Rightarrow> 'm \<Rightarrow> 'm" where
  "assign_all ps m = fold (\<lambda>(k, v). assign k v) ps m"

text \<open>Assigning a list of pairs one after the other: the last value of a key wins.\<close>

lemma assign_all_find:
  "wf m \<Longrightarrow> wf (assign_all ps m) \<and>
    find j (assign_all ps m) = (case map_of (rev ps) j of None \<Rightarrow> find j m | Some v \<Rightarrow> Some v)"
proof (induction ps arbitrary: m)
  case (Cons p ps)
  obtain k v where p: "p = (k, v)" by (cases p)
  from Cons.IH [OF assign_wf [OF Cons.prems]] show ?case
    unfolding p by (auto simp: assign_all_def find_assign [OF Cons.prems] map_add_def
        split: option.splits)
qed (simp add: assign_all_def)

lemma iterate_distinct: "wf m \<Longrightarrow> distinct (map fst (iterate m))"
  using iterate_sorted [of m] by (simp add: strict_sorted_iff)

end

lemma takeWhile_keys:
  fixes m :: "('k::linorder, 'v) std_map"
  shows "sorted_wrt (<) (map fst m) \<Longrightarrow>
    takeWhile (\<lambda>p. fst p < k) m = filter (\<lambda>p. fst p < k) m"
proof (induction m)
  case (Cons p m)
  then have "\<forall>q\<in>set m. fst p < fst q" by auto
  then have "filter (\<lambda>p. fst p < k) m = []" if "\<not> fst p < k"
    using that by (force simp: filter_empty_conv)
  with Cons show ?case by auto
qed simp

lemma dropWhile_keys:
  fixes m :: "('k::linorder, 'v) std_map"
  shows "sorted_wrt (<) (map fst m) \<Longrightarrow>
    dropWhile (\<lambda>p. fst p \<le> k) m = filter (\<lambda>p. k < fst p) m"
proof (induction m)
  case (Cons p m)
  then have "\<forall>q\<in>set m. fst p < fst q" by auto
  with Cons show ?case by (auto simp: not_le intro!: filter_True [symmetric])
qed simp

lemma map_of_filter_fst: "map_of (filter (\<lambda>p. P (fst p)) m) k = (if P k then map_of m k else None)"
  by (induction m) auto

lemma sorted_filter_fst:
  "sorted_wrt (<) (map fst m) \<Longrightarrow> sorted_wrt (<) (map fst (filter P m))"
  by (induction m) auto

interpretation smap: ordered_map map_set map_erase map_find "\<lambda>m. m" map_wf
proof unfold_locales
  fix m :: "('k::linorder, 'v) std_map" and j k v
  assume wf: "map_wf m"
  then have s: "sorted_wrt (<) (map fst m)" by (simp add: map_wf_def)
  note split = takeWhile_keys [OF s] dropWhile_keys [OF s]
  show "map_wf (map_set k v m)" "map_wf (map_erase k m)"
    using sorted_filter_fst [OF s]
    by (auto simp: map_wf_def map_set_def map_erase_def split sorted_wrt_append)
  show "map_find j (map_set k v m) = (if j = k then Some v else map_find j m)"
    by (auto simp: map_find_def map_set_def split map_of_filter_fst [of "\<lambda>x. x < k"]
        map_of_filter_fst [of "\<lambda>x. k < x"] map_add_def split: option.splits)
  show "map_find j (map_erase k m) = (if j = k then None else map_find j m)"
    by (auto simp: map_find_def map_erase_def split map_of_filter_fst [of "\<lambda>x. x < k"]
        map_of_filter_fst [of "\<lambda>x. k < x"] map_add_def split: option.splits)
  show "sorted_wrt (<) (map fst m)" by (rule s)
  show "((k, v) \<in> set m) = (map_find k m = Some v)"
    using s by (simp add: map_find_def strict_sorted_iff map_of_eq_Some_iff)
qed

end
