(* ===== verification/Time.thy ===== *)
theory Time
  imports Prelude
begin

text \<open>
  Time stamps, \<^verbatim>\<open>src/utils/Timestamp.h\<close>, \<^verbatim>\<open>src/utils/Timestamp.cc\<close> and the derived
  comparison operators of \<^verbatim>\<open>src/utils/operators.h\<close>; the conversions to \<^verbatim>\<open>struct timespec\<close>
  in \<^verbatim>\<open>src/thread/Condition.cc\<close> and \<^verbatim>\<open>src/thread/CurrentThread.cc\<close>.

  A time stamp is the number of microseconds since the epoch, an \<open>int64_t\<close>; arithmetic that
  leaves the range of the type is undefined.  A \<open>double\<close> is the real number it denotes; every
  floating-point operation rounds its exact result, and the rounding is a parameter \<open>fl\<close> of the
  definitions that use it, with the properties of IEEE binary64 they rely on in
  \<open>double_rounding\<close>.  The calendar functions of the C library are parameters too.
\<close>

section \<open>The class Timestamp\<close>

datatype Timestamp = Timestamp (MicrosecondsSinceEpoch: int)

definition kMicrosecondsPerSecond :: int where "kMicrosecondsPerSecond = 1000000"

definition kNanosecondsPerMicrosecond :: int where "kNanosecondsPerMicrosecond = 1000"

definition Timestamp_default :: Timestamp where "Timestamp_default = Timestamp 0"

definition Invalid :: Timestamp where "Invalid = Timestamp_default"

definition ts_less :: "Timestamp \<Rightarrow> Timestamp \<Rightarrow> bool" where
  "ts_less lhs rhs \<longleftrightarrow> MicrosecondsSinceEpoch lhs < MicrosecondsSinceEpoch rhs"

definition ts_eq :: "Timestamp \<Rightarrow> Timestamp \<Rightarrow> bool" where
  "ts_eq lhs rhs \<longleftrightarrow> MicrosecondsSinceEpoch lhs = MicrosecondsSinceEpoch rhs"

text \<open>The operators that \<^verbatim>\<open>LessThanComparable\<close> and \<^verbatim>\<open>EqualityComparable\<close> derive.\<close>

definition op_greater :: "('a \<Rightarrow> 'a \<Rightarrow> bool) \<Rightarrow> 'a \<Rightarrow> 'a \<Rightarrow> bool" where
  "op_greater lt x y = lt y x"

definition op_le :: "('a \<Rightarrow> 'a \<Rightarrow> bool) \<Rightarrow> 'a \<Rightarrow> 'a \<Rightarrow> bool" where
  "op_le lt x y = (\<not> lt y x)"

definition op_ge :: "('a \<Rightarrow> 'a \<Rightarrow> bool) \<Rightarrow> 'a \<Rightarrow> 'a \<Rightarrow> bool" where
  "op_ge lt x y = (\<not> lt x y)"

definition op_ne :: "('a \<Rightarrow> 'a \<Rightarrow> bool) \<Rightarrow> 'a \<Rightarrow> 'a \<Rightarrow> bool" where
  "op_ne eq2 x y = (\<not> eq2 x y)"

text \<open>Time stamps are linearly ordered by \<^verbatim>\<open>operator<\<close>.\<close>

instantiation Timestamp :: linorder
begin

definition less_Timestamp :: "Timestamp \<Rightarrow> Timestamp \<Rightarrow> bool" where
  "less_Timestamp = ts_less"

definition less_eq_Timestamp :: "Timestamp \<Rightarrow> Timestamp \<Rightarrow> bool" where
  "less_eq_Timestamp = op_le ts_less"

instance
  by standard (auto simp: less_Timestamp_def less_eq_Timestamp_def ts_less_def op_le_def
      Timestamp.expand)

end

lemma Timestamp_less [simp]: "Timestamp a < Timestamp b \<longleftrightarrow> a < b"
  by (simp add: less_Timestamp_def ts_less_def)

lemma Timestamp_le [simp]: "Timestamp a \<le> Timestamp b \<longleftrightarrow> a \<le> b"
  by (simp add: less_eq_Timestamp_def op_le_def ts_less_def not_less)

lemma derived_operators:
  fixes x y :: Timestamp
  shows "op_greater ts_less x y \<longleftrightarrow> x > y" "op_le ts_less x y \<longleftrightarrow> x \<le> y"
    "op_ge ts_less x y \<longleftrightarrow> x \<ge> y" "op_ne ts_eq x y \<longleftrightarrow> x \<noteq> y" "ts_less x y \<longleftrightarrow> x < y"
    "ts_eq x y \<longleftrightarrow> x = y"
  by (cases x; cases y; auto simp: op_greater_def op_le_def op_ge_def op_ne_def ts_less_def ts_eq_def)+

definition SecondsSinceEpoch :: "Timestamp \<Rightarrow> int" where
  "SecondsSinceEpoch t = cdiv (MicrosecondsSinceEpoch t) kMicrosecondsPerSecond"

text \<open>\<^verbatim>\<open>Now()\<close>: the answer of \<^verbatim>\<open>clock_gettime\<close> is an argument.\<close>

record timespec =
  tv_sec :: int
  tv_nsec :: int

definition Now :: "timespec \<Rightarrow> Timestamp res" where
  "Now ts =
     rbind (i64 (tv_sec ts * kMicrosecondsPerSecond)) (\<lambda>us.
       rbind (i64 (us + cdiv (tv_nsec ts) kNanosecondsPerMicrosecond)) (\<lambda>v. Inr (Timestamp v)))"

definition ts_Swap :: "Timestamp \<Rightarrow> Timestamp \<Rightarrow> Timestamp \<times> Timestamp" where
  "ts_Swap this that =
     (Timestamp (MicrosecondsSinceEpoch that), Timestamp (MicrosecondsSinceEpoch this))"

section \<open>Differences and sums\<close>

definition SecondsDifference :: "(real \<Rightarrow> real) \<Rightarrow> Timestamp \<Rightarrow> Timestamp \<Rightarrow> real res" where
  "SecondsDifference fl high low =
     rbind (i64 (MicrosecondsSinceEpoch high - MicrosecondsSinceEpoch low))
       (\<lambda>diff. Inr (fl (fl (of_int diff) / of_int kMicrosecondsPerSecond)))"

definition TimeDifference :: "Timestamp \<Rightarrow> Timestamp \<Rightarrow> timespec res" where
  "TimeDifference high low =
     rbind (i64 (MicrosecondsSinceEpoch high - MicrosecondsSinceEpoch low)) (\<lambda>msDiff.
       Inr \<lparr>tv_sec = cdiv msDiff kMicrosecondsPerSecond,
            tv_nsec = cmod msDiff kMicrosecondsPerSecond * kNanosecondsPerMicrosecond\<rparr>)"

text \<open>The conversion of a \<open>double\<close> to \<open>int64_t\<close> drops the fraction; out of range it is undefined.\<close>

definition double_to_i64 :: "real \<Rightarrow> int res" where
  "double_to_i64 x = i64 (if 0 \<le> x then \<lfloor>x\<rfloor> else \<lceil>x\<rceil>)"

definition AddSeconds :: "(real \<Rightarrow> real) \<Rightarrow> Timestamp \<Rightarrow> real \<Rightarrow> Timestamp res" where
  "AddSeconds fl timestamp seconds =
     rbind (double_to_i64 (fl (seconds * of_int kMicrosecondsPerSecond))) (\<lambda>delta.
       rbind (i64 (MicrosecondsSinceEpoch timestamp + delta)) (\<lambda>v. Inr (Timestamp v)))"

definition double_rounding :: "(real \<Rightarrow> real) \<Rightarrow> bool" where
  "double_rounding fl \<longleftrightarrow>
     (\<forall>k::int. \<bar>k\<bar> \<le> 2 ^ 53 \<longrightarrow> fl (of_int k) = of_int k) \<and> mono fl"

section \<open>Calendar time\<close>

record tm =
  tm_year :: int
  tm_mon :: int
  tm_mday :: int
  tm_hour :: int
  tm_min :: int
  tm_sec :: int

definition RoundByDay :: "(int \<Rightarrow> tm) \<Rightarrow> (tm \<Rightarrow> int) \<Rightarrow> Timestamp \<Rightarrow> Timestamp res" where
  "RoundByDay localtime mktime t =
     (let tm_time = (localtime (SecondsSinceEpoch t))\<lparr>tm_hour := 0, tm_min := 0, tm_sec := 0\<rparr> in
      rbind (i64 (kMicrosecondsPerSecond * mktime tm_time)) (\<lambda>v. Inr (Timestamp v)))"

definition ToFormattedString :: "(int \<Rightarrow> tm) \<Rightarrow> bool \<Rightarrow> Timestamp \<Rightarrow> string" where
  "ToFormattedString localtime showMicroseconds t =
     (let tm_time = localtime (SecondsSinceEpoch t);
          date = pad_left (CHR '' '') 4 (show_int (tm_year tm_time + 1900)) @
            show_int0 2 (tm_mon tm_time + 1) @ show_int0 2 (tm_mday tm_time) @ ''-'' @
            show_int0 2 (tm_hour tm_time) @ show_int0 2 (tm_min tm_time) @
            show_int0 2 (tm_sec tm_time)
      in if showMicroseconds then
           let microseconds = cmod (MicrosecondsSinceEpoch t) kMicrosecondsPerSecond in
           snprintf 32 (date @ ''.'' @ show_int0 6 microseconds)
         else snprintf 32 date)"

section \<open>Conversions to timespec elsewhere\<close>

text \<open>\<^verbatim>\<open>Condition::WaitForSeconds\<close>: the absolute deadline handed to \<^verbatim>\<open>pthread_cond_timedwait\<close>.\<close>

definition kNanosecondsPerSecond :: int where "kNanosecondsPerSecond = 1000 * 1000 * 1000"

definition WaitForSeconds_deadline :: "(real \<Rightarrow> real) \<Rightarrow> timespec \<Rightarrow> real \<Rightarrow> timespec res" where
  "WaitForSeconds_deadline fl ts seconds =
     rbind (double_to_i64 (fl (seconds * of_int kNanosecondsPerSecond))) (\<lambda>d.
     rbind (i64 (d + tv_nsec ts)) (\<lambda>nanoseconds.
     rbind (i64 (tv_sec ts + cdiv nanoseconds kNanosecondsPerSecond)) (\<lambda>sec.
       Inr (ts\<lparr>tv_sec := sec, tv_nsec := cmod nanoseconds kNanosecondsPerSecond\<rparr>))))"

text \<open>\<^verbatim>\<open>CurrentThread::SleepUsec\<close>: the interval handed to \<^verbatim>\<open>nanosleep\<close>.\<close>

definition SleepUsec_timespec :: "int \<Rightarrow> timespec" where
  "SleepUsec_timespec usec =
     \<lparr>tv_sec = cdiv usec 1000000, tv_nsec = cmod usec 1000000 * 1000\<rparr>"

section \<open>Lemmas\<close>

definition timespec_nanos :: "timespec \<Rightarrow> int" where
  "timespec_nanos ts = tv_sec ts * 1000000000 + tv_nsec ts"

definition timespec_normal :: "timespec \<Rightarrow> bool" where
  "timespec_normal ts \<longleftrightarrow> 0 \<le> tv_sec ts \<and> 0 \<le> tv_nsec ts \<and> tv_nsec ts < 1000000000"

lemmas time_consts = kMicrosecondsPerSecond_def kNanosecondsPerMicrosecond_def
  kNanosecondsPerSecond_def

lemma double_rounding_int:
  "double_rounding fl \<Longrightarrow> \<bar>k\<bar> \<le> 2 ^ 53 \<Longrightarrow> fl (of_int k) = of_int k"
  unfolding double_rounding_def by blast

lemma double_rounding_id: "double_rounding (\<lambda>x. x)"
  by (simp add: double_rounding_def mono_def)

lemma cdiv_cmod_scale: "cdiv a b * (b * c) + cmod a b * c = a * c"
  by (metis cdiv_cmod_eq distrib_right mult.assoc)

text \<open>The difference is exact; for a later time it is a normalised interval.\<close>

lemma TimeDifference_exact:
  assumes "i64_ok (MicrosecondsSinceEpoch high - MicrosecondsSinceEpoch low)"
  shows "\<exists>ts. TimeDifference high low = Inr ts \<and>
    timespec_nanos ts = (MicrosecondsSinceEpoch high - MicrosecondsSinceEpoch low) * 1000 \<and>
    (low \<le> high \<longrightarrow> timespec_normal ts)"
proof -
  let ?d = "MicrosecondsSinceEpoch high - MicrosecondsSinceEpoch low"
  have "cdiv ?d 1000000 * 1000000000 + cmod ?d 1000000 * 1000 = ?d * 1000"
    using cdiv_cmod_scale [of ?d 1000000 1000] by simp
  moreover have "timespec_normal \<lparr>tv_sec = cdiv ?d 1000000, tv_nsec = cmod ?d 1000000 * 1000\<rparr>"
    if "low \<le> high"
  proof -
    have d: "0 \<le> ?d" using that by (cases low; cases high) simp
    then have "?d mod 1000000 < 1000000" by simp
    with d show ?thesis by (simp add: timespec_normal_def cdiv_nonneg cmod_nonneg)
  qed
  ultimately show ?thesis
    using assms by (simp add: TimeDifference_def i64_def timespec_nanos_def time_consts)
qed

lemma double_to_i64_int: "i64_ok k \<Longrightarrow> double_to_i64 (of_int k) = Inr k"
  by (simp add: double_to_i64_def i64_def)

text \<open>A whole number of seconds is added exactly.\<close>

lemma AddSeconds_whole:
  assumes "double_rounding fl" and "\<bar>k\<bar> \<le> 9000000000"
    and "i64_ok (MicrosecondsSinceEpoch t + k * 1000000)"
  shows "AddSeconds fl t (of_int k) = Inr (Timestamp (MicrosecondsSinceEpoch t + k * 1000000))"
proof -
  have "fl (of_int (k * 1000000)) = of_int (k * 1000000)"
    using assms(2) by (intro double_rounding_int [OF assms(1)]) simp
  moreover have "i64_ok (k * 1000000)" using assms(2) by (simp add: i64_ok_def abs_le_iff)
  ultimately show ?thesis
    using assms(3) double_to_i64_int [of "k * 1000000"]
    by (simp add: AddSeconds_def time_consts i64_def)
qed

lemma AddSeconds_range:
  assumes "double_rounding fl" "0 < i" "fl (i * 1000000) < 2 ^ 61"
    and "0 \<le> MicrosecondsSinceEpoch t" "MicrosecondsSinceEpoch t < 2 ^ 61"
  shows "\<exists>v. AddSeconds fl t i = Inr (Timestamp v) \<and> MicrosecondsSinceEpoch t \<le> v \<and> v < 2 ^ 62"
proof -
  let ?x = "fl (i * 1000000)"
  have "fl 0 = 0" using double_rounding_int [OF assms(1), of 0] by simp
  moreover have "fl 0 \<le> ?x" using assms(1,2) by (auto simp: double_rounding_def mono_def)
  ultimately have x: "0 \<le> ?x" by simp
  define n where "n = \<lfloor>?x\<rfloor>"
  have f: "0 \<le> n" "n < 2 ^ 61" using x assms(3) by (auto simp: n_def floor_less_iff)
  then have "i64_ok n" "i64_ok (MicrosecondsSinceEpoch t + n)"
    using assms(4,5) by (simp_all add: i64_ok_def)
  with x f assms(4,5) show ?thesis
    by (simp add: AddSeconds_def double_to_i64_def time_consts i64_def n_def [symmetric])
qed

lemma WaitForSeconds_deadline_exact:
  assumes "double_rounding fl" and "timespec_normal ts" and "0 \<le> k" "k \<le> 9000000"
    and "tv_sec ts < 2 ^ 62"
  shows "\<exists>dl. WaitForSeconds_deadline fl ts (of_int k) = Inr dl \<and> timespec_normal dl \<and>
    timespec_nanos dl = timespec_nanos ts + k * 1000000000"
proof -
  let ?n = "k * 1000000000 + tv_nsec ts"
  have fl: "fl (of_int (k * 1000000000)) = of_int (k * 1000000000)"
    using assms(3,4) by (intro double_rounding_int [OF assms(1)]) simp
  have n: "0 \<le> ?n" "?n < 9000001000000000" "0 \<le> tv_sec ts" "0 \<le> tv_nsec ts" "tv_nsec ts < 1000000000"
    using assms(2-4) by (auto simp: timespec_normal_def)
  then have q: "0 \<le> ?n div 1000000000" "?n div 1000000000 < 9000002" by auto
  have "i64_ok (k * 1000000000)" "i64_ok ?n" "i64_ok (tv_sec ts + ?n div 1000000000)"
    using n q assms(3-5) by (auto simp: i64_ok_def)
  then have "WaitForSeconds_deadline fl ts (of_int k) =
      Inr (ts\<lparr>tv_sec := tv_sec ts + ?n div 1000000000, tv_nsec := ?n mod 1000000000\<rparr>)"
    using fl double_to_i64_int [of "k * 1000000000"] n
    by (simp add: WaitForSeconds_deadline_def time_consts i64_def cdiv_nonneg cmod_nonneg)
  moreover have "?n div 1000000000 * 1000000000 + ?n mod 1000000000 = ?n" by simp
  then have "(tv_sec ts + ?n div 1000000000) * 1000000000 + ?n mod 1000000000
      = timespec_nanos ts + k * 1000000000"
    unfolding timespec_nanos_def by algebra
  ultimately show ?thesis
    using n q by (auto simp: timespec_normal_def timespec_nanos_def)
qed

lemma SleepUsec_exact:
  "0 \<le> usec \<Longrightarrow> timespec_normal (SleepUsec_timespec usec) \<and>
    timespec_nanos (SleepUsec_timespec usec) = usec * 1000"
  using cdiv_cmod_scale [of usec 1000000 1000]
  by (simp add: SleepUsec_timespec_def timespec_normal_def timespec_nanos_def cdiv_nonneg
      cmod_nonneg)

end
