(* ===== verification/Timers.thy ===== *)
theory Timers
  imports Containers Time
begin

text \<open>
  Timers: \<^verbatim>\<open>src/reactor/Timer.h\<close>, \<^verbatim>\<open>src/reactor/Timer.cc\<close>,
  \<^verbatim>\<open>src/reactor/TimerQueue.h\<close> and \<^verbatim>\<open>src/reactor/TimerQueue.cc\<close>.

  The objects allocated by \<^verbatim>\<open>new Timer\<close> live in an explicit heap: a freed address maps to
  \<open>None\<close>, and dereferencing or deleting it is undefined.  Addresses are never reused.  The real
  time clock is an argument, read once per call of \<^verbatim>\<open>Now()\<close>; the state counts the readings.
  A user callback is the list of calls it makes on the queue from inside the loop thread.
\<close>

section \<open>Timer and TimerIndex\<close>

record 'cb Timer =
  tcallback :: 'cb
  texpiration :: Timestamp
  tinterval :: real
  trepeated :: bool
  tsequence :: int

definition wrap64 :: "int \<Rightarrow> int" where
  "wrap64 x = (x + 2 ^ 63) mod 2 ^ 64 - 2 ^ 63"

text \<open>\<^verbatim>\<open>AtomicInt64::IncrementAndGet\<close> of the static counter \<^verbatim>\<open>Timer::count_\<close>.\<close>

definition IncrementAndGet64 :: "int \<Rightarrow> int" where
  "IncrementAndGet64 c = wrap64 (c + 1)"

definition Timer_new :: "'cb \<Rightarrow> Timestamp \<Rightarrow> real \<Rightarrow> int \<Rightarrow> 'cb Timer" where
  "Timer_new callback when interval sequence =
     \<lparr>tcallback = callback, texpiration = when, tinterval = interval,
      trepeated = (interval > 0), tsequence = sequence\<rparr>"

definition Timer_Restart :: "(real \<Rightarrow> real) \<Rightarrow> Timestamp \<Rightarrow> 'cb Timer \<Rightarrow> 'cb Timer res" where
  "Timer_Restart fl now t =
     (if trepeated t then
        rbind (AddSeconds fl now (tinterval t)) (\<lambda>e. Inr (t\<lparr>texpiration := e\<rparr>))
      else Inr (t\<lparr>texpiration := Invalid\<rparr>))"

record TimerIndex =
  ti_timer :: "nat option"
  ti_expiration :: Timestamp
  ti_sequence :: int

definition TimerIndex_default :: TimerIndex where
  "TimerIndex_default = \<lparr>ti_timer = None, ti_expiration = Invalid, ti_sequence = 0\<rparr>"

definition ti_IsValid :: "TimerIndex \<Rightarrow> bool" where
  "ti_IsValid ti \<longleftrightarrow> ti_timer ti = None"

definition ti_SetInvalid :: "TimerIndex \<Rightarrow> TimerIndex" where
  "ti_SetInvalid ti = ti\<lparr>ti_timer := None, ti_expiration := Invalid, ti_sequence := 0\<rparr>"

definition ti_less :: "TimerIndex \<Rightarrow> TimerIndex \<Rightarrow> bool" where
  "ti_less lhs rhs =
     (if op_ne ts_eq (ti_expiration lhs) (ti_expiration rhs)
      then ts_less (ti_expiration lhs) (ti_expiration rhs)
      else ti_sequence lhs < ti_sequence rhs)"

definition ti_eq :: "TimerIndex \<Rightarrow> TimerIndex \<Rightarrow> bool" where
  "ti_eq lhs rhs \<longleftrightarrow> ti_timer lhs = ti_timer rhs \<and>
     ts_eq (ti_expiration lhs) (ti_expiration rhs) \<and> ti_sequence lhs = ti_sequence rhs"

lemma ti_less_iff:
  "ti_less l r \<longleftrightarrow> ti_expiration l < ti_expiration r \<or>
     (ti_expiration l = ti_expiration r \<and> ti_sequence l < ti_sequence r)"
  by (auto simp: ti_less_def derived_operators)

interpretation ti: comparison ti_less
  by unfold_locales (auto simp: ti_less_iff)

lemma ti_equivalent:
  "\<not> ti_less l r \<Longrightarrow> \<not> ti_less r l \<Longrightarrow>
    ti_expiration l = ti_expiration r \<and> ti_sequence l = ti_sequence r"
  by (auto simp: ti_less_iff)

section \<open>The timer queue\<close>

text \<open>
  Calls a callback makes on the queue.  \<open>OpCancel k\<close> cancels with the \<open>k\<close>-th index that
  \<^verbatim>\<open>AddTimer\<close> has returned to a user, or a default-constructed index.
\<close>

datatype 'cb tq_op = OpAdd 'cb Timestamp real | OpCancel nat

text \<open>Tasks posted to the loop from other threads.\<close>

datatype tq_task = TaskAdd nat | TaskCancel TimerIndex

text \<open>
  \<open>armed\<close> is the last value handed to \<^verbatim>\<open>timerfd_settime\<close>, \<open>ticks\<close> the number of clock
  readings so far, \<open>posted\<close> the tasks waiting in the loop, \<open>returning\<close> the calls of
  \<^verbatim>\<open>AddTimer\<close> in other threads that have posted their task but not yet returned.  \<open>issued\<close>
  and \<open>ran\<close> record the indices returned and the callbacks run.
\<close>

record 'cb TimerQueue =
  timers :: "TimerIndex list"
  heap :: "nat \<Rightarrow> 'cb Timer option"
  nextAddr :: nat
  timerCount :: int
  armed :: "timespec option"
  ticks :: nat
  posted :: "tq_task list"
  returning :: "(nat \<times> Timestamp) list"
  issued :: "TimerIndex list"
  ran :: "(int \<times> 'cb) list"

record 'cb tq_env =
  clock :: "nat \<Rightarrow> Timestamp"
  rounding :: "real \<Rightarrow> real"
  garbage :: Timestamp
  script :: "'cb \<Rightarrow> 'cb TimerQueue \<Rightarrow> 'cb tq_op list"

definition TimerQueue_new :: "'cb TimerQueue" where
  "TimerQueue_new =
     \<lparr>timers = [], heap = (\<lambda>p. None), nextAddr = 0, timerCount = 0, armed = None, ticks = 0,
      posted = [], returning = [], issued = [], ran = []\<rparr>"

definition readNow :: "'cb tq_env \<Rightarrow> 'cb TimerQueue \<Rightarrow> Timestamp \<times> 'cb TimerQueue" where
  "readNow env s = (clock env (ticks s), s\<lparr>ticks := Suc (ticks s)\<rparr>)"

text \<open>\<^verbatim>\<open>details::UpdateTimerfd\<close>: the clock is read again for the difference.\<close>

definition UpdateTimerfd :: "'cb tq_env \<Rightarrow> Timestamp \<Rightarrow> 'cb TimerQueue \<Rightarrow> 'cb TimerQueue res" where
  "UpdateTimerfd env expiration s =
     (let (now, s1) = readNow env s in
      if ts_less now expiration then
        let (now2, s2) = readNow env s1 in
        rbind (TimeDifference expiration now2) (\<lambda>v. Inr (s2\<lparr>armed := Some v\<rparr>))
      else Inr (s1\<lparr>armed := Some \<lparr>tv_sec = 0, tv_nsec = 1000\<rparr>\<rparr>))"

text \<open>
  \<^verbatim>\<open>AddTimerInLoop\<close> evaluates \<^verbatim>\<open>timers_.begin()->Expiration()\<close> before it asks whether the
  set is empty.  On an empty set the language leaves that read undefined; the value an
  implementation reads there is \<open>garbage env\<close>.
\<close>

definition AddTimerInLoop :: "'cb tq_env \<Rightarrow> nat \<Rightarrow> 'cb TimerQueue \<Rightarrow> 'cb TimerQueue res" where
  "AddTimerInLoop env p s =
     (case heap s p of
        None \<Rightarrow> Inl Undefined
      | Some t \<Rightarrow>
          let toAdd = \<lparr>ti_timer = Some p, ti_expiration = texpiration t, ti_sequence = tsequence t\<rparr>;
              beginExpiration =
                (case timers s of [] \<Rightarrow> garbage env | ti # tis \<Rightarrow> ti_expiration ti)
          in rbind
               (if ts_less (ti_expiration toAdd) beginExpiration \<or> timers s = []
                then UpdateTimerfd env (ti_expiration toAdd) s else Inr s)
               (\<lambda>s1. let ret = set_insert ti_less toAdd (timers s1) in
                 ensure (snd ret) (Inr (s1\<lparr>timers := fst ret\<rparr>))))"

definition delete_timer :: "nat option \<Rightarrow> 'cb TimerQueue \<Rightarrow> 'cb TimerQueue res" where
  "delete_timer ptr s =
     (case ptr of
        None \<Rightarrow> Inr s
      | Some p \<Rightarrow> require (heap s p \<noteq> None) (Inr (s\<lparr>heap := (heap s)(p := None)\<rparr>)))"

definition CancelTimerInLoop :: "TimerIndex \<Rightarrow> 'cb TimerQueue \<Rightarrow> 'cb TimerQueue res" where
  "CancelTimerInLoop ti s =
     (if set_find ti_less ti (timers s) \<noteq> None then
        delete_timer (ti_timer ti) (s\<lparr>timers := set_erase ti_less ti (timers s)\<rparr>)
      else Inr s)"

text \<open>\<^verbatim>\<open>new Timer(cb, when, interval)\<close>: a fresh address and the next sequence number.\<close>

definition new_timer :: "'cb \<Rightarrow> Timestamp \<Rightarrow> real \<Rightarrow> 'cb TimerQueue \<Rightarrow> nat \<times> 'cb TimerQueue" where
  "new_timer cb when interval s =
     (let p = nextAddr s; seq = IncrementAndGet64 (timerCount s) in
      (p, s\<lparr>heap := (heap s)(p := Some (Timer_new cb when interval seq)),
            nextAddr := Suc p, timerCount := seq\<rparr>))"

text \<open>The return statement of \<^verbatim>\<open>AddTimer\<close> dereferences the timer once more.\<close>

definition AddTimer_return :: "nat \<Rightarrow> Timestamp \<Rightarrow> 'cb TimerQueue \<Rightarrow> (TimerIndex \<times> 'cb TimerQueue) res" where
  "AddTimer_return p when s =
     (case heap s p of
        None \<Rightarrow> Inl Undefined
      | Some t \<Rightarrow>
          let ti = \<lparr>ti_timer = Some p, ti_expiration = when, ti_sequence = tsequence t\<rparr> in
          Inr (ti, s\<lparr>issued := issued s @ [ti]\<rparr>))"

text \<open>\<^verbatim>\<open>AddTimer\<close> in the loop thread, where \<^verbatim>\<open>RunInLoop\<close> calls at once.\<close>

definition AddTimer :: "'cb tq_env \<Rightarrow> 'cb \<Rightarrow> Timestamp \<Rightarrow> real \<Rightarrow> 'cb TimerQueue \<Rightarrow>
    (TimerIndex \<times> 'cb TimerQueue) res" where
  "AddTimer env cb when interval s =
     (let (p, s1) = new_timer cb when interval s in
      rbind (AddTimerInLoop env p s1) (AddTimer_return p when))"

text \<open>\<^verbatim>\<open>AddTimer\<close> in another thread: the task is posted; the return comes later.\<close>

definition AddTimer_post :: "'cb \<Rightarrow> Timestamp \<Rightarrow> real \<Rightarrow> 'cb TimerQueue \<Rightarrow> 'cb TimerQueue" where
  "AddTimer_post cb when interval s =
     (let (p, s1) = new_timer cb when interval s in
      s1\<lparr>posted := posted s1 @ [TaskAdd p], returning := returning s1 @ [(p, when)]\<rparr>)"

definition AddTimer_finish :: "'cb TimerQueue \<Rightarrow> (TimerIndex \<times> 'cb TimerQueue) res" where
  "AddTimer_finish s =
     (case returning s of
        [] \<Rightarrow> Inr (TimerIndex_default, s)
      | (p, when) # rs \<Rightarrow> AddTimer_return p when (s\<lparr>returning := rs\<rparr>))"

definition CancelTimer :: "TimerIndex \<Rightarrow> 'cb TimerQueue \<Rightarrow> 'cb TimerQueue res" where
  "CancelTimer ti s = CancelTimerInLoop ti s"

definition EventLoop_CancelTimer :: "TimerIndex \<Rightarrow> 'cb TimerQueue \<Rightarrow> 'cb TimerQueue res" where
  "EventLoop_CancelTimer ti s = CancelTimer ti s"

definition CancelTimer_post :: "TimerIndex \<Rightarrow> 'cb TimerQueue \<Rightarrow> 'cb TimerQueue" where
  "CancelTimer_post ti s = s\<lparr>posted := posted s @ [TaskCancel ti]\<rparr>"

text \<open>The loop runs the oldest posted task.\<close>

definition run_posted :: "'cb tq_env \<Rightarrow> 'cb TimerQueue \<Rightarrow> 'cb TimerQueue res" where
  "run_posted env s =
     (case posted s of
        [] \<Rightarrow> Inr s
      | TaskAdd p # ts \<Rightarrow> AddTimerInLoop env p (s\<lparr>posted := ts\<rparr>)
      | TaskCancel ti # ts \<Rightarrow> CancelTimerInLoop ti (s\<lparr>posted := ts\<rparr>))"

definition run_op :: "'cb tq_env \<Rightarrow> 'cb tq_op \<Rightarrow> 'cb TimerQueue \<Rightarrow> 'cb TimerQueue res" where
  "run_op env op s =
     (case op of
        OpAdd cb when interval \<Rightarrow>
          rbind (AddTimer env cb when interval s) (\<lambda>(ti, s1). Inr s1)
      | OpCancel k \<Rightarrow>
          CancelTimer (if k < length (issued s) then issued s ! k else TimerIndex_default) s)"

definition run_callback :: "'cb tq_env \<Rightarrow> int \<Rightarrow> 'cb \<Rightarrow> 'cb TimerQueue \<Rightarrow> 'cb TimerQueue res" where
  "run_callback env seq cb s =
     (let s1 = s\<lparr>ran := ran s @ [(seq, cb)]\<rparr> in rfold (run_op env) (script env cb s1) s1)"

definition INT64_MAX :: int where "INT64_MAX = 2 ^ 63 - 1"

definition GetExpired :: "Timestamp \<Rightarrow> 'cb TimerQueue \<Rightarrow> TimerIndex list \<times> 'cb TimerQueue" where
  "GetExpired now s =
     (let sentry = \<lparr>ti_timer = None, ti_expiration = now, ti_sequence = INT64_MAX\<rparr>;
          (expired, rest) = set_lower ti_less sentry (timers s)
      in (expired, s\<lparr>timers := rest\<rparr>))"

text \<open>The body of the loop in \<^verbatim>\<open>HandleRead\<close>.\<close>

definition fire :: "'cb tq_env \<Rightarrow> Timestamp \<Rightarrow> TimerIndex \<Rightarrow> 'cb TimerQueue \<Rightarrow> 'cb TimerQueue res" where
  "fire env now ti s =
     (case ti_timer ti of
        None \<Rightarrow> Inl Undefined
      | Some p \<Rightarrow>
         (case heap s p of
            None \<Rightarrow> Inl Undefined
          | Some t \<Rightarrow>
              rbind (run_callback env (tsequence t) (tcallback t) s) (\<lambda>s1.
                case heap s1 p of
                  None \<Rightarrow> Inl Undefined
                | Some t1 \<Rightarrow>
                    if trepeated t1 then
                      rbind (Timer_Restart (rounding env) now t1) (\<lambda>t2.
                        AddTimerInLoop env p (s1\<lparr>heap := (heap s1)(p := Some t2)\<rparr>))
                    else delete_timer (Some p) s1)))"

definition HandleRead :: "'cb tq_env \<Rightarrow> 'cb TimerQueue \<Rightarrow> 'cb TimerQueue res" where
  "HandleRead env s =
     (let (now, s1) = readNow env s;
          (expired, s2) = GetExpired now s1
      in rbind (rfold (fire env now) expired s2) (\<lambda>s3.
           case timers s3 of
             [] \<Rightarrow> Inr s3
           | ti # tis \<Rightarrow> UpdateTimerfd env (ti_expiration ti) s3))"

text \<open>The destructor deletes the timers left in the queue.\<close>

definition TimerQueue_destroy :: "'cb TimerQueue \<Rightarrow> 'cb TimerQueue res" where
  "TimerQueue_destroy s = rfold (\<lambda>ti. delete_timer (ti_timer ti)) (timers s) s"

section \<open>The invariant\<close>

text \<open>
  Bounds that keep \<open>int64_t\<close> arithmetic in range: clock readings below \<open>2 ^ 61\<close>
  microseconds (over 70000 years), expirations below \<open>2 ^ 62\<close>, intervals below \<open>2 ^ 61\<close>.
  \<open>K\<close> bounds the number of calls a callback makes.
\<close>

definition ts_ok :: "Timestamp \<Rightarrow> bool" where
  "ts_ok t \<longleftrightarrow> 0 \<le> MicrosecondsSinceEpoch t \<and> MicrosecondsSinceEpoch t < 2 ^ 62"

definition interval_ok :: "(real \<Rightarrow> real) \<Rightarrow> real \<Rightarrow> bool" where
  "interval_ok fl i \<longleftrightarrow> (0 < i \<longrightarrow> fl (i * 1000000) < 2 ^ 61)"

fun op_ok :: "(real \<Rightarrow> real) \<Rightarrow> 'cb tq_op \<Rightarrow> bool" where
  "op_ok fl (OpAdd cb when i) \<longleftrightarrow> ts_ok when \<and> interval_ok fl i"
| "op_ok fl (OpCancel k) \<longleftrightarrow> True"

definition clock_ok :: "'cb tq_env \<Rightarrow> bool" where
  "clock_ok env \<longleftrightarrow> (\<forall>i. 0 \<le> MicrosecondsSinceEpoch (clock env i) \<and>
     MicrosecondsSinceEpoch (clock env i) < 2 ^ 61)"

definition env_ok :: "nat \<Rightarrow> 'cb tq_env \<Rightarrow> bool" where
  "env_ok K env \<longleftrightarrow> double_rounding (rounding env) \<and> clock_ok env \<and>
     (\<forall>cb s. length (script env cb s) \<le> K \<and> (\<forall>op \<in> set (script env cb s). op_ok (rounding env) op))"

definition timer_ok :: "(real \<Rightarrow> real) \<Rightarrow> 'cb Timer \<Rightarrow> bool" where
  "timer_ok fl t \<longleftrightarrow> ts_ok (texpiration t) \<and> interval_ok fl (tinterval t) \<and>
     (trepeated t \<longrightarrow> 0 < tinterval t)"

definition idx :: "nat \<Rightarrow> 'cb Timer \<Rightarrow> TimerIndex" where
  "idx p t = \<lparr>ti_timer = Some p, ti_expiration = texpiration t, ti_sequence = tsequence t\<rparr>"

fun posted_adds :: "tq_task list \<Rightarrow> nat list" where
  "posted_adds [] = []"
| "posted_adds (TaskAdd p # ts) = p # posted_adds ts"
| "posted_adds (TaskCancel ti # ts) = posted_adds ts"

fun posted_cancels :: "tq_task list \<Rightarrow> TimerIndex list" where
  "posted_cancels [] = []"
| "posted_cancels (TaskAdd p # ts) = posted_cancels ts"
| "posted_cancels (TaskCancel ti # ts) = ti # posted_cancels ts"

text \<open>An index a user can hold: it names the timer with its sequence number, if that is alive.\<close>

definition genuine :: "'cb TimerQueue \<Rightarrow> TimerIndex \<Rightarrow> bool" where
  "genuine s ti \<longleftrightarrow> ti_sequence ti \<le> timerCount s \<and>
     (\<forall>q u. heap s q = Some u \<and> tsequence u = ti_sequence ti \<longrightarrow> ti_timer ti = Some q)"

definition heap_ok :: "(real \<Rightarrow> real) \<Rightarrow> 'cb TimerQueue \<Rightarrow> bool" where
  "heap_ok fl s \<longleftrightarrow> 0 \<le> timerCount s \<and> timerCount s < INT64_MAX \<and>
     (\<forall>p t. heap s p = Some t \<longrightarrow> p < nextAddr s \<and> 0 < tsequence t \<and>
        tsequence t \<le> timerCount s \<and> timer_ok fl t) \<and>
     (\<forall>p q t u. heap s p = Some t \<and> heap s q = Some u \<and> tsequence t = tsequence u \<longrightarrow> p = q)"

text \<open>
  The queue holds exactly one index for every timer that is alive and neither in flight (taken
  out by \<^verbatim>\<open>GetExpired\<close> and not yet re-added or deleted, the list \<open>fl\<close>) nor posted; so no
  timer is leaked, none is freed twice and none is used after it was freed.
\<close>

definition tq_inv :: "'cb tq_env \<Rightarrow> nat list \<Rightarrow> 'cb TimerQueue \<Rightarrow> bool" where
  "tq_inv env fl s \<longleftrightarrow> heap_ok (rounding env) s \<and> sorted_wrt ti_less (timers s) \<and>
     distinct (fl @ posted_adds (posted s)) \<and>
     set (fl @ posted_adds (posted s)) \<subseteq> dom (heap s) \<and>
     set (timers s) =
       {idx p t | p t. heap s p = Some t \<and> p \<notin> set (fl @ posted_adds (posted s))} \<and>
     (\<forall>ti \<in> set (issued s) \<union> set (posted_cancels (posted s)). genuine s ti)"

text \<open>What an operation inside the loop leaves alone.\<close>

definition tq_frame :: "nat list \<Rightarrow> nat \<Rightarrow> 'cb TimerQueue \<Rightarrow> 'cb TimerQueue \<Rightarrow> bool" where
  "tq_frame fl k s s' \<longleftrightarrow> (\<forall>q \<in> set fl. heap s' q = heap s q) \<and> posted s' = posted s \<and>
     timerCount s \<le> timerCount s' \<and> timerCount s' \<le> timerCount s + int k \<and> ran s' = ran s"

lemma tq_inv_new: "tq_inv env [] TimerQueue_new"
  by (simp add: tq_inv_def TimerQueue_new_def heap_ok_def INT64_MAX_def)

lemma idx_simps [simp]: "ti_timer (idx p t) = Some p" "ti_expiration (idx p t) = texpiration t"
  "ti_sequence (idx p t) = tsequence t"
  by (simp_all add: idx_def)

lemma heap_ok_cong:
  "heap s' = heap s \<Longrightarrow> nextAddr s' = nextAddr s \<Longrightarrow> timerCount s' = timerCount s \<Longrightarrow>
    heap_ok fl s' = heap_ok fl s"
  by (simp add: heap_ok_def)

lemma genuine_cong:
  "heap s' = heap s \<Longrightarrow> timerCount s' = timerCount s \<Longrightarrow> genuine s' ti = genuine s ti"
  by (simp add: genuine_def)

lemma genuine_default: "heap_ok fl s \<Longrightarrow> genuine s TimerIndex_default"
  by (fastforce simp: genuine_def heap_ok_def TimerIndex_default_def)

lemma genuine_idx: "heap_ok fl s \<Longrightarrow> heap s p = Some t \<Longrightarrow>
    genuine s \<lparr>ti_timer = Some p, ti_expiration = e, ti_sequence = tsequence t\<rparr>"
  by (auto simp: genuine_def heap_ok_def)

lemma sequence_inj:
  "heap_ok fl s \<Longrightarrow> heap s p = Some t \<Longrightarrow> heap s q = Some u \<Longrightarrow> tsequence t = tsequence u \<Longrightarrow> p = q"
  unfolding heap_ok_def by blast

text \<open>Taking a timer out of the set of those in flight adds its index.\<close>

lemma index_set_insert:
  assumes "h p = Some t" "p \<notin> X"
  shows "{idx q u | q u. h q = Some u \<and> q \<notin> X} =
    insert (idx p t) {idx q u | q u. h q = Some u \<and> q \<notin> insert p X}"
proof (rule equalityI; rule subsetI)
  fix x assume "x \<in> {idx q u | q u. h q = Some u \<and> q \<notin> X}"
  then obtain q u where "x = idx q u" "h q = Some u" "q \<notin> X" by blast
  then show "x \<in> insert (idx p t) {idx q u | q u. h q = Some u \<and> q \<notin> insert p X}"
    using assms(1) by (cases "q = p") auto
next
  fix x assume "x \<in> insert (idx p t) {idx q u | q u. h q = Some u \<and> q \<notin> insert p X}"
  then show "x \<in> {idx q u | q u. h q = Some u \<and> q \<notin> X}" using assms by blast
qed

section \<open>Operations keep the invariant\<close>

text \<open>Programming the timer descriptor changes nothing else and cannot fault.\<close>

lemma UpdateTimerfd_ok:
  assumes "clock_ok env" "ts_ok e"
  shows "\<exists>n v. UpdateTimerfd env e s = Inr (s\<lparr>ticks := n, armed := v\<rparr>)"
proof -
  let ?d = "MicrosecondsSinceEpoch e - MicrosecondsSinceEpoch (clock env (Suc (ticks s)))"
  have "0 \<le> MicrosecondsSinceEpoch (clock env (Suc (ticks s)))"
    "MicrosecondsSinceEpoch (clock env (Suc (ticks s))) < 2 ^ 61"
    using assms(1) by (auto simp: clock_ok_def)
  then have "i64_ok ?d" using assms(2) by (simp add: i64_ok_def ts_ok_def)
  then obtain ts where "TimeDifference e (clock env (Suc (ticks s))) = Inr ts"
    using TimeDifference_exact by blast
  then show ?thesis by (simp add: UpdateTimerfd_def readNow_def) metis
qed

lemma fresh_index:
  assumes inv: "tq_inv env fl s" and p: "heap s p = Some t" "p \<in> set (fl @ posted_adds (posted s))"
    and y: "y \<in> set (timers s)"
  shows "ti_less (idx p t) y \<or> ti_less y (idx p t)"
proof (rule ccontr)
  assume "\<not> ?thesis"
  then have "ti_sequence y = tsequence t" using ti_equivalent [of "idx p t" y] by auto
  moreover from inv y obtain q u where q: "heap s q = Some u" "y = idx q u"
    "q \<notin> set (fl @ posted_adds (posted s))" unfolding tq_inv_def by auto
  ultimately have "q = p" using sequence_inj [of "rounding env" s q u p t] inv p(1)
    by (simp add: tq_inv_def)
  with p(2) q(3) show False by simp
qed

lemma AddTimerInLoop_ok:
  assumes env: "clock_ok env" and inv: "tq_inv env (p # fl) s"
  shows "\<exists>n v xs. AddTimerInLoop env p s = Inr (s\<lparr>ticks := n, armed := v, timers := xs\<rparr>) \<and>
    tq_inv env fl (s\<lparr>ticks := n, armed := v, timers := xs\<rparr>)"
proof -
  from inv obtain t where t: "heap s p = Some t" unfolding tq_inv_def by auto
  have ok: "ts_ok (texpiration t)" using inv t by (auto simp: tq_inv_def heap_ok_def timer_ok_def)
  let ?c = "ts_less (texpiration t) (case timers s of [] \<Rightarrow> garbage env | ti # tis \<Rightarrow> ti_expiration ti)
    \<or> timers s = []"
  obtain n v where u: "(if ?c then UpdateTimerfd env (texpiration t) s else Inr s)
      = Inr (s\<lparr>ticks := n, armed := v\<rparr>)"
  proof (cases ?c)
    case True
    with UpdateTimerfd_ok [OF env ok, of s] that show ?thesis by auto
  next
    case False
    with that [where n = "ticks s" and v = "armed s"] show ?thesis by simp
  qed
  have srt: "sorted_wrt ti_less (timers s)" using inv by (simp add: tq_inv_def)
  have fresh: "\<And>y. y \<in> set (timers s) \<Longrightarrow> ti_less (idx p t) y \<or> ti_less y (idx p t)"
    using fresh_index [OF inv t] by simp
  note ins = ti.insert_new [OF srt fresh]
  let ?xs = "fst (set_insert ti_less (idx p t) (timers s))"
  let ?s = "s\<lparr>ticks := n, armed := v, timers := ?xs\<rparr>"
  have "AddTimerInLoop env p s = Inr ?s"
    by (simp add: t AddTimerInLoop_def idx_def [symmetric] Let_def u ins(1) cong: if_cong
        split del: if_split)
  moreover have "tq_inv env fl ?s"
  proof -
    have np: "p \<notin> set (fl @ posted_adds (posted s))" using inv by (simp add: tq_inv_def)
    have "set (timers s) = {idx q u | q u. heap s q = Some u \<and>
        q \<notin> insert p (set (fl @ posted_adds (posted s)))}" using inv by (simp add: tq_inv_def)
    moreover have "set ?xs = insert (idx p t) (set (timers s))" by (rule ins(3))
    ultimately have "set ?xs = {idx q u | q u. heap s q = Some u \<and> q \<notin> set (fl @ posted_adds (posted s))}"
      by (simp only: index_set_insert [where h = "heap s", OF t np])
    with inv ins(2) show ?thesis
      by (auto simp: tq_inv_def heap_ok_cong [of ?s s] genuine_cong [of ?s s])
  qed
  ultimately show ?thesis by blast
qed

lemma CancelTimerInLoop_ok:
  assumes inv: "tq_inv env fl s" and g: "genuine s ti"
  shows "\<exists>s'. CancelTimerInLoop ti s = Inr s' \<and> tq_inv env fl s' \<and> tq_frame fl 0 s s' \<and>
    issued s' = issued s"
proof (cases "set_find ti_less ti (timers s)")
  case None
  with inv show ?thesis by (auto simp: CancelTimerInLoop_def tq_frame_def)
next
  case (Some y)
  have srt: "sorted_wrt ti_less (timers s)" using inv by (simp add: tq_inv_def)
  from ti.find_Some [OF srt Some] have y: "y \<in> set (timers s)" "ti_expiration y = ti_expiration ti"
    "ti_sequence y = ti_sequence ti" using ti_equivalent [of ti y] by auto
  from inv y(1) obtain p t where p: "heap s p = Some t" "y = idx p t"
    "p \<notin> set (fl @ posted_adds (posted s))" unfolding tq_inv_def by auto
  have tp: "ti_timer ti = Some p" using g p y(3) by (auto simp: genuine_def)
  from ti.erase_found [OF srt Some] obtain as bs where e: "timers s = as @ y # bs"
    "set_erase ti_less ti (timers s) = as @ bs" "sorted_wrt ti_less (as @ bs)" by blast
  have ny: "y \<notin> set (as @ bs)"
    using srt e(1) ti.lt_irrefl by (auto simp: sorted_wrt_append)
  let ?s = "s\<lparr>timers := as @ bs, heap := (heap s)(p := None)\<rparr>"
  have "CancelTimerInLoop ti s = Inr ?s"
    using Some tp p e(2) by (simp add: CancelTimerInLoop_def delete_timer_def)
  moreover have "tq_inv env fl ?s"
  proof -
    have "set (as @ bs) = set (timers s) - {y}" using e(1) ny by auto
    also have "\<dots> = {idx q u | q u. ((heap s)(p := None)) q = Some u \<and>
        q \<notin> set (fl @ posted_adds (posted s))}"
    proof -
      have eq: "idx q u = y \<longleftrightarrow> q = p" if "heap s q = Some u" for q u
        using that p(1,2) by (auto simp: idx_def)
      have "set (timers s) = {idx q u | q u. heap s q = Some u \<and>
          q \<notin> set (fl @ posted_adds (posted s))}" using inv by (simp add: tq_inv_def)
      with eq show ?thesis by (auto split: if_splits)
    qed
    finally show ?thesis
      using inv e(3) p(3) unfolding tq_inv_def heap_ok_def genuine_def
      by (auto split: if_splits)
  qed
  moreover have "tq_frame fl 0 s ?s" using p(3) by (auto simp: tq_frame_def)
  ultimately show ?thesis by auto
qed

lemma new_timer_ok:
  assumes inv: "tq_inv env fl s" and "ts_ok when" "interval_ok (rounding env) i"
    and "timerCount s + 1 < INT64_MAX" and "new_timer cb when i s = (p, s')"
  shows "tq_inv env (p # fl) s' \<and> heap s' p = Some (Timer_new cb when i (timerCount s + 1)) \<and>
    tq_frame fl 1 s s' \<and> issued s' = issued s \<and> timerCount s' = timerCount s + 1 \<and>
    posted s' = posted s"
proof -
  have hp: "heap_ok (rounding env) s" using inv by (simp add: tq_inv_def)
  have c: "IncrementAndGet64 (timerCount s) = timerCount s + 1"
    using hp assms(4) by (simp add: IncrementAndGet64_def wrap64_def heap_ok_def INT64_MAX_def)
  let ?t = "Timer_new cb when i (timerCount s + 1)"
  have p: "p = nextAddr s" and s': "s' = s\<lparr>heap := (heap s)(p := Some ?t), nextAddr := Suc p,
      timerCount := timerCount s + 1\<rparr>"
    using assms(5) c by (auto simp: new_timer_def Let_def)
  have fresh: "heap s p = None"
    using hp p by (cases "heap s p") (auto simp: heap_ok_def)
  have tok: "timer_ok (rounding env) ?t"
    using assms(2,3) by (simp add: timer_ok_def Timer_new_def)
  have seq: "tsequence ?t = timerCount s + 1" by (simp add: Timer_new_def)
  have le: "heap s q = Some u \<Longrightarrow> q < nextAddr s \<and> 0 < tsequence u \<and> tsequence u \<le> timerCount s" for q u
    using hp by (auto simp: heap_ok_def)
  have h: "heap_ok (rounding env) s'"
    unfolding heap_ok_def s' using hp assms(4) tok seq p le sequence_inj [OF hp]
    by (auto simp: heap_ok_def dest: le)
  have np: "p \<notin> set (fl @ posted_adds (posted s))"
    using inv fresh by (auto simp: tq_inv_def)
  have "(heap s' q = Some u \<and> q \<notin> set ((p # fl) @ posted_adds (posted s'))) \<longleftrightarrow>
      (heap s q = Some u \<and> q \<notin> set (fl @ posted_adds (posted s)))" for q u
    using fresh by (auto simp: s')
  then have "set (timers s) = {idx q u | q u. heap s' q = Some u \<and>
      q \<notin> set ((p # fl) @ posted_adds (posted s'))}"
    using inv by (simp only: tq_inv_def)
  moreover have "genuine s' ti" if "genuine s ti" for ti
    using that seq by (auto simp: genuine_def s' split: if_splits)
  ultimately have "tq_inv env (p # fl) s'"
    using inv h np unfolding tq_inv_def s' by auto
  then show ?thesis
    using np by (auto simp: s' tq_frame_def)
qed

lemma tq_frame_trans:
  "tq_frame fl j s t \<Longrightarrow> tq_frame fl k t u \<Longrightarrow> tq_frame fl (j + k) s u"
  by (simp add: tq_frame_def)

lemma tq_frame_Cons: "tq_frame (p # fl) k s t \<Longrightarrow> tq_frame fl k s t"
  by (simp add: tq_frame_def)

lemma AddTimer_ok:
  assumes env: "clock_ok env" and inv: "tq_inv env fl s" and "ts_ok when" "interval_ok (rounding env) i"
    and "timerCount s + 1 < INT64_MAX"
  shows "\<exists>ti s'. AddTimer env cb when i s = Inr (ti, s') \<and> tq_inv env fl s' \<and> tq_frame fl 1 s s'"
proof -
  obtain p s1 where n: "new_timer cb when i s = (p, s1)" by (cases "new_timer cb when i s")
  note n1 = new_timer_ok [OF inv assms(3-5) n]
  let ?t = "Timer_new cb when i (timerCount s + 1)"
  let ?ti = "\<lparr>ti_timer = Some p, ti_expiration = when, ti_sequence = tsequence ?t\<rparr>"
  from AddTimerInLoop_ok [OF env, of p fl s1] n1 obtain m v xs where
    a: "AddTimerInLoop env p s1 = Inr (s1\<lparr>ticks := m, armed := v, timers := xs\<rparr>)"
    "tq_inv env fl (s1\<lparr>ticks := m, armed := v, timers := xs\<rparr>)" by blast
  let ?s2 = "s1\<lparr>ticks := m, armed := v, timers := xs\<rparr>"
  let ?s3 = "?s2\<lparr>issued := issued ?s2 @ [?ti]\<rparr>"
  have h: "heap ?s2 p = Some ?t" using n1 by simp
  have "heap_ok (rounding env) ?s2" using a(2) by (simp add: tq_inv_def)
  then have g: "genuine ?s2 ?ti" using h by (rule genuine_idx)
  have e: "heap ?s3 = heap ?s2" "nextAddr ?s3 = nextAddr ?s2" "timerCount ?s3 = timerCount ?s2" by simp_all
  have "AddTimer env cb when i s = Inr (?ti, ?s3)"
    using h by (simp add: AddTimer_def n a(1) AddTimer_return_def Let_def)
  moreover have "tq_inv env fl ?s3"
    using a(2) g unfolding tq_inv_def heap_ok_cong [OF e] genuine_cong [OF e(1,3)] by auto
  moreover have "tq_frame fl 1 s ?s3" using n1 by (simp add: tq_frame_def)
  ultimately show ?thesis by blast
qed

lemma AddTimer_cancel:
  assumes env: "clock_ok env" and inv: "tq_inv env [] s" and "ts_ok w" "interval_ok (rounding env) i"
    and "timerCount s + 1 < INT64_MAX"
  shows "\<exists>ti s1 s2. AddTimer env cb w i s = Inr (ti, s1) \<and> ti \<in> set (timers s1) \<and>
    CancelTimer ti s1 = Inr s2 \<and> set (timers s2) = set (timers s) \<and> heap s2 = heap s"
proof -
  obtain p s1 where n: "new_timer cb w i s = (p, s1)" by (cases "new_timer cb w i s")
  note n1 = new_timer_ok [OF inv assms(3-5) n]
  let ?t = "Timer_new cb w i (timerCount s + 1)"
  have p: "p = nextAddr s" using n by (simp add: new_timer_def Let_def)
  have fresh: "heap s p = None"
    using inv p by (cases "heap s p") (auto simp: tq_inv_def heap_ok_def)
  have h1: "heap s1 = (heap s)(p := Some ?t)"
    using n n1 by (auto simp: new_timer_def Let_def)
  from AddTimerInLoop_ok [OF env, of p "[]" s1] n1 obtain m v xs where
    a: "AddTimerInLoop env p s1 = Inr (s1\<lparr>ticks := m, armed := v, timers := xs\<rparr>)" by blast
  obtain ti s2 where s2: "AddTimer env cb w i s = Inr (ti, s2)" "tq_inv env [] s2"
    using AddTimer_ok [OF env inv assms(3-5)] by blast
  then have ti: "ti = idx p ?t" "heap s2 = heap s1" "posted s2 = posted s1" "ti \<in> set (issued s2)"
    using n1 by (auto simp: AddTimer_def n a AddTimer_return_def Let_def idx_def Timer_new_def)
  have "p \<notin> set (posted_adds (posted s))" using inv fresh by (auto simp: tq_inv_def)
  then have mem: "ti \<in> set (timers s2)" using s2(2) ti h1 n1 by (auto simp: tq_inv_def)
  have srt: "sorted_wrt ti_less (timers s2)" using s2(2) by (simp add: tq_inv_def)
  have found: "set_find ti_less ti (timers s2) \<noteq> None"
    using ti.find_None [OF srt _ mem] ti.lt_irrefl by blast
  have g: "genuine s2 ti" using s2(2) ti(4) by (simp add: tq_inv_def)
  obtain s3 where s3: "CancelTimerInLoop ti s2 = Inr s3" "tq_inv env [] s3" "tq_frame [] 0 s2 s3"
    using CancelTimerInLoop_ok [OF s2(2) g] by blast
  have "heap s3 = (heap s2)(p := None)"
    using s3(1) found ti(1,2) h1 by (auto simp: CancelTimerInLoop_def delete_timer_def)
  then have h3: "heap s3 = heap s" using ti(2) h1 fresh by auto
  have "posted s3 = posted s" using s3(3) ti(3) n1 by (simp add: tq_frame_def)
  then have "set (timers s3) = set (timers s)" using h3 inv s3(2) by (simp add: tq_inv_def)
  with s2(1) mem s3(1) h3 show ?thesis by (auto simp: CancelTimer_def)
qed

text \<open>One call of a callback, a whole callback.\<close>

lemma run_op_ok:
  assumes env: "env_ok K env" and inv: "tq_inv env fl s" and op: "op_ok (rounding env) op"
    and "timerCount s + 1 < INT64_MAX"
  shows "\<exists>s'. run_op env op s = Inr s' \<and> tq_inv env fl s' \<and> tq_frame fl 1 s s'"
proof (cases op)
  case (OpAdd cb w i)
  have "clock_ok env" "ts_ok w" "interval_ok (rounding env) i"
    using env op OpAdd by (simp_all add: env_ok_def)
  from AddTimer_ok [OF this(1) inv this(2,3) assms(4), of cb] show ?thesis
    by (auto simp: run_op_def OpAdd)
next
  case (OpCancel k)
  let ?ti = "if k < length (issued s) then issued s ! k else TimerIndex_default"
  have "genuine s ?ti"
    using inv genuine_default [of "rounding env" s] by (auto simp: tq_inv_def)
  from CancelTimerInLoop_ok [OF inv this] obtain s' where
    "CancelTimerInLoop ?ti s = Inr s'" "tq_inv env fl s'" "tq_frame fl 0 s s'" by blast
  then show ?thesis by (auto simp: run_op_def OpCancel CancelTimer_def tq_frame_def)
qed

lemma run_ops_ok:
  assumes env: "env_ok K env"
  shows "tq_inv env fl s \<Longrightarrow> \<forall>op\<in>set ops. op_ok (rounding env) op \<Longrightarrow>
    timerCount s + int (length ops) < INT64_MAX \<Longrightarrow>
    \<exists>s'. rfold (run_op env) ops s = Inr s' \<and> tq_inv env fl s' \<and> tq_frame fl (length ops) s s'"
proof (induction ops arbitrary: s)
  case Nil
  then show ?case by (simp add: tq_frame_def)
next
  case (Cons op ops)
  from Cons.prems have "op_ok (rounding env) op" "timerCount s + 1 < INT64_MAX" by auto
  from run_op_ok [OF env Cons.prems(1) this] obtain t where
    t: "run_op env op s = Inr t" "tq_inv env fl t" "tq_frame fl 1 s t" by blast
  have "timerCount t + int (length ops) < INT64_MAX"
    using t(3) Cons.prems(3) by (simp add: tq_frame_def)
  with Cons.IH [OF t(2)] Cons.prems(2) obtain u where
    u: "rfold (run_op env) ops t = Inr u" "tq_inv env fl u" "tq_frame fl (length ops) t u" by auto
  with t show ?case using tq_frame_trans [OF t(3) u(3)] by simp
qed

lemma tq_inv_cong:
  assumes "tq_inv env fl s" "heap t = heap s" "nextAddr t = nextAddr s" "timerCount t = timerCount s"
    "timers t = timers s" "posted t = posted s" "issued t = issued s"
  shows "tq_inv env fl t"
  using assms by (simp add: tq_inv_def heap_ok_def genuine_def)

lemma run_callback_ok:
  assumes env: "env_ok K env" and inv: "tq_inv env fl s" and "timerCount s + int K < INT64_MAX"
  shows "\<exists>s'. run_callback env seq cb s = Inr s' \<and> tq_inv env fl s' \<and>
    tq_frame fl K (s\<lparr>ran := ran s @ [(seq, cb)]\<rparr>) s'"
proof -
  let ?s = "s\<lparr>ran := ran s @ [(seq, cb)]\<rparr>"
  let ?ops = "script env cb ?s"
  have o: "length ?ops \<le> K" "\<forall>op\<in>set ?ops. op_ok (rounding env) op"
    using env by (auto simp: env_ok_def)
  have inv': "tq_inv env fl ?s" by (rule tq_inv_cong [OF inv]) simp_all
  have b: "timerCount ?s + int (length ?ops) < INT64_MAX" using assms(3) o(1) by simp
  from run_ops_ok [OF env inv' o(2) b] obtain s' where
    "rfold (run_op env) ?ops ?s = Inr s'" "tq_inv env fl s'" "tq_frame fl (length ?ops) ?s s'"
    by blast
  then show ?thesis using o(1) by (auto simp: run_callback_def Let_def tq_frame_def)
qed

text \<open>The two ways a timer leaves the set of those in flight.\<close>

lemma delete_ok:
  assumes inv: "tq_inv env (p # fl) s"
  shows "\<exists>s'. delete_timer (Some p) s = Inr s' \<and> tq_inv env fl s' \<and> tq_frame fl 0 s s'"
proof -
  let ?s = "s\<lparr>heap := (heap s)(p := None)\<rparr>"
  have p: "heap s p \<noteq> None" "p \<notin> set (fl @ posted_adds (posted s))"
    using inv by (auto simp: tq_inv_def)
  have hp: "heap_ok (rounding env) s" using inv by (simp add: tq_inv_def)
  have "heap_ok (rounding env) ?s" using hp by (auto simp: heap_ok_def)
  moreover have "(heap ?s q = Some u \<and> q \<notin> set (fl @ posted_adds (posted ?s))) \<longleftrightarrow>
      (heap s q = Some u \<and> q \<notin> set ((p # fl) @ posted_adds (posted s)))" for q u
    using p by auto
  then have "set (timers ?s) = {idx q u | q u. heap ?s q = Some u \<and>
      q \<notin> set (fl @ posted_adds (posted ?s))}" using inv by (simp only: tq_inv_def) simp
  moreover have "set (fl @ posted_adds (posted ?s)) \<subseteq> dom (heap ?s)"
    using inv p(2) by (auto simp: tq_inv_def)
  moreover have "genuine ?s ti" if "genuine s ti" for ti using that by (auto simp: genuine_def)
  ultimately have "tq_inv env fl ?s" using inv unfolding tq_inv_def by simp
  then show ?thesis using p by (auto simp: delete_timer_def tq_frame_def)
qed

lemma reexpire_ok:
  assumes inv: "tq_inv env (p # fl) s" and t: "heap s p = Some t" and e: "ts_ok e"
  shows "tq_inv env (p # fl) (s\<lparr>heap := (heap s)(p := Some (t\<lparr>texpiration := e\<rparr>))\<rparr>)"
proof -
  let ?s = "s\<lparr>heap := (heap s)(p := Some (t\<lparr>texpiration := e\<rparr>))\<rparr>"
  have hp: "heap_ok (rounding env) s" using inv by (simp add: tq_inv_def)
  have "heap_ok (rounding env) ?s"
    using hp t e sequence_inj [OF hp] by (auto simp: heap_ok_def timer_ok_def)
  moreover have "(heap ?s q = Some u \<and> q \<notin> set ((p # fl) @ posted_adds (posted ?s))) \<longleftrightarrow>
      (heap s q = Some u \<and> q \<notin> set ((p # fl) @ posted_adds (posted s)))" for q u
    by auto
  then have "set (timers ?s) = {idx q u | q u. heap ?s q = Some u \<and>
      q \<notin> set ((p # fl) @ posted_adds (posted ?s))}" using inv by (simp only: tq_inv_def) simp
  moreover have "genuine ?s ti" if "genuine s ti" for ti
    using that t by (auto simp: genuine_def)
  ultimately show ?thesis using inv unfolding tq_inv_def by auto
qed

lemma fire_ok:
  assumes env: "env_ok K env" and inv: "tq_inv env (p # fl) s" and t: "heap s p = Some t"
    and b: "timerCount s + int K < INT64_MAX"
    and now: "0 \<le> MicrosecondsSinceEpoch now" "MicrosecondsSinceEpoch now < 2 ^ 61"
  shows "\<exists>s'. fire env now (idx p t) s = Inr s' \<and> tq_inv env fl s' \<and>
    tq_frame fl K (s\<lparr>ran := ran s @ [(tsequence t, tcallback t)]\<rparr>) s'"
proof -
  let ?r = "s\<lparr>ran := ran s @ [(tsequence t, tcallback t)]\<rparr>"
  from run_callback_ok [OF env inv b] obtain s1 where
    s1: "run_callback env (tsequence t) (tcallback t) s = Inr s1" "tq_inv env (p # fl) s1"
    "tq_frame (p # fl) K ?r s1" by blast
  have t1: "heap s1 p = Some t" using s1(3) t by (simp add: tq_frame_def)
  have fr: "tq_frame fl K ?r s1" using s1(3) by (rule tq_frame_Cons)
  show ?thesis
  proof (cases "trepeated t")
    case False
    from delete_ok [OF s1(2)] obtain s2 where
      "delete_timer (Some p) s1 = Inr s2" "tq_inv env fl s2" "tq_frame fl 0 s1 s2" by blast
    then show ?thesis using False t t1 s1(1) tq_frame_trans [OF fr, of 0 s2]
      by (simp add: fire_def)
  next
    case True
    have tok: "timer_ok (rounding env) t" using s1(2) t1 by (auto simp: tq_inv_def heap_ok_def)
    have fl: "double_rounding (rounding env)" "clock_ok env" using env by (simp_all add: env_ok_def)
    from tok True have "0 < tinterval t" "rounding env (tinterval t * 1000000) < 2 ^ 61"
      by (auto simp: timer_ok_def interval_ok_def)
    from AddSeconds_range [OF fl(1) this now] obtain v where
      v: "AddSeconds (rounding env) now (tinterval t) = Inr (Timestamp v)" "ts_ok (Timestamp v)"
      using now by (auto simp: ts_ok_def)
    let ?s2 = "s1\<lparr>heap := (heap s1)(p := Some (t\<lparr>texpiration := Timestamp v\<rparr>))\<rparr>"
    from AddTimerInLoop_ok [OF fl(2) reexpire_ok [OF s1(2) t1 v(2)]] obtain n w xs where
      a: "AddTimerInLoop env p ?s2 = Inr (?s2\<lparr>ticks := n, armed := w, timers := xs\<rparr>)"
      "tq_inv env fl (?s2\<lparr>ticks := n, armed := w, timers := xs\<rparr>)" by blast
    have "p \<notin> set fl" using inv by (simp add: tq_inv_def)
    then have "tq_frame fl K ?r (?s2\<lparr>ticks := n, armed := w, timers := xs\<rparr>)"
      using fr by (auto simp: tq_frame_def)
    with a show ?thesis using True t t1 s1(1) v(1) by (simp add: fire_def Timer_Restart_def)
  qed
qed

text \<open>\<open>GetExpired\<close> splits the queue exactly at the given time.\<close>

definition expired_at :: "Timestamp \<Rightarrow> 'cb TimerQueue \<Rightarrow> TimerIndex list" where
  "expired_at now s = filter (\<lambda>ti. ti_expiration ti \<le> now) (timers s)"

lemma GetExpired_split:
  assumes inv: "tq_inv env fl s"
  shows "GetExpired now s = (expired_at now s,
    s\<lparr>timers := filter (\<lambda>ti. now < ti_expiration ti) (timers s)\<rparr>)"
proof -
  have srt: "sorted_wrt ti_less (timers s)" using inv by (simp add: tq_inv_def)
  have "\<And>ti. ti \<in> set (timers s) \<Longrightarrow> ti_sequence ti < INT64_MAX"
    using inv by (fastforce simp: tq_inv_def heap_ok_def)
  then have "\<And>ti. ti \<in> set (timers s) \<Longrightarrow>
      ti_less ti \<lparr>ti_timer = None, ti_expiration = now, ti_sequence = INT64_MAX\<rparr> \<longleftrightarrow>
      ti_expiration ti \<le> now"
    by (auto simp: ti_less_iff)
  then show ?thesis
    by (auto simp: GetExpired_def ti.lower_filter [OF srt] expired_at_def Let_def not_le
        cong: filter_cong)
qed

definition addr :: "TimerIndex \<Rightarrow> nat" where
  "addr ti = the (ti_timer ti)"

lemma addr_idx [simp]: "addr (idx p t) = p"
  by (simp add: addr_def)

text \<open>What running a timer records: its sequence number and its callback.\<close>

definition run_record :: "'cb TimerQueue \<Rightarrow> TimerIndex \<Rightarrow> int \<times> 'cb" where
  "run_record s ti = (ti_sequence ti, tcallback (the (heap s (addr ti))))"

lemma queued_timer:
  "tq_inv env fl s \<Longrightarrow> ti \<in> set (timers s) \<Longrightarrow>
    \<exists>p t. ti = idx p t \<and> heap s p = Some t \<and> p \<notin> set (fl @ posted_adds (posted s))"
  by (auto simp: tq_inv_def)

lemma distinct_addresses:
  assumes inv: "tq_inv env fl s"
  shows "distinct (map addr (timers s))"
proof -
  have "distinct (timers s)" using inv ti.sorted_distinct by (auto simp: tq_inv_def)
  moreover have "inj_on addr (set (timers s))"
  proof (rule inj_onI)
    fix x y assume "x \<in> set (timers s)" "y \<in> set (timers s)" "addr x = addr y"
    with queued_timer [OF inv, of x] queued_timer [OF inv, of y] show "x = y" by auto
  qed
  ultimately show ?thesis by (simp add: distinct_map)
qed

lemma delete_all:
  "distinct (map addr xs) \<Longrightarrow> set (map addr xs) = dom (heap s) \<Longrightarrow>
    \<forall>ti\<in>set xs. ti_timer ti \<noteq> None \<Longrightarrow>
    \<exists>s'. rfold (\<lambda>ti. delete_timer (ti_timer ti)) xs s = Inr s' \<and> heap s' = (\<lambda>p. None)"
proof (induction xs arbitrary: s)
  case Nil
  then show ?case by auto
next
  case (Cons ti xs)
  then obtain p where p: "ti_timer ti = Some p" "addr ti = p" by (auto simp: addr_def)
  let ?s = "s\<lparr>heap := (heap s)(p := None)\<rparr>"
  have "set (map addr xs) = dom (heap ?s)"
    using Cons.prems(1,2) p(2) by (auto simp: image_iff)
  from Cons.IH [OF _ this] Cons.prems(1,3) obtain s' where
    "rfold (\<lambda>ti. delete_timer (ti_timer ti)) xs ?s = Inr s'" "heap s' = (\<lambda>p. None)" by auto
  moreover have "p \<in> dom (heap s)" using Cons.prems(2) p(2) by auto
  then have "delete_timer (ti_timer ti) s = Inr ?s" using p(1) by (auto simp: delete_timer_def)
  ultimately show ?case by auto
qed

lemma GetExpired_ok:
  assumes inv: "tq_inv env [] s" and g: "GetExpired now s = (xs, s')"
  shows "tq_inv env (map addr xs) s'"
proof -
  have xs: "xs = expired_at now s"
    and s': "s' = s\<lparr>timers := filter (\<lambda>ti. now < ti_expiration ti) (timers s)\<rparr>"
    using g GetExpired_split [OF inv, of now] by auto
  have srt: "sorted_wrt ti_less (timers s)" using inv by (simp add: tq_inv_def)
  have d: "distinct (timers s)" and inj: "inj_on addr (set (timers s))"
    using distinct_addresses [OF inv] by (auto simp: distinct_map)
  have sub: "set xs \<subseteq> set (timers s)" by (auto simp: xs expired_at_def)
  have dx: "distinct (map addr xs)"
    using d inj sub by (auto simp: xs expired_at_def distinct_map intro: inj_on_subset)
  have q: "\<And>ti. ti \<in> set xs \<Longrightarrow> addr ti \<in> dom (heap s) \<and> addr ti \<notin> set (posted_adds (posted s))"
  proof -
    fix ti assume "ti \<in> set xs"
    then obtain p t where "ti = idx p t" "heap s p = Some t" "p \<notin> set (posted_adds (posted s))"
      using queued_timer [OF inv, of ti] sub by auto
    then show "addr ti \<in> dom (heap s) \<and> addr ti \<notin> set (posted_adds (posted s))"
      by auto
  qed
  have "set (timers s') = {idx p t | p t. heap s p = Some t \<and>
      p \<notin> set (map addr xs @ posted_adds (posted s))}"
  proof (rule equalityI; rule subsetI)
    fix ti assume "ti \<in> set (timers s')"
    then have ti: "ti \<in> set (timers s)" "ti \<notin> set xs" by (auto simp: s' xs expired_at_def)
    have na: "addr ti \<notin> addr ` set xs" using inj_on_image_mem_iff [OF inj ti(1) sub] ti(2) by simp
    from queued_timer [OF inv ti(1)] obtain p t where "ti = idx p t" "heap s p = Some t"
      "p \<notin> set (posted_adds (posted s))" by auto
    with na show "ti \<in> {idx p t | p t. heap s p = Some t \<and>
      p \<notin> set (map addr xs @ posted_adds (posted s))}" by auto
  next
    fix ti assume "ti \<in> {idx p t | p t. heap s p = Some t \<and>
      p \<notin> set (map addr xs @ posted_adds (posted s))}"
    then obtain p t where p: "ti = idx p t" "heap s p = Some t" "p \<notin> addr ` set xs"
      "p \<notin> set (posted_adds (posted s))" by auto
    then have "ti \<in> set (timers s)" using inv by (auto simp: tq_inv_def)
    moreover have "ti \<notin> set xs" using p(1,3) by (metis addr_idx imageI)
    ultimately show "ti \<in> set (timers s')" by (auto simp: s' xs expired_at_def)
  qed
  moreover have "heap_ok (rounding env) s'" using inv by (simp add: s' tq_inv_def heap_ok_def)
  moreover have "\<And>ti. genuine s' ti = genuine s ti" by (simp add: s' genuine_def)
  moreover have "distinct (map addr xs @ posted_adds (posted s))"
    using inv dx q by (auto simp: tq_inv_def)
  moreover have "set (map addr xs @ posted_adds (posted s)) \<subseteq> dom (heap s)"
    using inv q by (auto simp: tq_inv_def)
  moreover have "sorted_wrt ti_less (timers s')" using srt by (simp add: s' sorted_wrt_filter)
  ultimately show ?thesis using inv unfolding tq_inv_def s' by simp
qed

lemma fire_all_ok:
  assumes env: "env_ok K env"
    and now: "0 \<le> MicrosecondsSinceEpoch now" "MicrosecondsSinceEpoch now < 2 ^ 61"
  shows "tq_inv env (map addr xs) s \<Longrightarrow>
    \<forall>ti\<in>set xs. \<exists>p t. ti = idx p t \<and> heap s p = Some t \<Longrightarrow>
    timerCount s + int (K * length xs) < INT64_MAX \<Longrightarrow>
    \<exists>s'. rfold (fire env now) xs s = Inr s' \<and> tq_inv env [] s' \<and> posted s' = posted s \<and>
      timerCount s \<le> timerCount s' \<and> timerCount s' \<le> timerCount s + int (K * length xs) \<and>
      ran s' = ran s @ map (run_record s) xs"
proof (induction xs arbitrary: s)
  case Nil
  then show ?case by simp
next
  case (Cons ti xs)
  from Cons.prems(2) obtain p t where t: "ti = idx p t" "heap s p = Some t" by auto
  have b: "timerCount s + int K < INT64_MAX"
  proof -
    have "int K \<le> int (K * length (ti # xs))" by (metis le_add1 length_Cons mult_Suc_right of_nat_mono)
    with Cons.prems(3) show ?thesis by linarith
  qed
  have "tq_inv env (p # map addr xs) s" using Cons.prems(1) t(1) by simp
  from fire_ok [OF env this t(2) b now] obtain s1 where
    s1: "fire env now (idx p t) s = Inr s1" "tq_inv env (map addr xs) s1"
    "tq_frame (map addr xs) K (s\<lparr>ran := ran s @ [(tsequence t, tcallback t)]\<rparr>) s1" by blast
  have same: "heap s1 (addr x) = heap s (addr x)" if "x \<in> set xs" for x
    using s1(3) that by (simp add: tq_frame_def)
  have "\<forall>ti\<in>set xs. \<exists>p t. ti = idx p t \<and> heap s1 p = Some t"
    using Cons.prems(2) same by (metis addr_idx list.set_intros(2))
  moreover have "timerCount s1 + int (K * length xs) < INT64_MAX"
    using s1(3) Cons.prems(3) by (simp add: tq_frame_def algebra_simps)
  ultimately obtain s2 where s2: "rfold (fire env now) xs s1 = Inr s2" "tq_inv env [] s2"
      "posted s2 = posted s1" "timerCount s1 \<le> timerCount s2"
      "timerCount s2 \<le> timerCount s1 + int (K * length xs)"
      "ran s2 = ran s1 @ map (run_record s1) xs"
    using Cons.IH [OF s1(2)] by blast
  have "map (run_record s1) xs = map (run_record s) xs" using same by (simp add: run_record_def)
  then have "ran s2 = ran s @ map (run_record s) (ti # xs)"
    using s1(3) s2(6) t by (simp add: tq_frame_def run_record_def)
  with s1 s2 t(1) show ?case by (auto simp: tq_frame_def algebra_simps)
qed

lemma clock_reading:
  "env_ok K env \<Longrightarrow> 0 \<le> MicrosecondsSinceEpoch (clock env i)"
  "env_ok K env \<Longrightarrow> MicrosecondsSinceEpoch (clock env i) < 2 ^ 61"
  by (simp_all add: env_ok_def clock_ok_def)

lemma HandleRead_ok:
  assumes env: "env_ok K env" and inv: "tq_inv env [] s"
    and b: "timerCount s + int (K * length (timers s)) < INT64_MAX"
  shows "\<exists>s'. HandleRead env s = Inr s' \<and> tq_inv env [] s' \<and> posted s' = posted s \<and>
    timerCount s \<le> timerCount s' \<and>
    timerCount s' \<le> timerCount s + int (K * length (expired_at (clock env (ticks s)) s)) \<and>
    ran s' = ran s @ map (run_record s) (expired_at (clock env (ticks s)) s)"
proof -
  let ?now = "clock env (ticks s)" and ?s = "s\<lparr>ticks := Suc (ticks s)\<rparr>"
  have inv1: "tq_inv env [] ?s" by (rule tq_inv_cong [OF inv]) simp_all
  let ?xs = "expired_at ?now s"
  obtain s1 where g: "GetExpired ?now ?s = (?xs, s1)" and s1: "heap s1 = heap s"
    "timerCount s1 = timerCount s" "ran s1 = ran s" "posted s1 = posted s"
    using GetExpired_split [OF inv1, of ?now] by (simp add: expired_at_def)
  have "length ?xs \<le> length (timers s)" by (simp add: expired_at_def)
  then have "K * length ?xs \<le> K * length (timers s)" by (rule mult_le_mono2)
  then have b1: "timerCount s1 + int (K * length ?xs) < INT64_MAX" using b s1(2) by linarith
  have q: "\<forall>ti\<in>set ?xs. \<exists>p t. ti = idx p t \<and> heap s1 p = Some t"
  proof
    fix ti assume "ti \<in> set ?xs"
    then have "ti \<in> set (timers s)" by (simp add: expired_at_def)
    from queued_timer [OF inv this] s1(1) show "\<exists>p t. ti = idx p t \<and> heap s1 p = Some t" by metis
  qed
  from fire_all_ok [OF env clock_reading [OF env] GetExpired_ok [OF inv1 g] q b1] obtain s2 where
    s2: "rfold (fire env ?now) ?xs s1 = Inr s2" "tq_inv env [] s2" "posted s2 = posted s1"
      "timerCount s1 \<le> timerCount s2" "timerCount s2 \<le> timerCount s1 + int (K * length ?xs)"
      "ran s2 = ran s1 @ map (run_record s1) ?xs" by blast
  have rr: "run_record s1 = run_record s" using s1(1) by (simp add: run_record_def fun_eq_iff)
  show ?thesis
  proof (cases "timers s2")
    case Nil
    then show ?thesis using s1 s2 g rr by (simp add: HandleRead_def readNow_def)
  next
    case (Cons ti tis)
    then obtain p t where t: "ti = idx p t" "heap s2 p = Some t"
      using queued_timer [OF s2(2), of ti] by auto
    then have "ts_ok (ti_expiration ti)"
      using s2(2) by (auto simp: heap_ok_def timer_ok_def tq_inv_def)
    then obtain n v where u: "UpdateTimerfd env (ti_expiration ti) s2 = Inr (s2\<lparr>ticks := n, armed := v\<rparr>)"
      using UpdateTimerfd_ok env by (metis env_ok_def)
    have "tq_inv env [] (s2\<lparr>ticks := n, armed := v\<rparr>)" by (rule tq_inv_cong [OF s2(2)]) simp_all
    then show ?thesis using s1 s2 g rr u Cons by (simp add: HandleRead_def readNow_def)
  qed
qed

section \<open>Reachable queues\<close>

text \<open>
  The steps of the queue: calls in the loop thread, calls of other threads (which post a task and
  return later), the loop running a posted task, and the timer descriptor becoming readable.
\<close>

inductive tq_step :: "nat \<Rightarrow> 'cb tq_env \<Rightarrow> 'cb TimerQueue \<Rightarrow> 'cb TimerQueue \<Rightarrow> bool"
  for K :: nat and env :: "'cb tq_env" where
  step_add: "\<lbrakk>ts_ok w; interval_ok (rounding env) i; timerCount s + 1 < INT64_MAX;
    AddTimer env cb w i s = Inr (ti, s')\<rbrakk> \<Longrightarrow> tq_step K env s s'"
| step_cancel: "\<lbrakk>ti \<in> insert TimerIndex_default (set (issued s)); CancelTimer ti s = Inr s'\<rbrakk> \<Longrightarrow>
    tq_step K env s s'"
| step_post_add: "\<lbrakk>ts_ok w; interval_ok (rounding env) i; timerCount s + 1 < INT64_MAX\<rbrakk> \<Longrightarrow>
    tq_step K env s (AddTimer_post cb w i s)"
| step_post_cancel: "ti \<in> insert TimerIndex_default (set (issued s)) \<Longrightarrow>
    tq_step K env s (CancelTimer_post ti s)"
| step_finish: "AddTimer_finish s = Inr (ti, s') \<Longrightarrow> tq_step K env s s'"
| step_posted: "run_posted env s = Inr s' \<Longrightarrow> tq_step K env s s'"
| step_expire: "\<lbrakk>timerCount s + int (K * length (timers s)) < INT64_MAX; HandleRead env s = Inr s'\<rbrakk> \<Longrightarrow>
    tq_step K env s s'"

lemma genuine_index:
  "tq_inv env fl s \<Longrightarrow> ti \<in> insert TimerIndex_default (set (issued s)) \<Longrightarrow> genuine s ti"
  using genuine_default [of "rounding env" s] by (auto simp: tq_inv_def)

lemma posted_adds_append [simp]: "posted_adds (xs @ ys) = posted_adds xs @ posted_adds ys"
  by (induction xs rule: posted_adds.induct) auto

lemma posted_cancels_append [simp]: "posted_cancels (xs @ ys) = posted_cancels xs @ posted_cancels ys"
  by (induction xs rule: posted_cancels.induct) auto

text \<open>The last task posted may as well be in flight.\<close>

lemma tq_inv_post_add:
  assumes "tq_inv env (p # fl) s"
  shows "tq_inv env fl (s\<lparr>posted := posted s @ [TaskAdd p], returning := r\<rparr>)"
  using assms unfolding tq_inv_def heap_ok_def genuine_def by (simp add: insert_commute)

lemma tq_inv_take_add:
  assumes "tq_inv env fl s" "posted s = TaskAdd p # ts"
  shows "tq_inv env (p # fl) (s\<lparr>posted := ts\<rparr>)"
  using assms unfolding tq_inv_def heap_ok_def genuine_def by (auto simp: insert_commute)

lemma run_posted_ok:
  assumes env: "clock_ok env" and inv: "tq_inv env fl s"
  shows "\<exists>s'. run_posted env s = Inr s' \<and> tq_inv env fl s'"
proof (cases "posted s")
  case Nil
  then show ?thesis using inv by (simp add: run_posted_def)
next
  case (Cons task ts)
  show ?thesis
  proof (cases task)
    case (TaskAdd p)
    from tq_inv_take_add [OF inv] Cons TaskAdd have "tq_inv env (p # fl) (s\<lparr>posted := ts\<rparr>)" by simp
    from AddTimerInLoop_ok [OF env this] show ?thesis using Cons TaskAdd
      by (auto simp: run_posted_def)
  next
    case (TaskCancel ti)
    have "tq_inv env fl (s\<lparr>posted := ts\<rparr>)" "genuine (s\<lparr>posted := ts\<rparr>) ti"
      using inv Cons TaskCancel unfolding tq_inv_def heap_ok_def genuine_def by simp_all
    from CancelTimerInLoop_ok [OF this] show ?thesis using Cons TaskCancel
      by (auto simp: run_posted_def)
  qed
qed

lemma AddTimer_finish_ok:
  assumes inv: "tq_inv env fl s" and "AddTimer_finish s = Inr (ti, s')"
  shows "tq_inv env fl s'"
proof (cases "returning s")
  case Nil
  with assms show ?thesis by (simp add: AddTimer_finish_def)
next
  case (Cons r rs)
  obtain p w where r: "r = (p, w)" by (cases r)
  with Cons assms(2) obtain t where t: "heap s p = Some t"
    "ti = \<lparr>ti_timer = Some p, ti_expiration = w, ti_sequence = tsequence t\<rparr>"
    "s' = s\<lparr>returning := rs, issued := issued s @ [ti]\<rparr>"
    by (auto simp: AddTimer_finish_def AddTimer_return_def Let_def split: option.splits)
  have "genuine s ti"
    using inv genuine_idx [OF _ t(1)] by (auto simp: t(2) tq_inv_def)
  with inv show ?thesis
    unfolding t(3) tq_inv_def heap_ok_def genuine_def by auto
qed

lemma tq_step_inv:
  assumes "env_ok K env" "tq_inv env [] s" "tq_step K env s s'"
  shows "tq_inv env [] s'"
  using assms(3)
proof cases
  case (step_add w i cb ti)
  then show ?thesis using AddTimer_ok [OF _ assms(2), of w i cb] assms(1) by (auto simp: env_ok_def)
next
  case (step_cancel ti)
  from CancelTimerInLoop_ok [OF assms(2) genuine_index [OF assms(2) step_cancel(1)]] step_cancel(2)
  show ?thesis by (auto simp: CancelTimer_def)
next
  case (step_post_add w i cb)
  obtain p s1 where n: "new_timer cb w i s = (p, s1)" by (cases "new_timer cb w i s")
  from new_timer_ok [OF assms(2) step_post_add(2-4) n] show ?thesis
    using step_post_add
      tq_inv_post_add [of env p "[]" s1 "returning s1 @ [(p, w)]"]
    by (auto simp: AddTimer_post_def n)
next
  case (step_post_cancel ti)
  then have "genuine s ti" using genuine_index [OF assms(2)] by simp
  with assms(2) show ?thesis unfolding step_post_cancel CancelTimer_post_def tq_inv_def
    heap_ok_def genuine_def by auto
next
  case (step_finish ti)
  then show ?thesis using AddTimer_finish_ok assms(2) by blast
next
  case step_posted
  then show ?thesis using run_posted_ok [OF _ assms(2)] assms(1) by (auto simp: env_ok_def)
next
  case step_expire
  then show ?thesis using HandleRead_ok [OF assms(1,2)] by auto
qed

definition tq_init :: "nat \<Rightarrow> 'cb tq_env \<Rightarrow> 'cb TimerQueue \<Rightarrow> bool" where
  "tq_init K env s \<longleftrightarrow> env_ok K env \<and> s = TimerQueue_new"

interpretation tq: invariant "tq_init K env" "tq_step K env"
  "\<lambda>s. env_ok K env \<and> tq_inv env [] s" for K env
  by unfold_locales (auto simp: tq_init_def tq_inv_new intro: tq_step_inv)

section \<open>Properties\<close>

definition demo_env :: "nat tq_env" where
  "demo_env = \<lparr>clock = (\<lambda>i. Timestamp 5), rounding = (\<lambda>x. x), garbage = Timestamp 0,
     script = (\<lambda>cb s. [])\<rparr>"

lemma demo_env_ok: "env_ok 0 demo_env"
  by (simp add: env_ok_def demo_env_def double_rounding_id clock_ok_def)

lemmas timer_eval = demo_env_def TimerQueue_new_def AddTimer_def AddTimer_post_def new_timer_def
  Timer_new_def IncrementAndGet64_def wrap64_def AddTimerInLoop_def UpdateTimerfd_def readNow_def
  ts_less_def AddTimer_return_def set_insert_def set_find_def set_lower_def INT64_MAX_def
  AddTimer_finish_def run_posted_def HandleRead_def GetExpired_def fire_def run_callback_def
  delete_timer_def ti_less_iff expired_at_def run_record_def addr_def Let_def

lemma demo_init: "reach (tq_init 0 demo_env) (tq_step 0 demo_env) TimerQueue_new"
  by (rule reach_init) (simp add: tq_init_def demo_env_ok)

text \<open>A queue with one timer, due at time 1.\<close>

definition demo_one :: "nat TimerQueue" where
  "demo_one = (case AddTimer demo_env 7 (Timestamp 1) 0 TimerQueue_new of
     Inl e \<Rightarrow> TimerQueue_new | Inr (ti, s) \<Rightarrow> s)"

lemma demo_one_reach: "reach (tq_init 0 demo_env) (tq_step 0 demo_env) demo_one"
proof -
  obtain ti s where a: "AddTimer demo_env 7 (Timestamp 1) 0 TimerQueue_new = Inr (ti, s)"
    by (simp add: timer_eval)
  then have "tq_step 0 demo_env TimerQueue_new s"
    by (rule step_add [rotated 3]) (simp_all add: ts_ok_def interval_ok_def TimerQueue_new_def INT64_MAX_def)
  then show ?thesis using reach_step [OF demo_init] a by (simp add: demo_one_def)
qed





text \<open>
  C36. Programming the timer descriptor for an expiration time never faults, and the interval
  handed to the kernel is a positive, normalised time after which the timer is due, except when
  the expiration lies between the two readings of the clock that the function makes: exactly then
  the interval is not positive, which disarms the descriptor or is rejected.
\<close>

theorem UpdateTimerfd_arms:
  assumes "env_ok K env" and "ts_ok e"
  shows "\<exists>s' v. UpdateTimerfd env e s = Inr s' \<and> armed s' = Some v \<and>
    (timespec_normal v \<and> 0 < timespec_nanos v \<longleftrightarrow>
      \<not> (clock env (ticks s) < e \<and> e \<le> clock env (Suc (ticks s)))) \<and>
    (clock env (ticks s) < e \<longrightarrow> timespec_nanos v =
      (MicrosecondsSinceEpoch e - MicrosecondsSinceEpoch (clock env (Suc (ticks s)))) * 1000)"
proof (cases "clock env (ticks s) < e")
  case False
  then show ?thesis
    by (simp add: UpdateTimerfd_def readNow_def derived_operators timespec_normal_def timespec_nanos_def)
next
  case True
  let ?n = "clock env (Suc (ticks s))"
  have "i64_ok (MicrosecondsSinceEpoch e - MicrosecondsSinceEpoch ?n)"
    using clock_reading [OF assms(1), of "Suc (ticks s)"] assms(2) by (simp add: i64_ok_def ts_ok_def)
  from TimeDifference_exact [OF this] obtain v where v: "TimeDifference e ?n = Inr v"
    "timespec_nanos v = (MicrosecondsSinceEpoch e - MicrosecondsSinceEpoch ?n) * 1000"
    "?n \<le> e \<longrightarrow> timespec_normal v" by blast
  have "e \<le> ?n \<longleftrightarrow> MicrosecondsSinceEpoch e \<le> MicrosecondsSinceEpoch ?n" by (cases e; cases ?n) simp
  then have "timespec_normal v \<and> 0 < timespec_nanos v \<longleftrightarrow> \<not> e \<le> ?n"
    using v(2,3) by auto
  with v True show ?thesis by (simp add: UpdateTimerfd_def readNow_def derived_operators)
qed

theorem UpdateTimerfd_arms_witness:
  "\<exists>s'. UpdateTimerfd demo_env (Timestamp 8) demo_one = Inr s' \<and>
    armed s' = Some \<lparr>tv_sec = 0, tv_nsec = 3000\<rparr>"
  using UpdateTimerfd_arms [OF demo_env_ok, of "Timestamp 8" demo_one]
  by (simp add: ts_ok_def timer_eval demo_one_def TimeDifference_def time_consts cdiv_def cmod_def
      i64_def i64_ok_def)

text \<open>
  Adding a timer in the loop thread and cancelling it with the index returned, before it
  fires, restores the set of timers and the heap; neither call faults.
\<close>

theorem AddTimer_CancelTimer_restores:
  assumes "reach (tq_init K env) (tq_step K env) s" and "ts_ok w" "interval_ok (rounding env) i"
    and "timerCount s + 1 < INT64_MAX"
  shows "\<exists>ti s1 s2. AddTimer env cb w i s = Inr (ti, s1) \<and> ti \<in> set (timers s1) \<and>
    CancelTimer ti s1 = Inr s2 \<and> set (timers s2) = set (timers s) \<and> heap s2 = heap s"
proof -
  have inv: "env_ok K env" "tq_inv env [] s" using tq.reach_inv [OF assms(1)] by auto
  then have "clock_ok env" by (simp add: env_ok_def)
  from AddTimer_cancel [OF this inv(2) assms(2-4)] show ?thesis .
qed

theorem AddTimer_CancelTimer_restores_witness:
  "\<exists>ti s1 s2. AddTimer demo_env 3 (Timestamp 9) 1 demo_one = Inr (ti, s1) \<and> ti \<in> set (timers s1) \<and>
    CancelTimer ti s1 = Inr s2 \<and> set (timers s2) = set (timers demo_one) \<and> heap s2 = heap demo_one"
proof -
  have "timerCount demo_one + 1 < INT64_MAX" by (simp add: demo_one_def timer_eval)
  then show ?thesis
    by (intro AddTimer_CancelTimer_restores [OF demo_one_reach])
      (simp_all add: ts_ok_def interval_ok_def demo_env_def)
qed

text \<open>
  An index whose expiration is not the timer's present one cancels nothing: once a repeated
  timer has fired, its expiration has moved on, and the index that \<^verbatim>\<open>AddTimer\<close> returned
  no longer cancels it.
\<close>

theorem CancelTimer_stale_index:
  assumes "reach (tq_init K env) (tq_step K env) s" and "ti \<in> set (issued s)"
    and "ti_timer ti = Some p" "heap s p = Some t" "texpiration t \<noteq> ti_expiration ti"
  shows "CancelTimer ti s = Inr s"
proof -
  have inv: "tq_inv env [] s" using tq.reach_inv [OF assms(1)] by auto
  have srt: "sorted_wrt ti_less (timers s)" using inv by (simp add: tq_inv_def)
  have g: "genuine s ti" using inv assms(2) by (simp add: tq_inv_def)
  have "set_find ti_less ti (timers s) = None"
  proof (rule ccontr)
    assume "set_find ti_less ti (timers s) \<noteq> None"
    then obtain y where y: "set_find ti_less ti (timers s) = Some y" by auto
    from ti.find_Some [OF srt y] have m: "y \<in> set (timers s)" "ti_expiration y = ti_expiration ti"
      "ti_sequence y = ti_sequence ti" using ti_equivalent [of ti y] by auto
    from queued_timer [OF inv m(1)] obtain q u where q: "y = idx q u" "heap s q = Some u" by auto
    with g m(3) assms(3) have "q = p" by (auto simp: genuine_def)
    with q m(2) assms(4,5) show False by simp
  qed
  then show ?thesis by (simp add: CancelTimer_def CancelTimerInLoop_def)
qed

text \<open>A repeated timer after its first expiry: it stays in the queue.\<close>

definition demo_repeated :: "nat TimerQueue" where
  "demo_repeated =
     (case rbind (AddTimer demo_env 7 (Timestamp 1) 2 TimerQueue_new) (\<lambda>(ti, s). HandleRead demo_env s) of
        Inl e \<Rightarrow> TimerQueue_new | Inr s \<Rightarrow> s)"

lemmas repeat_eval = timer_eval Timer_Restart_def AddSeconds_def double_to_i64_def i64_def i64_ok_def
  time_consts TimeDifference_def cdiv_def cmod_def

lemma demo_repeated_reach: "reach (tq_init 0 demo_env) (tq_step 0 demo_env) demo_repeated"
proof -
  obtain ti s where a: "AddTimer demo_env 7 (Timestamp 1) 2 TimerQueue_new = Inr (ti, s)"
    by (simp add: repeat_eval)
  then have st: "tq_step 0 demo_env TimerQueue_new s"
    by (rule step_add [rotated 3]) (simp_all add: ts_ok_def interval_ok_def TimerQueue_new_def INT64_MAX_def
      demo_env_def)
  have "timerCount s + int (0 * length (timers s)) < INT64_MAX" using a by (auto simp: repeat_eval)
  moreover obtain s' where h: "HandleRead demo_env s = Inr s'" using a by (auto simp: repeat_eval)
  ultimately have "tq_step 0 demo_env s s'" by (rule step_expire)
  with st have "reach (tq_init 0 demo_env) (tq_step 0 demo_env) s'"
    using reach_step [OF reach_step [OF demo_init]] by blast
  moreover have "demo_repeated = s'" using a h by (simp add: demo_repeated_def)
  ultimately show ?thesis by simp
qed

theorem CancelTimer_stale_index_witness:
  "issued demo_repeated ! 0 = \<lparr>ti_timer = Some 0, ti_expiration = Timestamp 1, ti_sequence = 1\<rparr> \<and>
    CancelTimer (issued demo_repeated ! 0) demo_repeated = Inr demo_repeated \<and>
    length (timers demo_repeated) = 1"
proof -
  have e: "issued demo_repeated = [\<lparr>ti_timer = Some 0, ti_expiration = Timestamp 1, ti_sequence = 1\<rparr>]"
    "length (timers demo_repeated) = 1" "\<exists>t. heap demo_repeated 0 = Some t \<and> texpiration t = Timestamp 2000005"
    by (simp_all add: demo_repeated_def repeat_eval)
  then obtain t where "heap demo_repeated 0 = Some t" "texpiration t = Timestamp 2000005" by blast
  then have "CancelTimer (issued demo_repeated ! 0) demo_repeated = Inr demo_repeated"
    by (intro CancelTimer_stale_index [OF demo_repeated_reach, where p = 0 and t = t]) (simp_all add: e(1))
  with e show ?thesis by simp
qed

text \<open>
  \<^verbatim>\<open>AddTimer\<close> called from another thread can use freed memory: there is a
  reachable state in which the timer has expired and been deleted in the loop before the call
  reads its sequence number for the return value.
\<close>

theorem AddTimer_return_after_expiry:
  "\<exists>s. reach (tq_init 0 demo_env) (tq_step 0 demo_env) s \<and> AddTimer_finish s = Inl Undefined \<and>
    ran s = [(1, 7)]"
proof -
  let ?s = "AddTimer_post 7 (Timestamp 1) 0 TimerQueue_new"
  have 1: "tq_step 0 demo_env TimerQueue_new ?s"
    by (rule step_post_add) (simp_all add: ts_ok_def interval_ok_def TimerQueue_new_def INT64_MAX_def)
  obtain s2 where s2: "run_posted demo_env ?s = Inr s2" by (simp add: timer_eval)
  then have 2: "tq_step 0 demo_env ?s s2" by (rule step_posted)
  obtain s3 where s3: "HandleRead demo_env s2 = Inr s3" using s2 by (auto simp: timer_eval)
  have "timerCount s2 + int (0 * length (timers s2)) < INT64_MAX" using s2 by (auto simp: timer_eval)
  then have 3: "tq_step 0 demo_env s2 s3" using s3 by (rule step_expire)
  have "AddTimer_finish s3 = Inl Undefined \<and> ran s3 = [(1, 7)]"
    using s2 s3 by (auto simp: timer_eval)
  with reach_step [OF reach_step [OF reach_step [OF demo_init 1] 2] 3] show ?thesis by blast
qed

end
