(* ===== verification/Channels.thy ===== *)
theory Channels
  imports Containers
begin

text \<open>
  Channels and the poller: \<^verbatim>\<open>src/reactor/Channel.h\<close>, \<^verbatim>\<open>src/reactor/Channel.cc\<close>,
  \<^verbatim>\<open>src/reactor/Poller.h\<close> and \<^verbatim>\<open>src/reactor/Poller.cc\<close>.

  Channel objects live in a heap of addresses.  The kernel's epoll instance has an arbitrary state
  type; \<^verbatim>\<open>epoll_ctl\<close> and \<^verbatim>\<open>epoll_wait\<close> are arguments of the operations, and
  \<open>epoll_ctl_spec\<close> and \<open>epoll_wait_spec\<close> state what their manual pages promise.
\<close>

unbundle bit_operations_syntax

section \<open>Event masks\<close>

definition EPOLLIN :: "32 word" where "EPOLLIN = 0x001"
definition EPOLLPRI :: "32 word" where "EPOLLPRI = 0x002"
definition EPOLLOUT :: "32 word" where "EPOLLOUT = 0x004"
definition EPOLLERR :: "32 word" where "EPOLLERR = 0x008"
definition EPOLLHUP :: "32 word" where "EPOLLHUP = 0x010"
definition EPOLLRDHUP :: "32 word" where "EPOLLRDHUP = 0x2000"

definition kNoneEvent :: "32 word" where "kNoneEvent = 0"

text \<open>The source combines the two read masks with the logical operator.\<close>

definition kReadEvent :: "32 word" where
  "kReadEvent = (if EPOLLIN \<noteq> 0 \<and> EPOLLPRI \<noteq> 0 then 1 else 0)"

definition kWriteEvent :: "32 word" where "kWriteEvent = EPOLLOUT"

lemmas mask_defs = EPOLLIN_def EPOLLPRI_def EPOLLOUT_def EPOLLERR_def EPOLLHUP_def EPOLLRDHUP_def
  kNoneEvent_def kReadEvent_def kWriteEvent_def

section \<open>Channels\<close>

record 'cb Channel =
  ownerLoop :: nat
  registeredToPoller :: bool
  chFd :: int
  events :: "32 word"
  revents :: "32 word"
  readCallback :: "'cb option"
  writeCallback :: "'cb option"
  closeCallback :: "'cb option"
  errorCallback :: "'cb option"

definition Channel_new :: "nat \<Rightarrow> int \<Rightarrow> 'cb Channel" where
  "Channel_new loop fd =
     \<lparr>ownerLoop = loop, registeredToPoller = False, chFd = fd, events = kNoneEvent, revents = 0,
      readCallback = None, writeCallback = None, closeCallback = None, errorCallback = None\<rparr>"

definition IsReading :: "'cb Channel \<Rightarrow> bool" where
  "IsReading c \<longleftrightarrow> events c AND kReadEvent \<noteq> 0"

definition IsWriting :: "'cb Channel \<Rightarrow> bool" where
  "IsWriting c \<longleftrightarrow> events c AND kWriteEvent \<noteq> 0"

definition IsNoneEvent :: "'cb Channel \<Rightarrow> bool" where
  "IsNoneEvent c \<longleftrightarrow> events c AND kNoneEvent \<noteq> 0"

datatype mask_op = EnableReading | DisableReading | EnableWriting | DisableWriting | DisableAll

fun apply_mask :: "mask_op \<Rightarrow> 32 word \<Rightarrow> 32 word" where
  "apply_mask EnableReading e = e OR kReadEvent"
| "apply_mask DisableReading e = e AND NOT kReadEvent"
| "apply_mask EnableWriting e = e OR kWriteEvent"
| "apply_mask DisableWriting e = e AND NOT kWriteEvent"
| "apply_mask DisableAll e = kNoneEvent"

section \<open>The poller\<close>

datatype ctl_op = CtlAdd | CtlMod | CtlDel

type_synonym 'k epoll_ctl = "ctl_op \<Rightarrow> int \<Rightarrow> 32 word \<times> nat \<Rightarrow> 'k \<Rightarrow> int \<times> 'k"

text \<open>\<open>loopId\<close> is the loop that owns the poller; \<open>eventListSize\<close> is \<^verbatim>\<open>events_.size()\<close>.\<close>

record ('cb, 'k) Poller =
  loopId :: nat
  chans :: "nat \<Rightarrow> 'cb Channel option"
  kernel :: 'k
  channels :: "(int, nat) std_map"
  eventListSize :: nat

definition kEventListSize :: nat where "kEventListSize = 16"

definition Poller_new :: "nat \<Rightarrow> (unit \<Rightarrow> int) \<Rightarrow> 'k \<Rightarrow> ('cb, 'k) Poller res" where
  "Poller_new loop epoll_create1 k =
     (if epoll_create1 () < 0 then Inl Fatal
      else Inr \<lparr>loopId = loop, chans = (\<lambda>a. None), kernel = k, channels = [],
                eventListSize = kEventListSize\<rparr>)"

text \<open>Reading a channel through its pointer.\<close>

definition deref :: "nat \<Rightarrow> ('cb, 'k, 'z) Poller_scheme \<Rightarrow> ('cb Channel \<Rightarrow> 'a res) \<Rightarrow> 'a res" where
  "deref a s f = (case chans s a of None \<Rightarrow> Inl Undefined | Some c \<Rightarrow> f c)"

definition set_chan :: "nat \<Rightarrow> 'cb Channel \<Rightarrow> ('cb, 'k, 'z) Poller_scheme \<Rightarrow> ('cb, 'k, 'z) Poller_scheme" where
  "set_chan a c s = s\<lparr>chans := (chans s)(a := Some c)\<rparr>"

definition Poller_UpdateChannel :: "'k epoll_ctl \<Rightarrow> bool \<Rightarrow> nat \<Rightarrow> ('cb, 'k, 'z) Poller_scheme \<Rightarrow> ('cb, 'k, 'z) Poller_scheme res" where
  "Poller_UpdateChannel ctl inLoop a s =
     ensure inLoop (deref a s (\<lambda>c.
       let (ret, k) = ctl (if registeredToPoller c then CtlMod else CtlAdd) (chFd c) (events c, a) (kernel s)
       in if ret < 0 then Inl Fatal
          else Inr (s\<lparr>kernel := k, channels := map_set (chFd c) a (channels s)\<rparr>)))"

definition ENOENT :: int where "ENOENT = 2"

definition Poller_RemoveChannel :: "'k epoll_ctl \<Rightarrow> bool \<Rightarrow> nat \<Rightarrow> ('cb, 'k, 'z) Poller_scheme \<Rightarrow> ('cb, 'k, 'z) Poller_scheme res" where
  "Poller_RemoveChannel ctl inLoop a s =
     ensure inLoop (deref a s (\<lambda>c.
       let (ret, k) = ctl CtlDel (chFd c) (0, 0) (kernel s)
       in if ret \<noteq> ENOENT \<and> ret < 0 then Inl Fatal
          else Inr (s\<lparr>kernel := k, channels := map_erase (chFd c) (channels s)\<rparr>)))"

definition Poller_HasChannel :: "bool \<Rightarrow> nat \<Rightarrow> ('cb, 'k, 'z) Poller_scheme \<Rightarrow> bool res" where
  "Poller_HasChannel inLoop a s =
     ensure inLoop (deref a s (\<lambda>c. Inr (map_find (chFd c) (channels s) = Some a)))"

text \<open>\<^verbatim>\<open>EventLoop::UpdateChannel\<close>, \<^verbatim>\<open>RemoveChannel\<close> and \<^verbatim>\<open>HasChannel\<close>.\<close>

definition Loop_UpdateChannel :: "'k epoll_ctl \<Rightarrow> bool \<Rightarrow> nat \<Rightarrow> ('cb, 'k, 'z) Poller_scheme \<Rightarrow> ('cb, 'k, 'z) Poller_scheme res" where
  "Loop_UpdateChannel ctl inLoop a s =
     deref a s (\<lambda>c. ensure (ownerLoop c = loopId s) (ensure inLoop (Poller_UpdateChannel ctl inLoop a s)))"

definition Loop_RemoveChannel :: "'k epoll_ctl \<Rightarrow> bool \<Rightarrow> nat \<Rightarrow> ('cb, 'k, 'z) Poller_scheme \<Rightarrow> ('cb, 'k, 'z) Poller_scheme res" where
  "Loop_RemoveChannel ctl inLoop a s =
     deref a s (\<lambda>c. ensure (ownerLoop c = loopId s) (ensure inLoop (Poller_RemoveChannel ctl inLoop a s)))"

definition Loop_HasChannel :: "bool \<Rightarrow> nat \<Rightarrow> ('cb, 'k, 'z) Poller_scheme \<Rightarrow> bool res" where
  "Loop_HasChannel inLoop a s = ensure inLoop (Poller_HasChannel inLoop a s)"

definition RegisterToPoller :: "'k epoll_ctl \<Rightarrow> bool \<Rightarrow> nat \<Rightarrow> ('cb, 'k, 'z) Poller_scheme \<Rightarrow> ('cb, 'k, 'z) Poller_scheme res" where
  "RegisterToPoller ctl inLoop a s =
     rbind (Loop_UpdateChannel ctl inLoop a s) (\<lambda>s1.
       deref a s1 (\<lambda>c. Inr (set_chan a (c\<lparr>registeredToPoller := True\<rparr>) s1)))"

text \<open>\<^verbatim>\<open>EnableReading\<close>, \<^verbatim>\<open>DisableReading\<close> and the other three.\<close>

definition change_events :: "'k epoll_ctl \<Rightarrow> bool \<Rightarrow> mask_op \<Rightarrow> nat \<Rightarrow> ('cb, 'k, 'z) Poller_scheme \<Rightarrow> ('cb, 'k, 'z) Poller_scheme res" where
  "change_events ctl inLoop m a s =
     deref a s (\<lambda>c. RegisterToPoller ctl inLoop a (set_chan a (c\<lparr>events := apply_mask m (events c)\<rparr>) s))"

definition RemoveFromPoller :: "'k epoll_ctl \<Rightarrow> bool \<Rightarrow> nat \<Rightarrow> ('cb, 'k, 'z) Poller_scheme \<Rightarrow> ('cb, 'k, 'z) Poller_scheme res" where
  "RemoveFromPoller ctl inLoop a s =
     deref a s (\<lambda>c. ensure (events c = kNoneEvent)
       (rbind (Loop_RemoveChannel ctl inLoop a s) (\<lambda>s1.
          deref a s1 (\<lambda>c1. Inr (set_chan a (c1\<lparr>registeredToPoller := False\<rparr>) s1)))))"

definition Channel_create :: "nat \<Rightarrow> nat \<Rightarrow> int \<Rightarrow> ('cb, 'k, 'z) Poller_scheme \<Rightarrow> ('cb, 'k, 'z) Poller_scheme" where
  "Channel_create a loop fd s = set_chan a (Channel_new loop fd) s"

definition Channel_destroy :: "nat \<Rightarrow> ('cb, 'k, 'z) Poller_scheme \<Rightarrow> ('cb, 'k, 'z) Poller_scheme res" where
  "Channel_destroy a s =
     deref a s (\<lambda>c. ensure (\<not> registeredToPoller c) (Inr (s\<lparr>chans := (chans s)(a := None)\<rparr>)))"

text \<open>\<open>fetched\<close> is the answer of \<^verbatim>\<open>epoll_wait\<close>: \<open>None\<close> for -1, or the events it stored.\<close>

definition UpdateRevents :: "32 word \<times> nat \<Rightarrow> ('cb, 'k, 'z) Poller_scheme \<Rightarrow> ('cb, 'k, 'z) Poller_scheme res" where
  "UpdateRevents = (\<lambda>(ev, a) s. deref a s (\<lambda>c. Inr (set_chan a (c\<lparr>revents := ev\<rparr>) s)))"

definition Poll :: "('k \<Rightarrow> nat \<Rightarrow> (32 word \<times> nat) list option) \<Rightarrow> bool \<Rightarrow> ('cb, 'k, 'z) Poller_scheme \<Rightarrow>
    (nat list \<times> ('cb, 'k, 'z) Poller_scheme) res" where
  "Poll epoll_wait inLoop s =
     ensure inLoop
       (case epoll_wait (kernel s) (eventListSize s) of
          None \<Rightarrow> Inl Assertion
        | Some fetched \<Rightarrow>
            rbind (rfold UpdateRevents fetched s) (\<lambda>s1.
              Inr (map snd fetched,
                   if length fetched = eventListSize s1
                   then s1\<lparr>eventListSize := eventListSize s1 * 2\<rparr> else s1)))"

definition SetReadCallback :: "nat \<Rightarrow> 'cb \<Rightarrow> ('cb, 'k, 'z) Poller_scheme \<Rightarrow> ('cb, 'k, 'z) Poller_scheme res" where
  "SetReadCallback a cb s = deref a s (\<lambda>c. Inr (set_chan a (c\<lparr>readCallback := Some cb\<rparr>) s))"

definition SetWriteCallback :: "nat \<Rightarrow> 'cb \<Rightarrow> ('cb, 'k, 'z) Poller_scheme \<Rightarrow> ('cb, 'k, 'z) Poller_scheme res" where
  "SetWriteCallback a cb s = deref a s (\<lambda>c. Inr (set_chan a (c\<lparr>writeCallback := Some cb\<rparr>) s))"

definition SetCloseCallback :: "nat \<Rightarrow> 'cb \<Rightarrow> ('cb, 'k, 'z) Poller_scheme \<Rightarrow> ('cb, 'k, 'z) Poller_scheme res" where
  "SetCloseCallback a cb s = deref a s (\<lambda>c. Inr (set_chan a (c\<lparr>closeCallback := Some cb\<rparr>) s))"

definition SetErrorCallback :: "nat \<Rightarrow> 'cb \<Rightarrow> ('cb, 'k, 'z) Poller_scheme \<Rightarrow> ('cb, 'k, 'z) Poller_scheme res" where
  "SetErrorCallback a cb s = deref a s (\<lambda>c. Inr (set_chan a (c\<lparr>errorCallback := Some cb\<rparr>) s))"

section \<open>Event dispatch\<close>

text \<open>
  One branch of \<^verbatim>\<open>HandleEvent\<close>: the mask and the callback are read through the channel when
  the branch is reached.  \<open>call\<close> runs a callback and may change everything, even free the channel.
\<close>

definition dispatch :: "('cb \<Rightarrow> ('cb, 'k, 'z) Poller_scheme \<Rightarrow> ('cb, 'k, 'z) Poller_scheme res) \<Rightarrow> nat \<Rightarrow> 32 word \<Rightarrow>
    ('cb Channel \<Rightarrow> 'cb option) \<Rightarrow> ('cb, 'k, 'z) Poller_scheme \<Rightarrow> ('cb, 'k, 'z) Poller_scheme res" where
  "dispatch call a msk sel s =
     deref a s (\<lambda>c. if revents c AND msk \<noteq> 0
       then (case sel c of None \<Rightarrow> Inr s | Some cb \<Rightarrow> call cb s) else Inr s)"

definition HandleEvent :: "('cb \<Rightarrow> ('cb, 'k, 'z) Poller_scheme \<Rightarrow> ('cb, 'k, 'z) Poller_scheme res) \<Rightarrow> bool \<Rightarrow> nat \<Rightarrow>
    ('cb, 'k, 'z) Poller_scheme \<Rightarrow> ('cb, 'k, 'z) Poller_scheme res" where
  "HandleEvent call inLoop a s =
     deref a s (\<lambda>c. ensure inLoop
       (rbind (dispatch call a (EPOLLIN OR EPOLLPRI OR EPOLLRDHUP) readCallback s) (\<lambda>s1.
        rbind (dispatch call a EPOLLOUT writeCallback s1) (\<lambda>s2.
        rbind (dispatch call a EPOLLERR errorCallback s2) (\<lambda>s3.
          dispatch call a EPOLLHUP closeCallback s3)))))"

section \<open>What the kernel promises\<close>

text \<open>
  \<open>interest k\<close> is the interest list.  A call either succeeds and updates the list, or returns -1
  and leaves it; adding a present descriptor or changing an absent one fails, changing or deleting
  a present one succeeds.  Adding may fail for lack of resources.
\<close>

fun ctl_result :: "ctl_op \<Rightarrow> int \<Rightarrow> 'e \<Rightarrow> (int \<Rightarrow> 'e option) \<Rightarrow> int \<Rightarrow> 'e option" where
  "ctl_result CtlAdd fd ev m = m(fd := Some ev)"
| "ctl_result CtlMod fd ev m = m(fd := Some ev)"
| "ctl_result CtlDel fd ev m = m(fd := None)"

definition epoll_ctl_spec :: "'k epoll_ctl \<Rightarrow> ('k \<Rightarrow> int \<Rightarrow> (32 word \<times> nat) option) \<Rightarrow> bool" where
  "epoll_ctl_spec ctl interest \<longleftrightarrow> (\<forall>op fd ev k ret k'. ctl op fd ev k = (ret, k') \<longrightarrow>
     (ret = 0 \<and> interest k' = ctl_result op fd ev (interest k) \<and>
        (interest k fd = None \<longleftrightarrow> op = CtlAdd)) \<or>
     (ret = - 1 \<and> interest k' = interest k \<and> (interest k fd \<noteq> None \<longrightarrow> op = CtlAdd)))"

text \<open>\<^verbatim>\<open>epoll_wait\<close> stores at most as many events as asked, each with the pointer registered.\<close>

definition epoll_wait_spec ::
    "('k \<Rightarrow> nat \<Rightarrow> (32 word \<times> nat) list option) \<Rightarrow> ('k \<Rightarrow> int \<Rightarrow> (32 word \<times> nat) option) \<Rightarrow> bool" where
  "epoll_wait_spec wait interest \<longleftrightarrow> (\<forall>k n evs. wait k n = Some evs \<longrightarrow> length evs \<le> n \<and>
     (\<forall>p\<in>set evs. \<exists>fd e. interest k fd = Some (e, snd p)))"

lemma ctl_cases:
  assumes "epoll_ctl_spec ctl interest" "ctl op fd ev k = (ret, k')"
  shows "(ret = 0 \<and> interest k' = ctl_result op fd ev (interest k) \<and> (interest k fd = None \<longleftrightarrow> op = CtlAdd)) \<or>
     (ret = - 1 \<and> interest k' = interest k \<and> (interest k fd \<noteq> None \<longrightarrow> op = CtlAdd))"
  using assms unfolding epoll_ctl_spec_def by blast

section \<open>The registry invariant\<close>

text \<open>
  The flag of every channel, the interest list of the kernel and the map of the poller agree; in
  particular the kernel holds no pointer to a freed channel.
\<close>

definition registry :: "('k \<Rightarrow> int \<Rightarrow> (32 word \<times> nat) option) \<Rightarrow> ('cb, 'k, 'z) Poller_scheme \<Rightarrow> bool" where
  "registry interest s \<longleftrightarrow> map_wf (channels s) \<and>
     (\<forall>a c. chans s a = Some c \<and> registeredToPoller c \<longrightarrow>
        interest (kernel s) (chFd c) = Some (events c, a) \<and> map_find (chFd c) (channels s) = Some a) \<and>
     (\<forall>fd ev a. interest (kernel s) fd = Some (ev, a) \<longrightarrow>
        (\<exists>c. chans s a = Some c \<and> registeredToPoller c \<and> chFd c = fd))"

lemma registry_registered:
  "registry interest s \<Longrightarrow> chans s a = Some c \<Longrightarrow> registeredToPoller c \<Longrightarrow>
    interest (kernel s) (chFd c) = Some (events c, a) \<and> map_find (chFd c) (channels s) = Some a"
  unfolding registry_def by blast

lemma registry_interest:
  "registry interest s \<Longrightarrow> interest (kernel s) fd = Some (ev, a) \<Longrightarrow>
    \<exists>c. chans s a = Some c \<and> registeredToPoller c \<and> chFd c = fd"
  unfolding registry_def by blast

lemma registry_wf: "registry interest s \<Longrightarrow> map_wf (channels s)"
  by (simp add: registry_def)

lemma registryI:
  assumes "map_wf (channels s)"
    and "\<And>a c. chans s a = Some c \<Longrightarrow> registeredToPoller c \<Longrightarrow>
      interest (kernel s) (chFd c) = Some (events c, a) \<and> map_find (chFd c) (channels s) = Some a"
    and "\<And>fd ev a. interest (kernel s) fd = Some (ev, a) \<Longrightarrow>
      \<exists>c. chans s a = Some c \<and> registeredToPoller c \<and> chFd c = fd"
  shows "registry interest s"
  using assms unfolding registry_def by blast

text \<open>What an update of the events does, step by step.\<close>

definition changed :: "mask_op \<Rightarrow> 'cb Channel \<Rightarrow> 'cb Channel" where
  "changed m c = c\<lparr>events := apply_mask m (events c), registeredToPoller := True\<rparr>"

definition after_change :: "mask_op \<Rightarrow> nat \<Rightarrow> 'cb Channel \<Rightarrow> 'k \<Rightarrow> ('cb, 'k, 'z) Poller_scheme \<Rightarrow> ('cb, 'k, 'z) Poller_scheme" where
  "after_change m a c k s = s\<lparr>kernel := k, channels := map_set (chFd c) a (channels s),
     chans := (chans s)(a := Some (changed m c))\<rparr>"

lemma change_events_cases:
  assumes spec: "epoll_ctl_spec ctl interest" and reg: "registry interest s" and c: "chans s a = Some c"
    and own: "ownerLoop c = loopId s"
  obtains (failed) "change_events ctl True m a s = Inl Fatal" "\<not> registeredToPoller c"
  | (changed) k where "change_events ctl True m a s = Inr (after_change m a c k s)"
      "interest k = (interest (kernel s))(chFd c := Some (apply_mask m (events c), a))"
      "interest (kernel s) (chFd c) = None \<longleftrightarrow> \<not> registeredToPoller c"
proof -
  let ?e = "apply_mask m (events c)"
  let ?op = "if registeredToPoller c then CtlMod else CtlAdd"
  obtain ret k where k: "ctl ?op (chFd c) (?e, a) (kernel s) = (ret, k)" by fastforce
  note run = change_events_def deref_def RegisterToPoller_def Loop_UpdateChannel_def
    Poller_UpdateChannel_def set_chan_def after_change_def changed_def
  from ctl_cases [OF spec k] show ?thesis
  proof
    assume r: "ret = 0 \<and> interest k = ctl_result ?op (chFd c) (?e, a) (interest (kernel s)) \<and>
      (interest (kernel s) (chFd c) = None \<longleftrightarrow> ?op = CtlAdd)"
    show ?thesis
      by (rule changed [of k]) (use r k c own in \<open>simp_all add: run split: if_splits\<close>)
  next
    assume r: "ret = - 1 \<and> interest k = interest (kernel s) \<and>
      (interest (kernel s) (chFd c) \<noteq> None \<longrightarrow> ?op = CtlAdd)"
    have "\<not> registeredToPoller c"
      using r registry_registered [OF reg c] by auto
    then show ?thesis by (intro failed) (use r k c own in \<open>simp_all add: run\<close>)
  qed
qed

lemma change_events_registry:
  assumes spec: "epoll_ctl_spec ctl interest" and reg: "registry interest s" and c: "chans s a = Some c"
    and own: "ownerLoop c = loopId s" and r: "change_events ctl True m a s = Inr s'"
  shows "registry interest s'"
proof -
  obtain k where s': "s' = after_change m a c k s"
    and k: "interest k = (interest (kernel s))(chFd c := Some (apply_mask m (events c), a))"
    and n: "interest (kernel s) (chFd c) = None \<longleftrightarrow> \<not> registeredToPoller c"
    using change_events_cases [OF spec reg c own, of m] r by (metis Inl_Inr_False Inr_inject)
  note wf = registry_wf [OF reg]
  have other: "chFd d \<noteq> chFd c" if d: "chans s b = Some d" "registeredToPoller d" "b \<noteq> a" for b d
    using registry_registered [OF reg d(1,2)] registry_registered [OF reg c] n d(3) by auto
  show ?thesis
  proof (rule registryI)
    show "map_wf (channels s')" using smap.assign_wf [OF wf] by (simp add: s' after_change_def)
  next
    fix b d assume bd: "chans s' b = Some d" "registeredToPoller d"
    show "interest (kernel s') (chFd d) = Some (events d, b) \<and> map_find (chFd d) (channels s') = Some b"
    proof (cases "b = a")
      case True
      with bd show ?thesis by (auto simp: s' after_change_def changed_def k smap.find_assign [OF wf])
    next
      case False
      with bd have d: "chans s b = Some d" by (simp add: s' after_change_def)
      with bd False show ?thesis
        using other [OF d bd(2)] registry_registered [OF reg d bd(2)]
        by (simp add: s' after_change_def changed_def k smap.find_assign [OF wf])
    qed
  next
    fix fd ev b assume i: "interest (kernel s') fd = Some (ev, b)"
    show "\<exists>d. chans s' b = Some d \<and> registeredToPoller d \<and> chFd d = fd"
    proof (cases "fd = chFd c")
      case True
      with i show ?thesis by (simp add: s' after_change_def changed_def k)
    next
      case False
      with i have "interest (kernel s) fd = Some (ev, b)" by (simp add: s' after_change_def changed_def k)
      from registry_interest [OF reg this] False c show ?thesis by (auto simp: s' after_change_def changed_def)
    qed
  qed
qed

definition after_remove :: "nat \<Rightarrow> 'cb Channel \<Rightarrow> 'k \<Rightarrow> ('cb, 'k, 'z) Poller_scheme \<Rightarrow> ('cb, 'k, 'z) Poller_scheme" where
  "after_remove a c k s = s\<lparr>kernel := k, channels := map_erase (chFd c) (channels s),
     chans := (chans s)(a := Some (c\<lparr>registeredToPoller := False\<rparr>))\<rparr>"

lemma RemoveFromPoller_registered:
  assumes spec: "epoll_ctl_spec ctl interest" and reg: "registry interest s" and c: "chans s a = Some c"
    and own: "ownerLoop c = loopId s" and "registeredToPoller c" "events c = kNoneEvent"
  shows "\<exists>k. RemoveFromPoller ctl True a s = Inr (after_remove a c k s) \<and>
    interest k = (interest (kernel s))(chFd c := None)"
proof -
  obtain ret k where k: "ctl CtlDel (chFd c) (0, 0) (kernel s) = (ret, k)" by fastforce
  have "interest (kernel s) (chFd c) \<noteq> None" using registry_registered [OF reg c] assms(5) by simp
  with ctl_cases [OF spec k] have "ret = 0" "interest k = (interest (kernel s))(chFd c := None)" by auto
  with k c own assms(6) show ?thesis
    by (auto simp: RemoveFromPoller_def deref_def Loop_RemoveChannel_def Poller_RemoveChannel_def
        after_remove_def set_chan_def)
qed

text \<open>The kernel refuses to delete an absent descriptor with -1, which the poller takes as fatal.\<close>

lemma RemoveFromPoller_absent:
  assumes spec: "epoll_ctl_spec ctl interest" and c: "chans s a = Some c"
    and own: "ownerLoop c = loopId s" and "events c = kNoneEvent"
    and "interest (kernel s) (chFd c) = None"
  shows "RemoveFromPoller ctl True a s = Inl Fatal"
proof -
  obtain ret k where k: "ctl CtlDel (chFd c) (0, 0) (kernel s) = (ret, k)" by fastforce
  with ctl_cases [OF spec k] assms(5) have "ret = - 1" by auto
  with k c own assms(4) show ?thesis
    by (simp add: RemoveFromPoller_def deref_def Loop_RemoveChannel_def Poller_RemoveChannel_def ENOENT_def)
qed

lemma after_remove_registry:
  assumes reg: "registry interest s" and c: "chans s a = Some c" "registeredToPoller c"
    and k: "interest k = (interest (kernel s))(chFd c := None)"
  shows "registry interest (after_remove a c k s)"
proof (rule registryI)
  note wf = registry_wf [OF reg]
  show "map_wf (channels (after_remove a c k s))" using smap.erase_wf [OF wf] by (simp add: after_remove_def)
  fix b d assume "chans (after_remove a c k s) b = Some d" "registeredToPoller d"
  then have d: "chans s b = Some d" "registeredToPoller d" "b \<noteq> a"
    by (auto simp: after_remove_def split: if_splits)
  then have "chFd d \<noteq> chFd c"
    using registry_registered [OF reg d(1,2)] registry_registered [OF reg c] by auto
  with registry_registered [OF reg d(1,2)]
  show "interest (kernel (after_remove a c k s)) (chFd d) = Some (events d, b) \<and>
      map_find (chFd d) (channels (after_remove a c k s)) = Some b"
    by (simp add: after_remove_def k smap.find_erase [OF wf])
next
  fix fd ev b assume i: "interest (kernel (after_remove a c k s)) fd = Some (ev, b)"
  then have f: "fd \<noteq> chFd c" "interest (kernel s) fd = Some (ev, b)"
    by (auto simp: after_remove_def k split: if_splits)
  from registry_interest [OF reg f(2)] f(1) c
  show "\<exists>d. chans (after_remove a c k s) b = Some d \<and> registeredToPoller d \<and> chFd d = fd"
    by (auto simp: after_remove_def)
qed

text \<open>Changing a channel in a way the registry does not see.\<close>

lemma registry_set_chan:
  assumes reg: "registry interest s" and c: "chans s a = Some c"
    and "registeredToPoller c' = registeredToPoller c" "chFd c' = chFd c" "events c' = events c"
  shows "registry interest (set_chan a c' s)"
proof (rule registryI)
  show "map_wf (channels (set_chan a c' s))" using registry_wf [OF reg] by (simp add: set_chan_def)
  fix b d assume bd: "chans (set_chan a c' s) b = Some d" "registeredToPoller d"
  show "interest (kernel (set_chan a c' s)) (chFd d) = Some (events d, b) \<and>
      map_find (chFd d) (channels (set_chan a c' s)) = Some b"
    using bd registry_registered [OF reg c] registry_registered [OF reg, of b d] assms(3-)
    by (auto simp: set_chan_def split: if_splits)
next
  fix fd ev b assume "interest (kernel (set_chan a c' s)) fd = Some (ev, b)"
  then have "interest (kernel s) fd = Some (ev, b)" by (simp add: set_chan_def)
  from registry_interest [OF reg this] c assms(3,4)
  show "\<exists>d. chans (set_chan a c' s) b = Some d \<and> registeredToPoller d \<and> chFd d = fd"
    by (auto simp: set_chan_def)
qed

lemma registry_unregistered:
  assumes reg: "registry interest s" and "\<forall>c. chans s a = Some c \<longrightarrow> \<not> registeredToPoller c"
    and "\<forall>c. x = Some c \<longrightarrow> \<not> registeredToPoller c"
  shows "registry interest (s\<lparr>chans := (chans s)(a := x)\<rparr>)"
proof (rule registryI)
  show "map_wf (channels (s\<lparr>chans := (chans s)(a := x)\<rparr>))" using registry_wf [OF reg] by simp
  fix b d assume "chans (s\<lparr>chans := (chans s)(a := x)\<rparr>) b = Some d" "registeredToPoller d"
  then have "chans s b = Some d" "registeredToPoller d" using assms(3) by (auto split: if_splits)
  from registry_registered [OF reg this]
  show "interest (kernel (s\<lparr>chans := (chans s)(a := x)\<rparr>)) (chFd d) = Some (events d, b) \<and>
      map_find (chFd d) (channels (s\<lparr>chans := (chans s)(a := x)\<rparr>)) = Some b" by simp
next
  fix fd ev b assume "interest (kernel (s\<lparr>chans := (chans s)(a := x)\<rparr>)) fd = Some (ev, b)"
  then have "interest (kernel s) fd = Some (ev, b)" by simp
  from registry_interest [OF reg this] assms(2)
  show "\<exists>d. chans (s\<lparr>chans := (chans s)(a := x)\<rparr>) b = Some d \<and> registeredToPoller d \<and> chFd d = fd"
    by auto
qed

section \<open>Polling\<close>

lemma UpdateRevents_all:
  "registry interest s \<Longrightarrow> \<forall>p\<in>set evs. \<exists>c. chans s (snd p) = Some c \<Longrightarrow>
    \<exists>s'. rfold UpdateRevents evs s = Inr s' \<and> registry interest s' \<and> kernel s' = kernel s \<and>
      channels s' = channels s \<and> eventListSize s' = eventListSize s \<and> loopId s' = loopId s \<and>
      (\<forall>b c. chans s b = Some c \<longrightarrow> chans s' b =
        Some (c\<lparr>revents := (case map_of (rev (map prod.swap evs)) b of None \<Rightarrow> revents c | Some ev \<Rightarrow> ev)\<rparr>))"
proof (induction evs arbitrary: s)
  case Nil
  then show ?case by simp
next
  case (Cons p evs)
  obtain ev a where p: "p = (ev, a)" by (cases p)
  with Cons.prems(2) obtain c where c: "chans s a = Some c" by auto
  let ?s = "set_chan a (c\<lparr>revents := ev\<rparr>) s"
  have "registry interest ?s" by (rule registry_set_chan [OF Cons.prems(1) c]) simp_all
  moreover have "\<forall>q\<in>set evs. \<exists>d. chans ?s (snd q) = Some d"
    using Cons.prems(2) by (auto simp: set_chan_def)
  ultimately obtain s' where s': "rfold UpdateRevents evs ?s = Inr s'" "registry interest s'"
    "kernel s' = kernel ?s" "channels s' = channels ?s" "eventListSize s' = eventListSize ?s"
    "loopId s' = loopId ?s"
    and r: "\<And>b d. chans ?s b = Some d \<Longrightarrow> chans s' b =
        Some (d\<lparr>revents := (case map_of (rev (map prod.swap evs)) b of None \<Rightarrow> revents d | Some ev \<Rightarrow> ev)\<rparr>)"
    using Cons.IH [of ?s] by blast
  have u: "UpdateRevents p s = Inr ?s" using p c by (simp add: UpdateRevents_def deref_def)
  have "chans s' b = Some (d\<lparr>revents :=
      (case map_of (rev (map prod.swap (p # evs))) b of None \<Rightarrow> revents d | Some ev \<Rightarrow> ev)\<rparr>)"
    if d: "chans s b = Some d" for b d
  proof (cases "b = a")
    case True
    with d c r [of b "c\<lparr>revents := ev\<rparr>"] show ?thesis
      by (simp add: set_chan_def p map_add_def split: option.splits)
  next
    case False
    with d r [of b d] show ?thesis by (simp add: set_chan_def p map_add_def split: option.splits)
  qed
  with s' u show ?case by (simp add: set_chan_def)
qed

lemma Poll_ok:
  assumes spec: "epoll_wait_spec wait interest" and reg: "registry interest s"
    and w: "wait (kernel s) (eventListSize s) = Some evs"
  shows "\<exists>s'. Poll wait True s = Inr (map snd evs, s') \<and> registry interest s' \<and>
    (\<forall>a\<in>set (map snd evs). \<exists>c. chans s' a = Some c \<and> registeredToPoller c) \<and>
    (distinct (map snd evs) \<longrightarrow> (\<forall>(ev, a)\<in>set evs. \<exists>c. chans s' a = Some c \<and> revents c = ev)) \<and>
    eventListSize s' = (if length evs = eventListSize s then 2 * eventListSize s else eventListSize s) \<and>
    loopId s' = loopId s \<and> length evs \<le> eventListSize s"
proof -
  have e: "length evs \<le> eventListSize s" "\<And>p. p \<in> set evs \<Longrightarrow> \<exists>fd e. interest (kernel s) fd = Some (e, snd p)"
    using spec w unfolding epoll_wait_spec_def by blast+
  then have live: "\<And>p. p \<in> set evs \<Longrightarrow> \<exists>c. chans s (snd p) = Some c \<and> registeredToPoller c"
    using registry_interest [OF reg] by blast
  then obtain s1 where s1: "rfold UpdateRevents evs s = Inr s1" "registry interest s1"
    "eventListSize s1 = eventListSize s" "loopId s1 = loopId s"
    and r: "\<And>b c. chans s b = Some c \<Longrightarrow> chans s1 b =
        Some (c\<lparr>revents := (case map_of (rev (map prod.swap evs)) b of None \<Rightarrow> revents c | Some ev \<Rightarrow> ev)\<rparr>)"
    using UpdateRevents_all [OF reg, of evs] by blast
  let ?s' = "if length evs = eventListSize s1 then s1\<lparr>eventListSize := eventListSize s1 * 2\<rparr> else s1"
  have "Poll wait True s = Inr (map snd evs, ?s')" using w s1(1) by (simp add: Poll_def)
  moreover have "registry interest ?s'" using s1(2) by (simp add: registry_def)
  moreover have "chans ?s' = chans s1" by simp
  moreover have "\<exists>c. chans s1 a = Some c \<and> registeredToPoller c" if "a \<in> set (map snd evs)" for a
    using live r that by fastforce
  moreover have "\<exists>c. chans s1 a = Some c \<and> revents c = ev"
    if "distinct (map snd evs)" "(ev, a) \<in> set evs" for ev a
  proof -
    from live [OF that(2)] obtain c where c: "chans s a = Some c" by auto
    have "map_of (rev (map prod.swap evs)) a = Some ev"
      using that by (intro map_of_is_SomeI) (force simp: rev_map [symmetric] comp_def)+
    with r [OF c] show ?thesis by simp
  qed
  ultimately show ?thesis using s1(3,4) e(1) by fastforce
qed

section \<open>Reachable pollers\<close>

text \<open>
  Calls in the loop thread.  A channel is created at a fresh address, and its clients remove it
  from the poller only while it is registered; every other call is unrestricted.
\<close>

inductive poller_step ::
    "'k epoll_ctl \<Rightarrow> ('k \<Rightarrow> nat \<Rightarrow> (32 word \<times> nat) list option) \<Rightarrow>
      ('cb, 'k, 'z) Poller_scheme \<Rightarrow> ('cb, 'k, 'z) Poller_scheme \<Rightarrow> bool"
  for ctl :: "'k epoll_ctl" and wait :: "'k \<Rightarrow> nat \<Rightarrow> (32 word \<times> nat) list option" where
  step_create: "chans s a = None \<Longrightarrow> poller_step ctl wait s (Channel_create a (loopId s) fd s)"
| step_read_cb: "SetReadCallback a cb s = Inr s' \<Longrightarrow> poller_step ctl wait s s'"
| step_write_cb: "SetWriteCallback a cb s = Inr s' \<Longrightarrow> poller_step ctl wait s s'"
| step_close_cb: "SetCloseCallback a cb s = Inr s' \<Longrightarrow> poller_step ctl wait s s'"
| step_error_cb: "SetErrorCallback a cb s = Inr s' \<Longrightarrow> poller_step ctl wait s s'"
| step_change: "change_events ctl True m a s = Inr s' \<Longrightarrow> poller_step ctl wait s s'"
| step_remove: "\<lbrakk>chans s a = Some c; registeredToPoller c; RemoveFromPoller ctl True a s = Inr s'\<rbrakk> \<Longrightarrow>
    poller_step ctl wait s s'"
| step_destroy: "Channel_destroy a s = Inr s' \<Longrightarrow> poller_step ctl wait s s'"
| step_poll: "Poll wait True s = Inr (active, s') \<Longrightarrow> poller_step ctl wait s s'"

definition owned :: "('cb, 'k, 'z) Poller_scheme \<Rightarrow> bool" where
  "owned s \<longleftrightarrow> (\<forall>a c. chans s a = Some c \<longrightarrow> ownerLoop c = loopId s)"

definition poller_inv ::
    "'k epoll_ctl \<Rightarrow> ('k \<Rightarrow> nat \<Rightarrow> (32 word \<times> nat) list option) \<Rightarrow>
      ('k \<Rightarrow> int \<Rightarrow> (32 word \<times> nat) option) \<Rightarrow> ('cb, 'k, 'z) Poller_scheme \<Rightarrow> bool" where
  "poller_inv ctl wait interest s \<longleftrightarrow> epoll_ctl_spec ctl interest \<and> epoll_wait_spec wait interest \<and>
     registry interest s \<and> owned s \<and> 16 \<le> eventListSize s"

lemma owned_set_chan: "owned s \<Longrightarrow> chans s a = Some c \<Longrightarrow> ownerLoop c' = ownerLoop c \<Longrightarrow> owned (set_chan a c' s)"
  by (simp add: owned_def set_chan_def)

lemma owned_revents: "rfold UpdateRevents evs s = Inr s' \<Longrightarrow> owned s \<Longrightarrow> owned s' \<and> loopId s' = loopId s"
proof (induction evs arbitrary: s)
  case (Cons p evs)
  obtain ev a where p: "p = (ev, a)" by (cases p)
  with Cons.prems(1) obtain c where c: "chans s a = Some c"
    "rfold UpdateRevents evs (set_chan a (c\<lparr>revents := ev\<rparr>) s) = Inr s'"
    by (auto simp: UpdateRevents_def deref_def split: option.splits)
  have "owned (set_chan a (c\<lparr>revents := ev\<rparr>) s)" by (rule owned_set_chan [OF Cons.prems(2) c(1)]) simp
  from Cons.IH [OF c(2) this] show ?case by (simp add: set_chan_def)
qed simp

lemma set_callback_inv:
  assumes "poller_inv ctl wait interest s" "deref a s (\<lambda>c. Inr (set_chan a (f c) s)) = Inr s'"
    and "\<And>c. registeredToPoller (f c) = registeredToPoller c \<and> chFd (f c) = chFd c \<and>
      events (f c) = events c \<and> ownerLoop (f c) = ownerLoop c"
  shows "poller_inv ctl wait interest s'"
proof -
  from assms(2) obtain c where c: "chans s a = Some c" "s' = set_chan a (f c) s"
    by (auto simp: deref_def split: option.splits)
  then show ?thesis
    using assms(1,3) registry_set_chan [of interest s a c "f c"] owned_set_chan [of s a c "f c"]
    by (auto simp: poller_inv_def) (simp add: set_chan_def)
qed

lemma poller_step_inv:
  assumes inv: "poller_inv ctl wait interest s" and st: "poller_step ctl wait s s'"
  shows "poller_inv ctl wait interest s'"
proof -
  note i = inv [unfolded poller_inv_def]
  from i have spec: "epoll_ctl_spec ctl interest" and reg: "registry interest s"
    and own: "\<And>a c. chans s a = Some c \<Longrightarrow> ownerLoop c = loopId s" by (auto simp: owned_def)
  from st show ?thesis
  proof cases
    case (step_create a fd)
    have "registry interest (s\<lparr>chans := (chans s)(a := Some (Channel_new (loopId s) fd))\<rparr>)"
      using step_create by (intro registry_unregistered [OF reg]) (simp_all add: Channel_new_def)
    with i step_create show ?thesis
      by (auto simp: poller_inv_def Channel_create_def set_chan_def owned_def Channel_new_def)
  next
    case (step_change m a)
    then obtain c where c: "chans s a = Some c"
      by (auto simp: change_events_def deref_def split: option.splits)
    have "registry interest s'" by (rule change_events_registry [OF spec reg c own [OF c] step_change])
    moreover have "owned s' \<and> eventListSize s' = eventListSize s"
      using step_change i own [OF c]
      by (cases rule: change_events_cases [OF spec reg c own [OF c], of m])
        (auto simp: after_change_def changed_def owned_def split: if_splits)
    ultimately show ?thesis using i by (simp add: poller_inv_def)
  next
    case (step_remove a c)
    then have e: "events c = kNoneEvent"
      by (auto simp: RemoveFromPoller_def deref_def res_simps)
    from RemoveFromPoller_registered [OF spec reg step_remove(1) own [OF step_remove(1)] step_remove(2) e] step_remove(3)
    obtain k where k: "s' = after_remove a c k s" "interest k = (interest (kernel s))(chFd c := None)" by auto
    from after_remove_registry [OF reg step_remove(1,2) k(2)] k(1) i own [OF step_remove(1)]
    show ?thesis by (simp add: poller_inv_def owned_def after_remove_def)
  next
    case (step_destroy a)
    then obtain c where c: "chans s a = Some c" "\<not> registeredToPoller c"
      "s' = s\<lparr>chans := (chans s)(a := None)\<rparr>"
      by (auto simp: Channel_destroy_def deref_def res_simps split: option.splits)
    have "registry interest s'" unfolding c(3)
      using c(1,2) by (intro registry_unregistered [OF reg]) simp_all
    with i c(3) show ?thesis by (auto simp: poller_inv_def owned_def)
  next
    case (step_poll active)
    then obtain evs where w: "wait (kernel s) (eventListSize s) = Some evs"
      by (auto simp: Poll_def split: option.splits)
    from i have ws: "epoll_wait_spec wait interest" by simp
    from Poll_ok [OF ws reg w] step_poll have r: "registry interest s'" "16 \<le> eventListSize s'"
      using i by auto
    from step_poll w obtain s1 where s1: "rfold UpdateRevents evs s = Inr s1"
      "chans s' = chans s1" "loopId s' = loopId s1" by (auto simp: Poll_def res_simps)
    then have "owned s'" using owned_revents [OF s1(1)] i by (simp add: owned_def)
    with r i show ?thesis by (simp add: poller_inv_def)
  next
    case (step_read_cb a cb)
    then show ?thesis by (intro set_callback_inv [OF inv, of a "\<lambda>c. c\<lparr>readCallback := Some cb\<rparr>"])
      (simp_all add: SetReadCallback_def)
  next
    case (step_write_cb a cb)
    then show ?thesis by (intro set_callback_inv [OF inv, of a "\<lambda>c. c\<lparr>writeCallback := Some cb\<rparr>"])
      (simp_all add: SetWriteCallback_def)
  next
    case (step_close_cb a cb)
    then show ?thesis by (intro set_callback_inv [OF inv, of a "\<lambda>c. c\<lparr>closeCallback := Some cb\<rparr>"])
      (simp_all add: SetCloseCallback_def)
  next
    case (step_error_cb a cb)
    then show ?thesis by (intro set_callback_inv [OF inv, of a "\<lambda>c. c\<lparr>errorCallback := Some cb\<rparr>"])
      (simp_all add: SetErrorCallback_def)
  qed
qed

definition poller_init ::
    "'k epoll_ctl \<Rightarrow> ('k \<Rightarrow> nat \<Rightarrow> (32 word \<times> nat) list option) \<Rightarrow>
      ('k \<Rightarrow> int \<Rightarrow> (32 word \<times> nat) option) \<Rightarrow> ('cb, 'k) Poller \<Rightarrow> bool" where
  "poller_init ctl wait interest s \<longleftrightarrow> epoll_ctl_spec ctl interest \<and> epoll_wait_spec wait interest \<and>
     (\<exists>loop k. interest k = (\<lambda>fd. None) \<and> Poller_new loop (\<lambda>u. 3) k = Inr s)"

lemma poller_init_inv: "poller_init ctl wait interest s \<Longrightarrow> poller_inv ctl wait interest s"
  by (auto simp: poller_init_def poller_inv_def Poller_new_def registry_def owned_def map_wf_def
      kEventListSize_def)

interpretation poller: invariant "poller_init ctl wait interest" "poller_step ctl wait"
  "poller_inv ctl wait interest" for ctl wait interest
  by unfold_locales (auto intro: poller_init_inv poller_step_inv)

section \<open>Properties\<close>

text \<open>An epoll instance with a table, for the examples.\<close>

type_synonym table = "(int \<times> (32 word \<times> nat)) list"

fun table_ctl :: "table epoll_ctl" where
  "table_ctl CtlAdd fd ev k = (if map_of k fd = None then (0, (fd, ev) # k) else (- 1, k))"
| "table_ctl CtlMod fd ev k = (if map_of k fd = None then (- 1, k) else (0, (fd, ev) # k))"
| "table_ctl CtlDel fd ev k =
     (if map_of k fd = None then (- 1, k) else (0, filter (\<lambda>p. fst p \<noteq> fd) k))"

definition table_wait :: "table \<Rightarrow> nat \<Rightarrow> (32 word \<times> nat) list option" where
  "table_wait k n = Some (take n (case k of [] \<Rightarrow> [] | (fd, (ev, a)) # k \<Rightarrow> [(ev, a)]))"

lemma table_ctl_spec: "epoll_ctl_spec table_ctl (\<lambda>k. map_of k)"
  unfolding epoll_ctl_spec_def
proof (intro allI impI)
  fix op fd ev k ret k' assume "table_ctl op fd ev k = (ret, k')"
  then show "ret = 0 \<and> map_of k' = ctl_result op fd ev (map_of k) \<and> (map_of k fd = None) = (op = CtlAdd) \<or>
      ret = - 1 \<and> map_of k' = map_of k \<and> (map_of k fd \<noteq> None \<longrightarrow> op = CtlAdd)"
    by (cases op) (auto simp: fun_eq_iff map_of_filter_fst [of "\<lambda>x. x \<noteq> fd"] split: if_splits)
qed

lemma table_wait_spec: "epoll_wait_spec table_wait (\<lambda>k. map_of k)"
  by (auto simp: epoll_wait_spec_def table_wait_def dest!: in_set_takeD split: list.splits)

definition poller_start :: "(nat, table) Poller" where
  "poller_start = \<lparr>loopId = 7, chans = (\<lambda>a. None), kernel = [], channels = [], eventListSize = 16\<rparr>"

lemma poller_start_reach:
  "reach (poller_init table_ctl table_wait (\<lambda>k. map_of k)) (poller_step table_ctl table_wait) poller_start"
  by (rule reach_init)
    (auto simp: poller_init_def table_ctl_spec table_wait_spec Poller_new_def poller_start_def
      kEventListSize_def intro!: exI [of _ 7] exI [of _ "[]"])

text \<open>One channel for descriptor 4, reading.\<close>

definition poller_one :: "(nat, table) Poller" where
  "poller_one = (case change_events table_ctl True EnableReading 0 (Channel_create 0 7 4 poller_start) of
     Inl e \<Rightarrow> poller_start | Inr s \<Rightarrow> s)"

lemmas poller_eval = poller_start_def Channel_create_def Channel_new_def set_chan_def change_events_def
  deref_def RegisterToPoller_def Loop_UpdateChannel_def Poller_UpdateChannel_def mask_defs
  map_set_def RemoveFromPoller_def Loop_RemoveChannel_def Poller_RemoveChannel_def map_erase_def
  ENOENT_def

lemma poller_one_eq: "change_events table_ctl True EnableReading 0 (Channel_create 0 7 4 poller_start) = Inr poller_one"
  by (simp add: poller_one_def poller_eval)

lemma poller_one_reach:
  "reach (poller_init table_ctl table_wait (\<lambda>k. map_of k)) (poller_step table_ctl table_wait) poller_one"
proof -
  have "poller_step table_ctl table_wait poller_start (Channel_create 0 7 4 poller_start)"
    using step_create [of poller_start 0 table_ctl table_wait 4] by (simp add: poller_start_def)
  from reach_step [OF poller_start_reach this] show ?thesis
    by (rule reach_step) (rule step_change [OF poller_one_eq])
qed



text \<open>
  Operations on a registered channel do not fail: changing its events succeeds and the kernel
  monitors the new mask, and once it asks for no events, removing it succeeds and the kernel
  forgets the descriptor.  Removing a descriptor that the kernel does not know, in contrast, ends
  the process, because \<^verbatim>\<open>epoll_ctl\<close> reports -1 and never \<^verbatim>\<open>ENOENT\<close>.
\<close>

theorem registered_channel_operations:
  assumes "reach (poller_init ctl wait interest) (poller_step ctl wait) s" and "chans s a = Some c"
  shows "if registeredToPoller c
    then (\<exists>s1. change_events ctl True m a s = Inr s1 \<and>
        interest (kernel s1) = (interest (kernel s))(chFd c := Some (apply_mask m (events c), a))) \<and>
      (if events c = kNoneEvent
       then \<exists>s2. RemoveFromPoller ctl True a s = Inr s2 \<and>
         interest (kernel s2) = (interest (kernel s))(chFd c := None)
       else RemoveFromPoller ctl True a s = Inl Assertion)
    else interest (kernel s) (chFd c) = None \<and> events c = kNoneEvent \<longrightarrow>
      RemoveFromPoller ctl True a s = Inl Fatal"
proof -
  have inv: "poller_inv ctl wait interest s" using poller.reach_inv [OF assms(1)] .
  then have spec: "epoll_ctl_spec ctl interest" and reg: "registry interest s"
    and own: "ownerLoop c = loopId s" using assms(2) by (auto simp: poller_inv_def owned_def)
  show ?thesis
  proof (cases "registeredToPoller c")
    case False
    then show ?thesis using RemoveFromPoller_absent [OF spec assms(2) own] by simp
  next
    case True
    have "\<exists>s1. change_events ctl True m a s = Inr s1 \<and>
        interest (kernel s1) = (interest (kernel s))(chFd c := Some (apply_mask m (events c), a))"
      by (cases rule: change_events_cases [OF spec reg assms(2) own, of m])
        (use True in \<open>auto simp: after_change_def\<close>)
    moreover have "\<exists>s2. RemoveFromPoller ctl True a s = Inr s2 \<and>
        interest (kernel s2) = (interest (kernel s))(chFd c := None)" if "events c = kNoneEvent"
      using RemoveFromPoller_registered [OF spec reg assms(2) own True that]
      by (auto simp: after_remove_def)
    moreover have "RemoveFromPoller ctl True a s = Inl Assertion" if "events c \<noteq> kNoneEvent"
      using that assms(2) by (simp add: RemoveFromPoller_def deref_def)
    ultimately show ?thesis using True by simp
  qed
qed

theorem registered_channel_operations_witness:
  "\<exists>s1. change_events table_ctl True EnableWriting 0 poller_one = Inr s1 \<and>
    map_of (kernel s1) 4 = Some (5, 0)"
proof -
  have c: "chans poller_one 0 = Some (changed EnableReading (Channel_new 7 4))"
    by (simp add: poller_one_def poller_eval changed_def)
  from registered_channel_operations [OF poller_one_reach c, of EnableWriting] show ?thesis
    by (auto simp: changed_def Channel_new_def mask_defs)
qed

text \<open>
  Polling in a reachable state: an answer of \<^verbatim>\<open>epoll_wait\<close> is handed out completely,
  every channel handed out is live and registered and has received its events, the consistency of
  the registry is kept, and the event list doubles exactly when the answer filled it.  An
  \<^verbatim>\<open>epoll_wait\<close> that returns -1 (a signal is enough) fails the assertion.
\<close>

theorem Poll_delivers:
  assumes "reach (poller_init ctl wait interest) (poller_step ctl wait) s"
  shows "case wait (kernel s) (eventListSize s) of
      None \<Rightarrow> Poll wait True s = Inl Assertion
    | Some evs \<Rightarrow> \<exists>s'. Poll wait True s = Inr (map snd evs, s') \<and>
        (\<forall>a\<in>set (map snd evs). \<exists>c. chans s' a = Some c \<and> registeredToPoller c) \<and>
        (distinct (map snd evs) \<longrightarrow> (\<forall>(ev, a)\<in>set evs. \<exists>c. chans s' a = Some c \<and> revents c = ev)) \<and>
        eventListSize s' = (if length evs = eventListSize s then 2 * eventListSize s else eventListSize s)"
proof -
  have inv: "epoll_wait_spec wait interest" "registry interest s"
    using poller.reach_inv [OF assms] by (auto simp: poller_inv_def)
  show ?thesis
  proof (cases "wait (kernel s) (eventListSize s)")
    case None
    then show ?thesis by (simp add: Poll_def)
  next
    case (Some evs)
    from Poll_ok [OF inv Some] show ?thesis unfolding Some option.case by blast
  qed
qed

theorem Poll_delivers_witness:
  "\<exists>s'. Poll table_wait True poller_one = Inr ([0], s') \<and> (\<exists>c. chans s' 0 = Some c \<and> revents c = 1)"
proof -
  have "table_wait (kernel poller_one) (eventListSize poller_one) = Some [(1, 0)]"
    by (simp add: poller_one_def poller_eval table_wait_def)
  with Poll_delivers [OF poller_one_reach] show ?thesis by auto
qed

definition optional :: "'a option \<Rightarrow> 'a list" where
  "optional x = (case x of None \<Rightarrow> [] | Some y \<Rightarrow> [y])"

lemma optional_simps [simp]: "optional None = []" "optional (Some y) = [y]"
  by (simp_all add: optional_def)

text \<open>The callbacks that \<^verbatim>\<open>HandleEvent\<close> selects, in the order of its branches.\<close>

definition selected :: "'cb Channel \<Rightarrow> 'cb list" where
  "selected c =
     (if revents c AND (EPOLLIN OR EPOLLPRI OR EPOLLRDHUP) \<noteq> 0 then optional (readCallback c) else []) @
     (if revents c AND EPOLLOUT \<noteq> 0 then optional (writeCallback c) else []) @
     (if revents c AND EPOLLERR \<noteq> 0 then optional (errorCallback c) else []) @
     (if revents c AND EPOLLHUP \<noteq> 0 then optional (closeCallback c) else [])"

definition same_dispatch :: "'cb Channel \<Rightarrow> 'cb Channel \<Rightarrow> bool" where
  "same_dispatch c d \<longleftrightarrow> revents d = revents c \<and> readCallback d = readCallback c \<and>
     writeCallback d = writeCallback c \<and> closeCallback d = closeCallback c \<and>
     errorCallback d = errorCallback c"

text \<open>A callback that neither frees the channel nor changes what is dispatched.\<close>

definition keeps_dispatch :: "('cb \<Rightarrow> ('cb, 'k, 'z) Poller_scheme \<Rightarrow> ('cb, 'k, 'z) Poller_scheme res) \<Rightarrow> nat \<Rightarrow> 'cb Channel \<Rightarrow> bool" where
  "keeps_dispatch call a c \<longleftrightarrow> (\<forall>cb t t' d. chans t a = Some d \<and> same_dispatch c d \<and> call cb t = Inr t' \<longrightarrow>
     (\<exists>d'. chans t' a = Some d' \<and> same_dispatch c d'))"

definition has_dispatch :: "nat \<Rightarrow> 'cb Channel \<Rightarrow> ('cb, 'k, 'z) Poller_scheme \<Rightarrow> bool" where
  "has_dispatch a c s \<longleftrightarrow> (\<exists>d. chans s a = Some d \<and> same_dispatch c d)"

definition branch :: "'cb Channel \<Rightarrow> 32 word \<Rightarrow> 'cb option \<Rightarrow> 'cb list" where
  "branch c msk x = (if revents c AND msk \<noteq> 0 then optional x else [])"

lemma dispatch_branch:
  assumes "has_dispatch a c s" and sel: "\<And>e. same_dispatch c e \<Longrightarrow> sel e = sel c"
  shows "dispatch call a msk sel s = rfold call (branch c msk (sel c)) s"
proof -
  from assms(1) obtain d where d: "chans s a = Some d" "same_dispatch c d" by (auto simp: has_dispatch_def)
  then have "revents d = revents c" "sel d = sel c" using sel [OF d(2)] by (simp_all add: same_dispatch_def)
  with d(1) show ?thesis by (cases "sel c") (simp_all add: dispatch_def deref_def branch_def)
qed

lemma branch_keeps:
  assumes "has_dispatch a c s" "keeps_dispatch call a c" "rfold call (branch c msk x) s = Inr s'"
  shows "has_dispatch a c s'"
proof (cases "branch c msk x")
  case Nil
  with assms show ?thesis by simp
next
  case (Cons cb cbs)
  then have "branch c msk x = [cb]" by (cases x) (auto simp: branch_def split: if_splits)
  with assms(3) have "call cb s = Inr s'" by simp
  with assms(1,2) show ?thesis unfolding has_dispatch_def keeps_dispatch_def by blast
qed

lemma dispatch_chain:
  assumes h: "has_dispatch a c s" and keep: "keeps_dispatch call a c"
    and sel: "\<And>e. same_dispatch c e \<Longrightarrow> sel e = sel c"
    and k: "\<And>t. has_dispatch a c t \<Longrightarrow> k t = rfold call rest t"
  shows "rbind (dispatch call a msk sel s) k = rfold call (branch c msk (sel c) @ rest) s"
proof -
  have e: "dispatch call a msk sel s = rfold call (branch c msk (sel c)) s"
    by (rule dispatch_branch [OF h]) (rule sel)
  show ?thesis
  proof (cases "rfold call (branch c msk (sel c)) s")
    case (Inl f)
    then show ?thesis by (simp add: e rfold_append)
  next
    case (Inr t)
    with branch_keeps [OF h keep] k have "k t = rfold call rest t" by blast
    then show ?thesis using Inr by (simp add: e rfold_append)
  qed
qed

text \<open>
  Event dispatch: as long as the callbacks neither free the channel nor change its event
  word and callbacks (they may change its registration and anything else), \<^verbatim>\<open>HandleEvent\<close>
  runs exactly the callbacks that the event word selects, each once, in the order read, write,
  error, close, and faults only if one of them does.
\<close>

theorem HandleEvent_dispatch:
  assumes "chans s a = Some c" and "keeps_dispatch call a c"
  shows "HandleEvent call True a s = rfold call (selected c) s"
proof -
  have h: "has_dispatch a c s" using assms(1) by (simp add: has_dispatch_def same_dispatch_def)
  have last: "dispatch call a EPOLLHUP closeCallback t =
      rfold call (branch c EPOLLHUP (closeCallback c)) t" if "has_dispatch a c t" for t
    using that by (rule dispatch_branch) (simp add: same_dispatch_def)
  have "HandleEvent call True a s =
      rfold call (branch c (EPOLLIN OR EPOLLPRI OR EPOLLRDHUP) (readCallback c) @
        (branch c EPOLLOUT (writeCallback c) @ (branch c EPOLLERR (errorCallback c) @
          branch c EPOLLHUP (closeCallback c)))) s"
    unfolding HandleEvent_def deref_def assms(1) option.case ensure_True [OF TrueI]
    by (rule dispatch_chain [OF h assms(2)], simp add: same_dispatch_def,
        rule dispatch_chain [OF _ assms(2)], assumption, simp add: same_dispatch_def,
        rule dispatch_chain [OF _ assms(2)], assumption, simp add: same_dispatch_def,
        rule last)
  then show ?thesis by (simp only: selected_def branch_def)
qed

text \<open>A callback that only records its number.\<close>

theorem HandleEvent_dispatch_witness:
  "HandleEvent (\<lambda>n s. Inr (s\<lparr>eventListSize := 100 * eventListSize s + n\<rparr>)) True 0
     (set_chan 0 \<lparr>ownerLoop = 7, registeredToPoller = True, chFd = 4, events = 5, revents = 0x15,
        readCallback = Some 1, writeCallback = Some 2, closeCallback = Some 3, errorCallback = Some 4\<rparr>
        (poller_start\<lparr>eventListSize := 0\<rparr>)) =
   Inr (set_chan 0 \<lparr>ownerLoop = 7, registeredToPoller = True, chFd = 4, events = 5, revents = 0x15,
        readCallback = Some 1, writeCallback = Some 2, closeCallback = Some 3, errorCallback = Some 4\<rparr>
        (poller_start\<lparr>eventListSize := 10203\<rparr>))"
proof -
  let ?c = "\<lparr>ownerLoop = 7, registeredToPoller = True, chFd = 4, events = 5, revents = 0x15,
        readCallback = Some 1, writeCallback = Some 2, closeCallback = Some 3, errorCallback = Some 4\<rparr> :: nat Channel"
  let ?call = "\<lambda>n s. Inr (s\<lparr>eventListSize := 100 * eventListSize s + n\<rparr>) :: (nat, table) Poller res"
  have "keeps_dispatch ?call 0 ?c" by (auto simp: keeps_dispatch_def)
  from HandleEvent_dispatch [OF _ this, of "set_chan 0 ?c (poller_start\<lparr>eventListSize := 0\<rparr>)"]
  show ?thesis by (simp add: set_chan_def selected_def mask_defs)
qed

text \<open>
  The event masks: enabling reading asks the kernel for \<^verbatim>\<open>EPOLLIN\<close> alone (the mask
  was written with the logical operator, so urgent data is not asked for), enabling and disabling
  undo each other on the read and the write bit, each leaves the other bit alone, and
  \<^verbatim>\<open>IsNoneEvent\<close> is false for every channel, even one that asks for nothing.
\<close>

theorem event_masks:
  "IsReading (changed EnableReading c) \<and> \<not> IsReading (changed DisableReading c) \<and>
    IsWriting (changed EnableWriting c) \<and> \<not> IsWriting (changed DisableWriting c) \<and>
    IsWriting (changed EnableReading c) = IsWriting c \<and> IsWriting (changed DisableReading c) = IsWriting c \<and>
    IsReading (changed EnableWriting c) = IsReading c \<and> IsReading (changed DisableWriting c) = IsReading c \<and>
    events (changed EnableReading c) = events c OR EPOLLIN \<and>
    events (changed DisableAll c) = 0 \<and> \<not> IsNoneEvent c"
proof -
  have bits: "x AND 1 \<noteq> 0 \<longleftrightarrow> bit x 0" "x AND 4 \<noteq> 0 \<longleftrightarrow> bit x 2" for x :: "32 word"
    using and_exp_eq_0_iff_not_bit [of x 0] and_exp_eq_0_iff_not_bit [of x 2] by auto
  show ?thesis
    by (simp add: IsReading_def IsWriting_def IsNoneEvent_def changed_def mask_defs bits
        bit_and_iff bit_or_iff bit_not_iff)
qed

end
