(* ===== verification/Sync.thy ===== *)
theory Sync
  imports Prelude
begin

text \<open>
  Thread primitives: \<^verbatim>\<open>src/thread/Atomic.h\<close>, \<^verbatim>\<open>src/thread/Mutex.h\<close>,
  \<^verbatim>\<open>src/thread/Condition.h\<close>, \<^verbatim>\<open>src/thread/CountDownLatch.cc\<close>,
  \<^verbatim>\<open>src/thread/CurrentThread.cc\<close>, \<^verbatim>\<open>src/thread/Thread.cc\<close> and
  \<^verbatim>\<open>src/utils/Singleton.h\<close>, \<^verbatim>\<open>src/utils/WeakCallback.h\<close>.

  Threads are interleaved step by step.  A pthread mutex has an owner, a condition variable a set
  of sleeping threads; the classes of the library add the state written here.
\<close>

section \<open>Atomic integers\<close>

text \<open>Each operation returns its value and the new content, at the width of the type.\<close>

definition AtomicGet :: "'w::len word \<Rightarrow> 'w word \<times> 'w word" where
  "AtomicGet v = (v, v)"

definition GetAndSet :: "'w::len word \<Rightarrow> 'w word \<Rightarrow> 'w word \<times> 'w word" where
  "GetAndSet newValue v = (v, newValue)"

definition GetAndAdd :: "'w::len word \<Rightarrow> 'w word \<Rightarrow> 'w word \<times> 'w word" where
  "GetAndAdd x v = (v, v + x)"

definition AddAndGet :: "'w::len word \<Rightarrow> 'w word \<Rightarrow> 'w word \<times> 'w word" where
  "AddAndGet x v = (v + x, v + x)"

definition IncrementAndGet :: "'w::len word \<Rightarrow> 'w word \<times> 'w word" where
  "IncrementAndGet v = AddAndGet 1 v"

definition DecrementAndGet :: "'w::len word \<Rightarrow> 'w word \<times> 'w word" where
  "DecrementAndGet v = AddAndGet (- 1) v"

text \<open>Handing out numbers: \<open>n\<close> increments return \<open>n\<close> different values before the counter wraps.\<close>

fun increments :: "nat \<Rightarrow> 'w::len word \<Rightarrow> 'w word list" where
  "increments 0 v = []"
| "increments (Suc n) v = (let (r, v1) = IncrementAndGet v in r # increments n v1)"

lemma increments_eq: "increments n v = map (\<lambda>i. v + word_of_nat (Suc i)) [0..<n]"
proof (induction n arbitrary: v)
  case (Suc n)
  have "map (\<lambda>i. v + 1 + word_of_nat (Suc i)) [0..<n] = map (\<lambda>i. v + word_of_nat (Suc i)) [Suc 0..<Suc n]"
    by (simp add: map_Suc_upt [symmetric] add.assoc del: upt_Suc)
  with Suc show ?case
    by (simp add: IncrementAndGet_def AddAndGet_def upt_rec [of 0 "Suc n"] del: upt_Suc)
qed simp

lemma increments_distinct:
  "n \<le> 2 ^ LENGTH('w) \<Longrightarrow> distinct (increments n (v :: 'w::len word))"
  unfolding increments_eq distinct_map
  by (auto simp: inj_on_def word_of_nat_eq_iff take_bit_nat_eq_self)

section \<open>The cached thread id\<close>

text \<open>\<open>t_tid\<close> is thread local; zero means not cached.  The kernel's answer is an argument.\<close>

definition Tid :: "int \<Rightarrow> int \<Rightarrow> int \<times> int" where
  "Tid gettid t_tid = (if t_tid = 0 then (gettid, gettid) else (t_tid, t_tid))"

definition IsMainThread :: "int \<Rightarrow> int \<Rightarrow> int \<Rightarrow> bool" where
  "IsMainThread getpid gettid t_tid \<longleftrightarrow> fst (Tid gettid t_tid) = getpid"

lemma Tid_cached: "t_tid = 0 \<or> t_tid = gettid \<Longrightarrow> Tid gettid t_tid = (gettid, gettid)"
  by (auto simp: Tid_def)

section \<open>Mutex and condition variable\<close>

text \<open>
  Where a thread stands: outside, with the pthread mutex but not yet recorded as the holder, in
  the critical section, on the way out with the record cleared, asleep in a condition variable,
  or woken and waiting to get the mutex back.
\<close>

datatype lock_pc = Outside | Acquired | Inside | Leaving | GoingToSleep | Sleeping | Woken

record MutexLock =
  mowner :: "int option"
  holder :: int
  lpc :: "int \<Rightarrow> lock_pc"

definition MutexLock_new :: MutexLock where
  "MutexLock_new = \<lparr>mowner = None, holder = 0, lpc = (\<lambda>t. Outside)\<rparr>"

definition AssignHolder :: "int \<Rightarrow> MutexLock \<Rightarrow> MutexLock" where
  "AssignHolder tid m = m\<lparr>holder := tid\<rparr>"

definition UnassignHolder :: "MutexLock \<Rightarrow> MutexLock" where
  "UnassignHolder m = m\<lparr>holder := 0\<rparr>"

definition LockedByThisThread :: "int \<Rightarrow> MutexLock \<Rightarrow> bool" where
  "LockedByThisThread tid m \<longleftrightarrow> holder m = tid"

text \<open>\<^verbatim>\<open>pthread_mutex_lock\<close> returns only when the mutex is free; unlocking frees it.\<close>

definition pthread_lock :: "int \<Rightarrow> MutexLock \<Rightarrow> MutexLock" where
  "pthread_lock t m = m\<lparr>mowner := Some t\<rparr>"

definition pthread_unlock :: "MutexLock \<Rightarrow> MutexLock" where
  "pthread_unlock m = m\<lparr>mowner := None\<rparr>"

definition goto :: "int \<Rightarrow> lock_pc \<Rightarrow> MutexLock \<Rightarrow> MutexLock" where
  "goto t p m = m\<lparr>lpc := (lpc m)(t := p)\<rparr>"

text \<open>The two statements of \<^verbatim>\<open>Lock\<close> and of \<^verbatim>\<open>Unlock\<close>, and those of \<^verbatim>\<open>Wait\<close>.\<close>

inductive mutex_step :: "MutexLock \<Rightarrow> MutexLock \<Rightarrow> bool" where
  lock1: "\<lbrakk>t \<noteq> 0; lpc m t = Outside; mowner m = None\<rbrakk> \<Longrightarrow> mutex_step m (goto t Acquired (pthread_lock t m))"
| lock2: "lpc m t = Acquired \<Longrightarrow> mutex_step m (goto t Inside (AssignHolder t m))"
| unlock1: "lpc m t = Inside \<Longrightarrow> mutex_step m (goto t Leaving (UnassignHolder m))"
| unlock2: "lpc m t = Leaving \<Longrightarrow> mutex_step m (goto t Outside (pthread_unlock m))"
| wait1: "\<lbrakk>lpc m t = Inside; LockedByThisThread t m\<rbrakk> \<Longrightarrow>
    mutex_step m (goto t GoingToSleep (UnassignHolder m))"
| wait2: "lpc m t = GoingToSleep \<Longrightarrow> mutex_step m (goto t Sleeping (pthread_unlock m))"
| signal: "lpc m t = Sleeping \<Longrightarrow> mutex_step m (goto t Woken m)"
| wait3: "\<lbrakk>lpc m t = Woken; mowner m = None\<rbrakk> \<Longrightarrow> mutex_step m (goto t Acquired (pthread_lock t m))"

inductive_cases mutex_stepE: "mutex_step m m'"

definition owning :: "lock_pc \<Rightarrow> bool" where
  "owning p \<longleftrightarrow> p = Acquired \<or> p = Inside \<or> p = Leaving \<or> p = GoingToSleep"

definition mutex_inv :: "MutexLock \<Rightarrow> bool" where
  "mutex_inv m \<longleftrightarrow> (\<forall>t. owning (lpc m t) \<longleftrightarrow> mowner m = Some t) \<and> lpc m 0 = Outside \<and>
     (\<forall>t. t \<noteq> 0 \<longrightarrow> (holder m = t \<longleftrightarrow> lpc m t = Inside))"

lemma owning_simps [simp]: "owning Acquired" "owning Inside" "owning Leaving" "owning GoingToSleep"
  "\<not> owning Outside" "\<not> owning Sleeping" "\<not> owning Woken"
  by (simp_all add: owning_def)

lemma mutex_step_inv:
  assumes inv: "mutex_inv m" and st: "mutex_step m m'"
  shows "mutex_inv m'"
proof -
  from inv have own: "\<And>t. owning (lpc m t) \<longleftrightarrow> mowner m = Some t" and zero: "lpc m 0 = Outside"
    and hold: "\<And>t. t \<noteq> 0 \<Longrightarrow> holder m = t \<longleftrightarrow> lpc m t = Inside" by (auto simp: mutex_inv_def)
  have mine: "mowner m = Some t" if "owning (lpc m t)" for t using that own by blast
  have others: "\<not> owning (lpc m u)" "lpc m u \<noteq> Inside" if "mowner m = Some t" "u \<noteq> t" for t u
    using that own [of u] by (auto simp del: owning_simps) (metis owning_simps(2))
  have none: "\<not> owning (lpc m u)" "lpc m u \<noteq> Inside" if "mowner m = None" for u
    using that own [of u] by (auto simp del: owning_simps) (metis owning_simps(2))
  note defs = mutex_inv_def goto_def pthread_lock_def pthread_unlock_def AssignHolder_def UnassignHolder_def
  from st show ?thesis
  proof cases
    case (lock1 t)
    then show ?thesis using zero none hold by (simp add: defs)
  next
    case (lock2 t)
    then have "t \<noteq> 0" "mowner m = Some t" using zero mine [of t] by auto
    then show ?thesis using lock2 zero others by (simp add: defs)
  next
    case (unlock1 t)
    then have "t \<noteq> 0" "mowner m = Some t" using zero mine [of t] by auto
    then show ?thesis using unlock1 zero others by (simp add: defs)
  next
    case (unlock2 t)
    then have "t \<noteq> 0" "mowner m = Some t" using zero mine [of t] by auto
    then show ?thesis using unlock2 zero others hold by (simp add: defs)
  next
    case (wait1 t)
    then have "t \<noteq> 0" "mowner m = Some t" using zero mine [of t] by auto
    then show ?thesis using wait1 zero others by (simp add: defs)
  next
    case (wait2 t)
    then have "t \<noteq> 0" "mowner m = Some t" using zero mine [of t] by auto
    then show ?thesis using wait2 zero others hold by (simp add: defs)
  next
    case (signal t)
    then have "t \<noteq> 0" using zero by auto
    then show ?thesis using signal own [of t] own zero hold by (simp add: defs)
  next
    case (wait3 t)
    then have "t \<noteq> 0" using zero by auto
    then show ?thesis using wait3 zero none hold by (simp add: defs)
  qed
qed

interpretation mutex: invariant "\<lambda>m. m = MutexLock_new" mutex_step mutex_inv
proof unfold_locales
  show "mutex_inv m" if "m = MutexLock_new" for m
    using that by (simp add: mutex_inv_def MutexLock_new_def)
qed (fact mutex_step_inv)

section \<open>Count down latch\<close>

text \<open>\<open>latchSleep\<close> threads sleep in \<^verbatim>\<open>cond_\<close>, \<open>latchWoken\<close> have been woken and look again.\<close>

record CountDownLatch =
  latchCount :: int
  latchSleep :: nat
  latchWoken :: nat
  latchPassed :: nat

definition CountDownLatch_new :: "int \<Rightarrow> CountDownLatch" where
  "CountDownLatch_new count = \<lparr>latchCount = count, latchSleep = 0, latchWoken = 0, latchPassed = 0\<rparr>"

definition latch_NotifyAll :: "CountDownLatch \<Rightarrow> CountDownLatch" where
  "latch_NotifyAll l = l\<lparr>latchSleep := 0, latchWoken := latchWoken l + latchSleep l\<rparr>"

definition CountDown :: "CountDownLatch \<Rightarrow> CountDownLatch res" where
  "CountDown l =
     require (- (2 ^ 31) < latchCount l)
       (let l1 = l\<lparr>latchCount := latchCount l - 1\<rparr> in
        Inr (if latchCount l1 = 0 then latch_NotifyAll l1 else l1))"

text \<open>One evaluation of the loop condition of \<^verbatim>\<open>Wait\<close>.\<close>

definition latch_Wait :: "CountDownLatch \<Rightarrow> CountDownLatch" where
  "latch_Wait l =
     (if latchCount l > 0 then l\<lparr>latchSleep := Suc (latchSleep l)\<rparr>
      else l\<lparr>latchPassed := Suc (latchPassed l)\<rparr>)"

definition GetCount :: "CountDownLatch \<Rightarrow> int" where
  "GetCount l = latchCount l"

inductive latch_step :: "CountDownLatch \<Rightarrow> CountDownLatch \<Rightarrow> bool" where
  count_down: "CountDown l = Inr l' \<Longrightarrow> latch_step l l'"
| wait: "latch_step l (latch_Wait l)"
| rerun: "0 < latchWoken l \<Longrightarrow> latch_step l (latch_Wait (l\<lparr>latchWoken := latchWoken l - 1\<rparr>))"
| spurious: "0 < latchSleep l \<Longrightarrow>
    latch_step l (l\<lparr>latchSleep := latchSleep l - 1, latchWoken := Suc (latchWoken l)\<rparr>)"

definition latch_inv :: "CountDownLatch \<Rightarrow> bool" where
  "latch_inv l \<longleftrightarrow> (0 < latchSleep l \<longrightarrow> 0 < latchCount l) \<and> (0 < latchPassed l \<longrightarrow> latchCount l \<le> 0)"

lemma latch_step_inv: "latch_inv l \<Longrightarrow> latch_step l l' \<Longrightarrow> latch_inv l'"
  by (erule latch_step.cases)
    (auto simp: latch_inv_def CountDown_def latch_NotifyAll_def latch_Wait_def res_simps Let_def
      split: if_splits)

interpretation latch: invariant "\<lambda>l. l = CountDownLatch_new n" latch_step latch_inv for n
proof unfold_locales
  show "latch_inv l" if "l = CountDownLatch_new n" for l
    using that by (simp add: latch_inv_def CountDownLatch_new_def)
qed (fact latch_step_inv)

section \<open>Threads\<close>

text \<open>
  A \<^verbatim>\<open>Thread\<close> object and the pthread it creates.  The new thread stores its id in the
  object, counts the latch down, and then runs the function; \<^verbatim>\<open>Start\<close> waits for the latch.
\<close>

datatype child = NotCreated | Created | TidStored | Running | Finished

record Thread =
  threadName :: string
  started :: bool
  joined :: bool
  detached :: bool
  threadTid :: int
  threadLatch :: CountDownLatch
  child :: child
  starting :: bool

definition Thread_new :: "int \<Rightarrow> string \<Rightarrow> Thread" where
  "Thread_new num name =
     \<lparr>threadName = (if name = [] then ''Thread'' @ show_int num else name), started = False,
      joined = False, detached = False, threadTid = 0, threadLatch = CountDownLatch_new 1,
      child = NotCreated, starting = False\<rparr>"

text \<open>\<^verbatim>\<open>Start\<close> up to \<^verbatim>\<open>latch_.Wait()\<close>, and its return.\<close>

definition Thread_Start :: "int \<Rightarrow> Thread \<Rightarrow> Thread res" where
  "Thread_Start pthread_create t =
     (if pthread_create \<noteq> 0 then Inl Fatal
      else Inr (t\<lparr>started := True, child := Created, starting := True\<rparr>))"

definition Thread_Start_return :: "Thread \<Rightarrow> Thread res" where
  "Thread_Start_return t = ensure (threadTid t > 0) (Inr (t\<lparr>starting := False\<rparr>))"

text \<open>The statements of \<^verbatim>\<open>ThreadData::RunInThread\<close>.\<close>

definition child_store_tid :: "int \<Rightarrow> Thread \<Rightarrow> Thread" where
  "child_store_tid gettid t = t\<lparr>threadTid := fst (Tid gettid 0), child := TidStored\<rparr>"

definition child_count_down :: "Thread \<Rightarrow> Thread res" where
  "child_count_down t =
     rbind (CountDown (threadLatch t)) (\<lambda>l. Inr (t\<lparr>threadLatch := l, child := Running\<rparr>))"

definition child_return :: "Thread \<Rightarrow> Thread" where
  "child_return t = t\<lparr>child := Finished\<rparr>"

definition Thread_Join :: "Thread \<Rightarrow> Thread res" where
  "Thread_Join t = ensure (started t) (ensure (\<not> joined t) (Inr (t\<lparr>joined := True\<rparr>)))"

definition Thread_destroy :: "Thread \<Rightarrow> Thread" where
  "Thread_destroy t = (if started t \<and> \<not> joined t then t\<lparr>detached := True\<rparr> else t)"

inductive thread_step :: "int \<Rightarrow> Thread \<Rightarrow> Thread \<Rightarrow> bool" for g :: int where
  start: "\<lbrakk>\<not> started t; Thread_Start 0 t = Inr t'\<rbrakk> \<Longrightarrow> thread_step g t t'"
| store: "child t = Created \<Longrightarrow> thread_step g t (child_store_tid g t)"
| count: "\<lbrakk>child t = TidStored; child_count_down t = Inr t'\<rbrakk> \<Longrightarrow> thread_step g t t'"
| finish: "child t = Running \<Longrightarrow> thread_step g t (child_return t)"
| start_return: "\<lbrakk>starting t; latchCount (threadLatch t) \<le> 0; Thread_Start_return t = Inr t'\<rbrakk> \<Longrightarrow>
    thread_step g t t'"
| join: "\<lbrakk>child t = Finished; Thread_Join t = Inr t'\<rbrakk> \<Longrightarrow> thread_step g t t'"

definition thread_inv :: "int \<Rightarrow> Thread \<Rightarrow> bool" where
  "thread_inv g t \<longleftrightarrow>
     latchCount (threadLatch t) = (if child t = Running \<or> child t = Finished then 0 else 1) \<and>
     (child t = TidStored \<or> child t = Running \<or> child t = Finished \<longrightarrow> threadTid t = g) \<and>
     (child t = NotCreated \<longleftrightarrow> \<not> started t)"

lemma thread_step_inv: "thread_inv g t \<Longrightarrow> thread_step g t t' \<Longrightarrow> thread_inv g t'"
  by (erule thread_step.cases)
    (auto simp: thread_inv_def Thread_Start_def child_store_tid_def child_count_down_def
      child_return_def Thread_Start_return_def Thread_Join_def Tid_def CountDown_def
      latch_NotifyAll_def Let_def res_simps)

interpretation thread: invariant "\<lambda>t. \<exists>num name. t = Thread_new num name" "thread_step g" "thread_inv g" for g
proof unfold_locales
  show "thread_inv g t" if "\<exists>num name. t = Thread_new num name" for t
    using that by (auto simp: thread_inv_def Thread_new_def CountDownLatch_new_def)
qed (fact thread_step_inv)

text \<open>The assert after the wait in \<^verbatim>\<open>Start\<close> cannot fail.\<close>

lemma Thread_Start_assert:
  assumes "reach (\<lambda>t. \<exists>num name. t = Thread_new num name) (thread_step g) t" and "0 < g"
    and "latchCount (threadLatch t) \<le> 0"
  shows "Thread_Start_return t = Inr (t\<lparr>starting := False\<rparr>)"
  using thread.reach_inv [OF assms(1)] assms(2,3)
  by (auto simp: thread_inv_def Thread_Start_return_def split: if_splits)

section \<open>The thread's own data\<close>

text \<open>The thread-local variables of \<^verbatim>\<open>CurrentThread\<close>, as they are initialised and for the main thread.\<close>

record thread_locals =
  t_tid :: int
  t_name :: string

definition thread_locals_new :: thread_locals where
  "thread_locals_new = \<lparr>t_tid = 0, t_name = ''unknown''\<rparr>"

definition MainThreadInitializer :: "int \<Rightarrow> thread_locals \<Rightarrow> thread_locals" where
  "MainThreadInitializer gettid l = l\<lparr>t_tid := snd (Tid gettid (t_tid l)), t_name := ''MainThread''\<rparr>"

definition CurrentThread_Name :: "thread_locals \<Rightarrow> string" where
  "CurrentThread_Name l = t_name l"

text \<open>
  The thread function of \<^verbatim>\<open>Thread\<close> with the data it is given: the statements of \<^verbatim>\<open>RunInThread\<close>, of which \<open>func\<close>
  is the user's function, and then the data is deleted.
\<close>

definition pthreadFunc :: "int \<Rightarrow> (thread_locals \<Rightarrow> thread_locals) \<Rightarrow> Thread \<times> thread_locals \<Rightarrow> (Thread \<times> thread_locals) res" where
  "pthreadFunc gettid func = (\<lambda>(t, l).
     let l1 = l\<lparr>t_tid := snd (Tid gettid (t_tid l))\<rparr> in
     rbind (child_count_down (child_store_tid gettid t)) (\<lambda>t1.
       Inr (child_return t1, func (l1\<lparr>t_name := threadName t\<rparr>))))"

text \<open>
  Every pthread starts with fresh thread-local variables.  The function runs with the id and the name of its
  \<^verbatim>\<open>Thread\<close> object, after the object has got the id, and is a run of the steps of the object's protocol.
\<close>

lemma pthreadFunc_runs:
  assumes "reach (\<lambda>t. \<exists>num name. t = Thread_new num name) (thread_step g) t" and "child t = Created"
  shows "\<exists>t'. pthreadFunc g func (t, thread_locals_new) = Inr (t', func \<lparr>t_tid = g, t_name = threadName t\<rparr>) \<and>
    (thread_step g)\<^sup>*\<^sup>* t t' \<and> child t' = Finished \<and> threadTid t' = g"
proof -
  have i: "thread_inv g t" by (rule thread.reach_inv [OF assms(1)])
  have "latchCount (threadLatch t) = 1" using i assms(2) by (simp add: thread_inv_def)
  then obtain t1 where t1: "child_count_down (child_store_tid g t) = Inr t1" "child t1 = Running" "threadTid t1 = g"
    by (auto simp: child_count_down_def child_store_tid_def CountDown_def Tid_def)
  have "thread_step g t (child_store_tid g t)" using assms(2) by (rule thread_step.store)
  moreover have "thread_step g (child_store_tid g t) t1"
    using t1(1) by (intro thread_step.count) (simp_all add: child_store_tid_def)
  moreover have "thread_step g t1 (child_return t1)" using t1(2) by (rule thread_step.finish)
  ultimately have "(thread_step g)\<^sup>*\<^sup>* t (child_return t1)" by (meson rtranclp.rtrancl_into_rtrancl rtranclp.rtrancl_refl)
  then show ?thesis using t1 by (simp add: pthreadFunc_def thread_locals_new_def Tid_def child_return_def)
qed

section \<open>Singletons and weak callbacks\<close>

text \<open>\<open>instances\<close> counts the calls of the constructor, \<open>registered\<close> those of \<^verbatim>\<open>atexit\<close>.\<close>

record Singleton =
  initFlag :: bool
  instancePtr :: "nat option"
  instances :: nat
  atexits :: nat

definition Singleton_new :: Singleton where
  "Singleton_new = \<lparr>initFlag = False, instancePtr = None, instances = 0, atexits = 0\<rparr>"

definition Singleton_Init :: "Singleton \<Rightarrow> Singleton" where
  "Singleton_Init s = s\<lparr>instancePtr := Some (instances s), instances := Suc (instances s),
     atexits := Suc (atexits s)\<rparr>"

definition GetInstance :: "Singleton \<Rightarrow> (nat \<times> Singleton) res" where
  "GetInstance s =
     (let s1 = (if initFlag s then s else (Singleton_Init s)\<lparr>initFlag := True\<rparr>) in
      case instancePtr s1 of None \<Rightarrow> Inl Undefined | Some p \<Rightarrow> Inr (p, s1))"

definition Destory :: "Singleton \<Rightarrow> Singleton" where
  "Destory s = s\<lparr>instancePtr := None\<rparr>"

text \<open>The first call constructs, every later one returns the same object, until the exit handler ran.\<close>

lemma GetInstance_once:
  "GetInstance Singleton_new = Inr (0, s1) \<Longrightarrow> GetInstance s1 = Inr (0, s1) \<and> instances s1 = 1 \<and>
    GetInstance (Destory s1) = Inl Undefined"
  by (auto simp: GetInstance_def Singleton_new_def Singleton_Init_def Destory_def Let_def)

text \<open>\<^verbatim>\<open>WeakCallback\<close> calls the function only while the object is alive.\<close>

definition WeakCallback_call :: "('o \<Rightarrow> 'a \<Rightarrow> 's \<Rightarrow> 's res) \<Rightarrow> 'o option \<Rightarrow> 'a \<Rightarrow> 's \<Rightarrow> 's res" where
  "WeakCallback_call functor locked args s =
     (case locked of None \<Rightarrow> Inr s | Some ob \<Rightarrow> functor ob args s)"

section \<open>Properties\<close>

text \<open>
  C28. Mutual exclusion and the holder record.  In every interleaving of threads that lock,
  unlock and wait, at most one thread is between its two statements of \<^verbatim>\<open>Lock\<close> and
  \<^verbatim>\<open>Unlock\<close>, and \<^verbatim>\<open>LockedByThisThread\<close>, which reads the record without the mutex,
  answers yes for a thread exactly when that thread is in its critical section.
\<close>

theorem LockedByThisThread_sound:
  assumes "reach (\<lambda>m. m = MutexLock_new) mutex_step m" and "t \<noteq> 0"
  shows "(LockedByThisThread t m \<longleftrightarrow> lpc m t = Inside) \<and>
    (owning (lpc m t) \<and> owning (lpc m u) \<longrightarrow> t = u)"
  using mutex.reach_inv [OF assms(1)] assms(2)
  by (auto simp: mutex_inv_def LockedByThisThread_def)

theorem LockedByThisThread_sound_witness:
  "\<exists>m. reach (\<lambda>m. m = MutexLock_new) mutex_step m \<and> LockedByThisThread 5 m \<and> \<not> LockedByThisThread 6 m"
proof -
  let ?m1 = "goto 5 Acquired (pthread_lock 5 MutexLock_new)"
  let ?m2 = "goto 5 Inside (AssignHolder 5 ?m1)"
  have "mutex_step MutexLock_new ?m1" by (rule lock1) (simp_all add: MutexLock_new_def)
  moreover have "mutex_step ?m1 ?m2" by (rule lock2) (simp add: goto_def)
  ultimately have r: "reach (\<lambda>m. m = MutexLock_new) mutex_step ?m2"
    by (blast intro: reach.intros)
  have "lpc ?m2 5 = Inside" "lpc ?m2 6 = Outside"
    by (simp_all add: goto_def AssignHolder_def pthread_lock_def MutexLock_new_def)
  with r LockedByThisThread_sound [OF r, of 5] LockedByThisThread_sound [OF r, of 6] show ?thesis by auto
qed

text \<open>
  The latch releases everybody and releases nobody early: in every reachable state, while
  some thread sleeps in \<^verbatim>\<open>Wait\<close> the count is positive, and once some \<^verbatim>\<open>Wait\<close> has
  returned the count is not positive, so every later \<^verbatim>\<open>Wait\<close> returns at once.
\<close>

theorem CountDownLatch_releases:
  assumes "reach (\<lambda>l. l = CountDownLatch_new n) latch_step l"
  shows "(0 < latchSleep l \<longrightarrow> 0 < GetCount l) \<and>
    (0 < latchPassed l \<longrightarrow> GetCount l \<le> 0 \<and> latch_Wait l = l\<lparr>latchPassed := Suc (latchPassed l)\<rparr>)"
  using latch.reach_inv [OF assms] by (auto simp: latch_inv_def GetCount_def latch_Wait_def)

theorem CountDownLatch_releases_witness:
  "\<exists>l. reach (\<lambda>l. l = CountDownLatch_new 1) latch_step l \<and> 0 < latchSleep l \<and> 0 < GetCount l"
proof -
  let ?l = "latch_Wait (CountDownLatch_new 1)"
  have r: "reach (\<lambda>l. l = CountDownLatch_new 1) latch_step ?l" by (blast intro: reach.intros latch_step.wait)
  have "0 < latchSleep ?l" by (simp add: latch_Wait_def CountDownLatch_new_def)
  with CountDownLatch_releases [OF r] r show ?thesis by blast
qed

end
