(* ===== verification/ThreadPools.thy ===== *)
theory ThreadPools
  imports Queues Sync
begin

text \<open>
  The thread pool of \<^verbatim>\<open>src/thread/ThreadPool.h\<close> and \<^verbatim>\<open>src/thread/ThreadPool.cc\<close>
  as a monitor: each critical section of the pool's mutex is one step.
\<close>

section \<open>State and operations\<close>

text \<open>
  \<open>topWorkers\<close> are about to test \<^verbatim>\<open>running_\<close> in \<^verbatim>\<open>RunInThread\<close>, \<open>busyWorkers\<close> run a task,
  \<open>sleepWorkers\<close> wait for \<^verbatim>\<open>notEmpty_\<close>, \<open>wokenWorkers\<close> have been woken from it, and
  \<open>goneWorkers\<close> have left \<^verbatim>\<open>RunInThread\<close>.  \<open>sleepRuns\<close> and \<open>wokenRuns\<close> are the tasks of the threads
  blocked in \<^verbatim>\<open>Run\<close>.  The logs record the tasks accepted, taken, refused after \<^verbatim>\<open>Stop\<close>, and run
  by the caller because the pool has no threads.
\<close>

record 'a ThreadPool =
  poolName :: string
  poolThreads :: nat
  maxQueueSize :: int
  running :: bool
  poolQueue :: "'a list"
  sleepRuns :: "'a multiset"
  wokenRuns :: "'a multiset"
  topWorkers :: nat
  busyWorkers :: nat
  sleepWorkers :: nat
  wokenWorkers :: nat
  goneWorkers :: nat
  accepted :: "'a list"
  taken :: "'a list"
  refused :: "'a list"
  callerRan :: "'a list"

definition ThreadPool_new :: "string \<Rightarrow> 'a ThreadPool" where
  "ThreadPool_new name =
     \<lparr>poolName = name, poolThreads = 0, maxQueueSize = 0, running = False, poolQueue = [],
      sleepRuns = {#}, wokenRuns = {#}, topWorkers = 0, busyWorkers = 0, sleepWorkers = 0,
      wokenWorkers = 0, goneWorkers = 0, accepted = [], taken = [], refused = [], callerRan = []\<rparr>"

definition SetMaxQueueSize :: "int \<Rightarrow> 'a ThreadPool \<Rightarrow> 'a ThreadPool" where
  "SetMaxQueueSize n s = s\<lparr>maxQueueSize := n\<rparr>"

definition pool_Start :: "int \<Rightarrow> 'a ThreadPool \<Rightarrow> 'a ThreadPool res" where
  "pool_Start numThreads s =
     ensure (numThreads \<ge> 0)
       (Inr (s\<lparr>running := True, poolThreads := nat numThreads, topWorkers := nat numThreads\<rparr>))"

definition QueueIsFull :: "'a ThreadPool \<Rightarrow> bool" where
  "QueueIsFull s \<longleftrightarrow> maxQueueSize s > 0 \<and> int (length (poolQueue s)) \<ge> maxQueueSize s"

definition QueueSize :: "'a ThreadPool \<Rightarrow> nat" where
  "QueueSize s = length (poolQueue s)"

definition notify_worker :: "'a ThreadPool \<Rightarrow> 'a ThreadPool" where
  "notify_worker s =
     (if sleepWorkers s = 0 then s
      else s\<lparr>sleepWorkers := sleepWorkers s - 1, wokenWorkers := Suc (wokenWorkers s)\<rparr>)"

definition notify_run :: "'a \<Rightarrow> 'a ThreadPool \<Rightarrow> 'a ThreadPool" where
  "notify_run pick s =
     (if pick \<in># sleepRuns s
      then s\<lparr>sleepRuns := sleepRuns s - {#pick#}, wokenRuns := add_mset pick (wokenRuns s)\<rparr>
      else s)"

text \<open>The critical section of \<^verbatim>\<open>Run\<close>, up to its end or to the next wait.\<close>

definition run_locked :: "'a \<Rightarrow> 'a ThreadPool \<Rightarrow> 'a ThreadPool" where
  "run_locked task s =
     (if QueueIsFull s \<and> running s then s\<lparr>sleepRuns := add_mset task (sleepRuns s)\<rparr>
      else if \<not> running s then s\<lparr>refused := refused s @ [task]\<rparr>
      else notify_worker (s\<lparr>poolQueue := poolQueue s @ [task], accepted := accepted s @ [task]\<rparr>))"

definition pool_Run :: "'a \<Rightarrow> 'a ThreadPool \<Rightarrow> 'a ThreadPool" where
  "pool_Run task s =
     (if poolThreads s = 0 then s\<lparr>callerRan := callerRan s @ [task]\<rparr> else run_locked task s)"

text \<open>
  The critical section of \<^verbatim>\<open>Take\<close> for a worker.  The empty task that it returns when the pool
  has stopped is not run, so the worker is back at the top of its loop.
\<close>

definition pool_Take :: "'a \<Rightarrow> 'a ThreadPool \<Rightarrow> 'a ThreadPool" where
  "pool_Take pick s =
     (if poolQueue s = [] \<and> running s then s\<lparr>sleepWorkers := Suc (sleepWorkers s)\<rparr>
      else if \<not> running s then s\<lparr>topWorkers := Suc (topWorkers s)\<rparr>
      else
        let s1 = s\<lparr>poolQueue := tl (poolQueue s), taken := taken s @ [hd (poolQueue s)],
                   busyWorkers := Suc (busyWorkers s)\<rparr>
        in if maxQueueSize s > 0 then notify_run pick s1 else s1)"

text \<open>The loop test of \<^verbatim>\<open>RunInThread\<close>.\<close>

definition worker_loop :: "'a \<Rightarrow> 'a ThreadPool \<Rightarrow> 'a ThreadPool" where
  "worker_loop pick s =
     (let s1 = s\<lparr>topWorkers := topWorkers s - 1\<rparr> in
      if running s then pool_Take pick s1 else s1\<lparr>goneWorkers := Suc (goneWorkers s)\<rparr>)"

text \<open>\<^verbatim>\<open>Stop\<close>: the critical section; the joins afterwards wait until every worker is gone.\<close>

definition pool_Stop :: "'a ThreadPool \<Rightarrow> 'a ThreadPool" where
  "pool_Stop s =
     s\<lparr>running := False,
       sleepWorkers := 0, wokenWorkers := wokenWorkers s + sleepWorkers s,
       sleepRuns := {#}, wokenRuns := wokenRuns s + sleepRuns s\<rparr>"

definition pool_destroy :: "'a ThreadPool \<Rightarrow> 'a ThreadPool" where
  "pool_destroy s = (if running s then pool_Stop s else s)"

inductive pool_step :: "'a ThreadPool \<Rightarrow> 'a ThreadPool \<Rightarrow> bool" where
  pool_run: "pool_step s (pool_Run x s)"
| pool_rerun: "x \<in># wokenRuns s \<Longrightarrow>
    pool_step s (run_locked x (s\<lparr>wokenRuns := wokenRuns s - {#x#}\<rparr>))"
| pool_worker: "\<lbrakk>0 < topWorkers s; sleepRuns s = {#} \<or> pick \<in># sleepRuns s\<rbrakk> \<Longrightarrow>
    pool_step s (worker_loop pick s)"
| pool_woken: "\<lbrakk>0 < wokenWorkers s; sleepRuns s = {#} \<or> pick \<in># sleepRuns s\<rbrakk> \<Longrightarrow>
    pool_step s (pool_Take pick (s\<lparr>wokenWorkers := wokenWorkers s - 1\<rparr>))"
| pool_done: "0 < busyWorkers s \<Longrightarrow>
    pool_step s (s\<lparr>busyWorkers := busyWorkers s - 1, topWorkers := Suc (topWorkers s)\<rparr>)"
| pool_spurious_worker: "pool_step s (notify_worker s)"
| pool_spurious_run: "x \<in># sleepRuns s \<Longrightarrow> pool_step s (notify_run x s)"
| pool_stop: "pool_step s (pool_Stop s)"

definition pool_init :: "int \<Rightarrow> 'a ThreadPool \<Rightarrow> bool" where
  "pool_init n s \<longleftrightarrow> (\<exists>name size. pool_Start n (SetMaxQueueSize size (ThreadPool_new name)) = Inr s)"

section \<open>Invariant\<close>

definition pool_inv :: "int \<Rightarrow> 'a ThreadPool \<Rightarrow> bool" where
  "pool_inv n s \<longleftrightarrow> taken s @ poolQueue s = accepted s \<and>
     (0 < maxQueueSize s \<longrightarrow> int (length (poolQueue s)) \<le> maxQueueSize s) \<and>
     (running s \<and> 0 < sleepWorkers s \<longrightarrow> length (poolQueue s) \<le> wokenWorkers s) \<and>
     (running s \<and> sleepRuns s \<noteq> {#} \<longrightarrow>
        0 < maxQueueSize s \<and> maxQueueSize s - int (length (poolQueue s)) \<le> int (size (wokenRuns s))) \<and>
     (\<not> running s \<longrightarrow> sleepWorkers s = 0 \<and> sleepRuns s = {#}) \<and>
     int (topWorkers s + busyWorkers s + sleepWorkers s + wokenWorkers s + goneWorkers s) = n"

lemma pool_step_inv:
  assumes inv: "pool_inv n s" and st: "pool_step s t"
  shows "pool_inv n t"
  using st
proof cases
  case (pool_run x)
  with inv show ?thesis
    by (auto simp: pool_inv_def pool_Run_def run_locked_def QueueIsFull_def notify_worker_def)
next
  case (pool_rerun x)
  then obtain M where M: "wokenRuns s = add_mset x M" by (metis multi_member_split)
  from inv show ?thesis unfolding pool_rerun(1) M
    by (auto simp: pool_inv_def run_locked_def QueueIsFull_def notify_worker_def M)
next
  case (pool_worker pick)
  show ?thesis
  proof (cases "running s \<and> poolQueue s \<noteq> []")
    case True
    then obtain y ys where "poolQueue s = y # ys" by (cases "poolQueue s") auto
    with inv pool_worker True show ?thesis
      by (auto simp: pool_inv_def worker_loop_def pool_Take_def notify_run_def Let_def size_Diff_singleton)
  next
    case False
    with inv pool_worker show ?thesis
      by (auto simp: pool_inv_def worker_loop_def pool_Take_def Let_def)
  qed
next
  case (pool_woken pick)
  show ?thesis
  proof (cases "running s \<and> poolQueue s \<noteq> []")
    case True
    then obtain y ys where "poolQueue s = y # ys" by (cases "poolQueue s") auto
    with inv pool_woken True show ?thesis
      by (auto simp: pool_inv_def pool_Take_def notify_run_def Let_def size_Diff_singleton)
  next
    case False
    with inv pool_woken show ?thesis
      by (auto simp: pool_inv_def pool_Take_def Let_def)
  qed
next
  case pool_done
  with inv show ?thesis by (auto simp: pool_inv_def)
next
  case pool_spurious_worker
  with inv show ?thesis by (auto simp: pool_inv_def notify_worker_def)
next
  case (pool_spurious_run x)
  with inv show ?thesis by (auto simp: pool_inv_def notify_run_def)
next
  case pool_stop
  with inv show ?thesis by (auto simp: pool_inv_def pool_Stop_def)
qed

interpretation pool: invariant "pool_init n" pool_step "pool_inv n" for n
proof unfold_locales
  show "pool_inv n s" if "pool_init n s" for s :: "'a ThreadPool"
    using that by (auto simp: pool_init_def pool_inv_def pool_Start_def SetMaxQueueSize_def
        ThreadPool_new_def res_simps)
qed (fact pool_step_inv)

section \<open>Properties\<close>

text \<open>A pool with two sleeping workers and one task.\<close>

definition pool_example :: "int ThreadPool" where
  "pool_example = (case pool_Start 2 (SetMaxQueueSize 4 (ThreadPool_new ''p'')) of
     Inl e \<Rightarrow> ThreadPool_new [] | Inr s \<Rightarrow> pool_Run 9 (worker_loop 0 (worker_loop 0 s)))"

lemmas pool_eval = pool_example_def pool_Start_def SetMaxQueueSize_def ThreadPool_new_def
  worker_loop_def pool_Take_def pool_Run_def run_locked_def QueueIsFull_def notify_worker_def Let_def

lemma pool_example_reach: "reach (pool_init 2) pool_step pool_example"
proof -
  obtain s where s: "pool_Start 2 (SetMaxQueueSize 4 (ThreadPool_new ''p'')) = Inr (s :: int ThreadPool)"
    by (simp add: pool_Start_def)
  then have "pool_init 2 s" unfolding pool_init_def by blast
  then have 0: "reach (pool_init 2) pool_step s" by (rule reach_init)
  have "pool_step s (worker_loop 0 s)"
    by (rule pool_worker) (use s in \<open>auto simp: pool_eval\<close>)
  with 0 have 1: "reach (pool_init 2) pool_step (worker_loop 0 s)" by (rule reach_step)
  have "pool_step (worker_loop 0 s) (worker_loop 0 (worker_loop 0 s))"
    by (rule pool_worker) (use s in \<open>auto simp: pool_eval\<close>)
  with 1 have "reach (pool_init 2) pool_step (worker_loop 0 (worker_loop 0 s))" by (rule reach_step)
  then have "reach (pool_init 2) pool_step (pool_Run 9 (worker_loop 0 (worker_loop 0 s)))"
    by (rule reach_step) (rule pool_run)
  then show ?thesis using s by (simp add: pool_example_def)
qed

text \<open>
  C25. The thread pool hands out tasks in the order it accepted them and loses none: in every
  interleaving, the tasks taken by workers followed by those still queued are the tasks accepted,
  the queue never grows beyond a positive maximal size, and every worker is accounted for.
\<close>

theorem ThreadPool_fifo_bounded:
  assumes "reach (pool_init n) pool_step s"
  shows "taken s @ poolQueue s = accepted s \<and>
    (0 < maxQueueSize s \<longrightarrow> int (QueueSize s) \<le> maxQueueSize s) \<and>
    int (topWorkers s + busyWorkers s + sleepWorkers s + wokenWorkers s + goneWorkers s) = n"
  using pool.reach_inv [OF assms] by (simp add: pool_inv_def QueueSize_def)

theorem ThreadPool_fifo_bounded_witness:
  "accepted pool_example = [9] \<and> taken pool_example @ poolQueue pool_example = [9] \<and>
    QueueSize pool_example \<le> 4"
  using ThreadPool_fifo_bounded [OF pool_example_reach] by (simp add: pool_eval)

text \<open>
  C26. No thread is stuck in the pool.  While it runs, a sleeping worker with a queued task implies
  that a worker has been woken, and a blocked \<^verbatim>\<open>Run\<close> with room in the queue implies that a
  blocked \<^verbatim>\<open>Run\<close> has been woken; after \<^verbatim>\<open>Stop\<close> nobody sleeps, no task is taken
  any more, and every worker that looks again leaves.
\<close>

theorem ThreadPool_no_stuck_thread:
  assumes "reach (pool_init n) pool_step s"
  shows "if running s
    then (0 < sleepWorkers s \<and> poolQueue s \<noteq> [] \<longrightarrow> 0 < wokenWorkers s) \<and>
      (sleepRuns s \<noteq> {#} \<and> \<not> QueueIsFull s \<longrightarrow> wokenRuns s \<noteq> {#})
    else sleepWorkers s = 0 \<and> sleepRuns s = {#} \<and> taken (pool_Take pick s) = taken s \<and>
      goneWorkers (worker_loop pick s) = Suc (goneWorkers s)"
proof (cases "running s")
  case True
  then show ?thesis using pool.reach_inv [OF assms]
    by (cases "poolQueue s") (auto simp: pool_inv_def QueueIsFull_def)
next
  case False
  then show ?thesis using pool.reach_inv [OF assms]
    by (simp add: pool_inv_def pool_Take_def worker_loop_def Let_def)
qed

theorem ThreadPool_no_stuck_thread_witness:
  "0 < sleepWorkers pool_example \<and> poolQueue pool_example \<noteq> [] \<and> 0 < wokenWorkers pool_example"
proof -
  have "running pool_example" "0 < sleepWorkers pool_example" "poolQueue pool_example \<noteq> []"
    by (simp_all add: pool_eval)
  with ThreadPool_no_stuck_thread [OF pool_example_reach, of 0] show ?thesis by simp
qed

end
