(* ===== verification/EventLoops.thy ===== *)
theory EventLoops
  imports Sync Time
begin

text \<open>
  The event loop and the threads that run one: \<^verbatim>\<open>src/reactor/EventLoop.cc\<close>,
  \<^verbatim>\<open>src/reactor/EventLoopThread.cc\<close> and \<^verbatim>\<open>src/reactor/EventLoopThreadPool.cc\<close>.

  The loop is a transition system: the loop thread moves through the statements of
  \<^verbatim>\<open>Loop()\<close>, and other threads queue functors, write the wakeup descriptor and ask the loop to
  quit at any time.
\<close>

section \<open>State and operations\<close>

text \<open>
  \<open>Testing\<close> evaluates the loop condition, \<open>Polling\<close> is blocked in \<^verbatim>\<open>Poll\<close>, \<open>Handling\<close> runs the
  event handlers, \<open>Draining\<close> runs the swapped out functors.
\<close>

datatype phase = Idle | Testing | Polling | Handling | Draining | Stopped

text \<open>
  \<open>pendingFunctors\<close> marks each functor that the loop thread itself queued.  \<open>eventfd\<close> is the counter
  of the wakeup descriptor, \<open>wakers\<close> the number of threads that have queued a functor or set
  \<^verbatim>\<open>quit_\<close> and are about to call \<^verbatim>\<open>Wakeup\<close>.  \<open>submitted\<close> and \<open>executed\<close> are logs.
\<close>

record 'f EventLoop =
  quit :: bool
  phase :: phase
  pendingFunctors :: "('f \<times> bool) list"
  functors :: "'f list"
  eventfd :: nat
  wakers :: nat
  submitted :: "'f list"
  executed :: "'f list"

definition EventLoop_new :: "'f EventLoop" where
  "EventLoop_new = \<lparr>quit = False, phase = Idle, pendingFunctors = [], functors = [], eventfd = 0,
     wakers = 0, submitted = [], executed = []\<rparr>"

text \<open>
  Writing 1 to an event descriptor adds it to the counter, unless the counter would exceed
  \<open>2 ^ 64 - 2\<close>: then the write fails, which is only logged.  Reading it resets the counter.
\<close>

definition Wakeup :: "'f EventLoop \<Rightarrow> 'f EventLoop" where
  "Wakeup s = (if eventfd s + 1 \<le> 2 ^ 64 - 2 then s\<lparr>eventfd := eventfd s + 1\<rparr> else s)"

definition HandleEventfdRead :: "'f EventLoop \<Rightarrow> 'f EventLoop" where
  "HandleEventfdRead s = s\<lparr>eventfd := 0\<rparr>"

text \<open>
  \<^verbatim>\<open>QueueInLoop\<close>: the critical section; outside the loop thread a call of \<^verbatim>\<open>Wakeup\<close> is due.
\<close>

definition QueueInLoop :: "bool \<Rightarrow> 'f \<Rightarrow> 'f EventLoop \<Rightarrow> 'f EventLoop" where
  "QueueInLoop inLoop cb s =
     (let s1 = s\<lparr>pendingFunctors := pendingFunctors s @ [(cb, inLoop)], submitted := submitted s @ [cb]\<rparr>
      in if inLoop then s1 else s1\<lparr>wakers := Suc (wakers s1)\<rparr>)"

definition RunInLoop :: "('f \<Rightarrow> 'f EventLoop \<Rightarrow> 'f EventLoop res) \<Rightarrow> bool \<Rightarrow> 'f \<Rightarrow> 'f EventLoop \<Rightarrow>
    'f EventLoop res" where
  "RunInLoop call inLoop cb s = (if inLoop then call cb s else Inr (QueueInLoop inLoop cb s))"

definition Quit :: "bool \<Rightarrow> 'f EventLoop \<Rightarrow> 'f EventLoop" where
  "Quit inLoop s =
     (let s1 = s\<lparr>quit := True\<rparr> in if inLoop then s1 else s1\<lparr>wakers := Suc (wakers s1)\<rparr>)"

text \<open>The statements of \<^verbatim>\<open>Loop()\<close>.\<close>

definition Loop_enter :: "bool \<Rightarrow> 'f EventLoop \<Rightarrow> 'f EventLoop res" where
  "Loop_enter inLoop s = ensure (\<not> quit s) (ensure inLoop (Inr (s\<lparr>phase := Testing\<rparr>)))"

definition Loop_test :: "'f EventLoop \<Rightarrow> 'f EventLoop" where
  "Loop_test s = s\<lparr>phase := (if quit s then Stopped else Polling)\<rparr>"

definition Loop_polled :: "bool \<Rightarrow> 'f EventLoop \<Rightarrow> 'f EventLoop" where
  "Loop_polled wakeupReady s =
     (if wakeupReady then (HandleEventfdRead s)\<lparr>phase := Handling\<rparr> else s\<lparr>phase := Handling\<rparr>)"

definition Loop_swap :: "'f EventLoop \<Rightarrow> 'f EventLoop" where
  "Loop_swap s = s\<lparr>functors := map fst (pendingFunctors s), pendingFunctors := [], phase := Draining\<rparr>"

definition Loop_run :: "'f EventLoop \<Rightarrow> 'f EventLoop" where
  "Loop_run s =
     (case functors s of
        [] \<Rightarrow> s\<lparr>phase := Testing\<rparr>
      | f # fs \<Rightarrow> s\<lparr>functors := fs, executed := executed s @ [f]\<rparr>)"

text \<open>
  The interleavings.  Before \<^verbatim>\<open>Loop()\<close>, and while handlers or functors run in the loop thread,
  these may queue functors and quit, and a handler may read the wakeup descriptor; \<^verbatim>\<open>Poll\<close> returns at any time, and reports the wakeup descriptor only if its counter is
  positive.
\<close>

inductive loop_step :: "'f EventLoop \<Rightarrow> 'f EventLoop \<Rightarrow> bool" where
  enter: "\<lbrakk>phase s = Idle; Loop_enter True s = Inr s'\<rbrakk> \<Longrightarrow> loop_step s s'"
| test: "phase s = Testing \<Longrightarrow> loop_step s (Loop_test s)"
| polled: "\<lbrakk>phase s = Polling; ready \<longrightarrow> 0 < eventfd s\<rbrakk> \<Longrightarrow> loop_step s (Loop_polled ready s)"
| swap: "phase s = Handling \<Longrightarrow> loop_step s (Loop_swap s)"
| run: "phase s = Draining \<Longrightarrow> loop_step s (Loop_run s)"
| local_queue: "phase s = Idle \<or> phase s = Handling \<or> phase s = Draining \<Longrightarrow> loop_step s (QueueInLoop True f s)"
| local_quit: "phase s = Idle \<or> phase s = Handling \<or> phase s = Draining \<Longrightarrow> loop_step s (Quit True s)"
| local_read: "phase s = Handling \<Longrightarrow> loop_step s (HandleEventfdRead s)"
| remote_queue: "loop_step s (QueueInLoop False f s)"
| remote_quit: "loop_step s (Quit False s)"
| remote_wakeup: "0 < wakers s \<Longrightarrow> loop_step s (Wakeup (s\<lparr>wakers := wakers s - 1\<rparr>))"

section \<open>Invariant\<close>

definition awake :: "'f EventLoop \<Rightarrow> bool" where
  "awake s \<longleftrightarrow> 0 < eventfd s \<or> 0 < wakers s"

definition remote_pending :: "'f EventLoop \<Rightarrow> bool" where
  "remote_pending s \<longleftrightarrow> list_ex (\<lambda>p. \<not> snd p) (pendingFunctors s)"

definition loop_inv :: "'f EventLoop \<Rightarrow> bool" where
  "loop_inv s \<longleftrightarrow> submitted s = executed s @ functors s @ map fst (pendingFunctors s) \<and>
     (functors s \<noteq> [] \<longrightarrow> phase s = Draining) \<and>
     (phase s = Idle \<or> phase s = Testing \<or> phase s = Polling \<or> phase s = Draining \<longrightarrow>
        remote_pending s \<longrightarrow> awake s) \<and>
     (phase s = Polling \<longrightarrow> quit s \<longrightarrow> awake s)"

lemma Wakeup_awake: "0 < eventfd (Wakeup s)"
  by (auto simp: Wakeup_def)

lemma Wakeup_frame [simp]: "quit (Wakeup s) = quit s" "phase (Wakeup s) = phase s"
  "pendingFunctors (Wakeup s) = pendingFunctors s" "functors (Wakeup s) = functors s"
  "submitted (Wakeup s) = submitted s" "executed (Wakeup s) = executed s" "wakers (Wakeup s) = wakers s"
  by (simp_all add: Wakeup_def)

lemma loop_step_inv:
  assumes inv: "loop_inv s" and st: "loop_step s t"
  shows "loop_inv t"
  using st
proof cases
  case enter
  with inv show ?thesis by (auto simp: loop_inv_def Loop_enter_def awake_def remote_pending_def res_simps)
next
  case test
  with inv show ?thesis by (auto simp: loop_inv_def Loop_test_def awake_def remote_pending_def)
next
  case (polled ready)
  with inv show ?thesis by (auto simp: loop_inv_def Loop_polled_def HandleEventfdRead_def awake_def remote_pending_def)
next
  case swap
  with inv show ?thesis by (auto simp: loop_inv_def Loop_swap_def awake_def remote_pending_def)
next
  case run
  with inv show ?thesis by (auto simp: loop_inv_def Loop_run_def awake_def remote_pending_def split: list.splits)
next
  case (local_queue f)
  with inv show ?thesis by (auto simp: loop_inv_def QueueInLoop_def awake_def remote_pending_def Let_def)
next
  case local_quit
  then have "phase s \<noteq> Polling" by auto
  with inv local_quit(1) show ?thesis by (simp add: loop_inv_def Quit_def awake_def remote_pending_def)
next
  case local_read
  with inv show ?thesis by (simp add: loop_inv_def HandleEventfdRead_def)
next
  case (remote_queue f)
  with inv show ?thesis by (auto simp: loop_inv_def QueueInLoop_def awake_def remote_pending_def Let_def)
next
  case remote_quit
  with inv show ?thesis by (simp add: loop_inv_def Quit_def awake_def remote_pending_def)
next
  case remote_wakeup
  with inv Wakeup_awake [of "s\<lparr>wakers := wakers s - 1\<rparr>"] show ?thesis
    by (auto simp: loop_inv_def awake_def remote_pending_def)
qed

interpretation loop: invariant "\<lambda>s. s = EventLoop_new" loop_step loop_inv
proof unfold_locales
  show "loop_inv s" if "s = EventLoop_new" for s :: "'f EventLoop"
    using that by (simp add: loop_inv_def EventLoop_new_def remote_pending_def)
qed (fact loop_step_inv)

section \<open>Timers of the loop\<close>

text \<open>\<^verbatim>\<open>RunAt\<close>, \<^verbatim>\<open>RunAfter\<close> and \<^verbatim>\<open>RunEvery\<close>: the expiration and interval they hand to \<^verbatim>\<open>AddTimer\<close>.\<close>

definition RunAt :: "Timestamp \<Rightarrow> (Timestamp \<times> real) res" where
  "RunAt time = Inr (time, 0)"

definition RunAfter :: "(real \<Rightarrow> real) \<Rightarrow> Timestamp \<Rightarrow> real \<Rightarrow> (Timestamp \<times> real) res" where
  "RunAfter fl now delay = rbind (AddSeconds fl now delay) (\<lambda>time. Inr (time, 0))"

definition RunEvery :: "(real \<Rightarrow> real) \<Rightarrow> Timestamp \<Rightarrow> real \<Rightarrow> (Timestamp \<times> real) res" where
  "RunEvery fl now interval = rbind (AddSeconds fl now interval) (\<lambda>time. Inr (time, interval))"

section \<open>A thread with a loop\<close>

text \<open>
  \<open>LoopAlive\<close>: the local variable \<^verbatim>\<open>loop\<close> of \<^verbatim>\<open>LoopInThread\<close> exists; \<open>LoopGone\<close>: the thread
  function has returned, and \<^verbatim>\<open>loop_\<close> points to a dead object.
\<close>

datatype loop_object = LoopUnborn | LoopAlive | LoopGone

record EventLoopThread =
  eltStarted :: bool
  eltLatch :: CountDownLatch
  loopPtr :: bool
  loopObject :: loop_object
  loopQuit :: bool

definition EventLoopThread_new :: EventLoopThread where
  "EventLoopThread_new = \<lparr>eltStarted = False, eltLatch = CountDownLatch_new 1, loopPtr = False,
     loopObject = LoopUnborn, loopQuit = False\<rparr>"

definition StartLoop :: "EventLoopThread \<Rightarrow> EventLoopThread res" where
  "StartLoop s = ensure (\<not> eltStarted s) (Inr (s\<lparr>eltStarted := True\<rparr>))"

text \<open>\<^verbatim>\<open>StartLoop\<close> returns the pointer when the latch lets it pass.\<close>

definition StartLoop_return :: "EventLoopThread \<Rightarrow> bool" where
  "StartLoop_return s = loopPtr s"

definition LoopInThread_create :: "EventLoopThread \<Rightarrow> EventLoopThread" where
  "LoopInThread_create s = s\<lparr>loopObject := LoopAlive\<rparr>"

definition LoopInThread_publish :: "EventLoopThread \<Rightarrow> EventLoopThread res" where
  "LoopInThread_publish s =
     rbind (CountDown (eltLatch s)) (\<lambda>l. Inr (s\<lparr>loopPtr := True, eltLatch := l\<rparr>))"

definition LoopInThread_return :: "EventLoopThread \<Rightarrow> EventLoopThread" where
  "LoopInThread_return s = s\<lparr>loopObject := LoopGone\<rparr>"

text \<open>The destructor calls \<^verbatim>\<open>Quit\<close> through the pointer, then joins.\<close>

definition EventLoopThread_destroy :: "EventLoopThread \<Rightarrow> EventLoopThread res" where
  "EventLoopThread_destroy s =
     (if loopPtr s then require (loopObject s = LoopAlive) (Inr (s\<lparr>loopQuit := True\<rparr>)) else Inr s)"

inductive elt_step :: "EventLoopThread \<Rightarrow> EventLoopThread \<Rightarrow> bool" where
  elt_start: "StartLoop s = Inr s' \<Longrightarrow> elt_step s s'"
| elt_create: "\<lbrakk>eltStarted s; loopObject s = LoopUnborn\<rbrakk> \<Longrightarrow> elt_step s (LoopInThread_create s)"
| elt_publish: "\<lbrakk>loopObject s = LoopAlive; \<not> loopPtr s; LoopInThread_publish s = Inr s'\<rbrakk> \<Longrightarrow> elt_step s s'"
| elt_quit: "loopPtr s \<Longrightarrow> elt_step s (s\<lparr>loopQuit := True\<rparr>)"
| elt_return: "\<lbrakk>loopObject s = LoopAlive; loopPtr s; loopQuit s\<rbrakk> \<Longrightarrow> elt_step s (LoopInThread_return s)"

definition elt_inv :: "EventLoopThread \<Rightarrow> bool" where
  "elt_inv s \<longleftrightarrow> latchCount (eltLatch s) = (if loopPtr s then 0 else 1) \<and>
     (loopPtr s \<longrightarrow> loopObject s \<noteq> LoopUnborn) \<and> (loopObject s = LoopGone \<longrightarrow> loopPtr s \<and> loopQuit s)"

lemma elt_step_inv: "elt_inv s \<Longrightarrow> elt_step s s' \<Longrightarrow> elt_inv s'"
  by (erule elt_step.cases)
    (auto simp: elt_inv_def StartLoop_def LoopInThread_create_def LoopInThread_publish_def
      LoopInThread_return_def CountDown_def latch_NotifyAll_def Let_def res_simps)

interpretation elt: invariant "\<lambda>s. s = EventLoopThread_new" elt_step elt_inv
proof unfold_locales
  show "elt_inv s" if "s = EventLoopThread_new" for s
    using that by (simp add: elt_inv_def EventLoopThread_new_def CountDownLatch_new_def)
qed (fact elt_step_inv)

section \<open>A pool of loop threads\<close>

text \<open>\<open>loops\<close> are the loops of the threads; \<open>initRuns\<close> counts calls of the callback by \<^verbatim>\<open>Start\<close> itself.\<close>

record 'l EventLoopThreadPool =
  baseLoop :: 'l
  poolStarted :: bool
  nextLoop :: nat
  loops :: "'l list"
  threadNames :: "string list"
  initRuns :: nat

definition EventLoopThreadPool_new :: "'l \<Rightarrow> 'l EventLoopThreadPool" where
  "EventLoopThreadPool_new base = \<lparr>baseLoop = base, poolStarted = False, nextLoop = 0, loops = [],
     threadNames = [], initRuns = 0\<rparr>"

text \<open>\<open>startLoop i\<close> is the loop that the thread number \<open>i\<close> publishes.\<close>

definition LoopPool_Start :: "(nat \<Rightarrow> 'l) \<Rightarrow> bool \<Rightarrow> int \<Rightarrow> bool \<Rightarrow> 'l EventLoopThreadPool \<Rightarrow>
    'l EventLoopThreadPool res" where
  "LoopPool_Start startLoop inBase numThreads hasCb s =
     ensure (\<not> poolStarted s) (ensure inBase
       (let n = nat numThreads;
            s1 = s\<lparr>loops := loops s @ map startLoop [0..<n],
                   threadNames := threadNames s @ map (\<lambda>i. ''EventLoopThread'' @ show_int (int i + 1)) [0..<n],
                   poolStarted := True\<rparr>
        in Inr (if numThreads \<le> 0 \<and> hasCb then s1\<lparr>initRuns := Suc (initRuns s1)\<rparr> else s1)))"

definition NextLoop :: "bool \<Rightarrow> 'l EventLoopThreadPool \<Rightarrow> ('l \<times> 'l EventLoopThreadPool) res" where
  "NextLoop inBase s =
     ensure (poolStarted s) (ensure inBase
       (if loops s = [] then Inr (baseLoop s, s)
        else
          let i = (if nextLoop s = length (loops s) then 0 else nextLoop s) in
          require (i < length (loops s)) (Inr (loops s ! i, s\<lparr>nextLoop := i + 1\<rparr>))))"

definition AllLoops :: "bool \<Rightarrow> 'l EventLoopThreadPool \<Rightarrow> 'l list res" where
  "AllLoops inBase s =
     ensure (poolStarted s) (ensure inBase (Inr (if loops s = [] then [baseLoop s] else loops s)))"

fun NextLoops :: "nat \<Rightarrow> 'l EventLoopThreadPool \<Rightarrow> ('l list \<times> 'l EventLoopThreadPool) res" where
  "NextLoops 0 s = Inr ([], s)"
| "NextLoops (Suc k) s =
     rbind (NextLoop True s) (\<lambda>(l, s1). rbind (NextLoops k s1) (\<lambda>(ls, s2). Inr (l # ls, s2)))"

text \<open>The position after a call of \<^verbatim>\<open>NextLoop\<close>, counted modulo the number of loops.\<close>

lemma NextLoop_ok:
  assumes "poolStarted s" "loops s \<noteq> []" "nextLoop s \<le> length (loops s)"
    and "k mod length (loops s) = nextLoop s mod length (loops s)"
  shows "\<exists>s'. NextLoop True s = Inr (loops s ! (k mod length (loops s)), s') \<and> poolStarted s' \<and>
    loops s' = loops s \<and> nextLoop s' \<le> length (loops s) \<and>
    Suc k mod length (loops s) = nextLoop s' mod length (loops s)"
proof -
  let ?n = "length (loops s)"
  let ?i = "if nextLoop s = ?n then 0 else nextLoop s"
  have n: "0 < ?n" using assms(2) by simp
  have i: "?i < ?n" "?i = k mod ?n" using assms(3,4) n by auto
  then have "Suc k mod ?n = Suc ?i mod ?n" by (simp add: mod_Suc_eq)
  with i n show ?thesis using assms(1,2) by (simp add: NextLoop_def Let_def Suc_le_eq)
qed

lemma NextLoops_ok:
  "poolStarted s \<Longrightarrow> loops s \<noteq> [] \<Longrightarrow> nextLoop s \<le> length (loops s) \<Longrightarrow>
    j mod length (loops s) = nextLoop s mod length (loops s) \<Longrightarrow>
    \<exists>s'. NextLoops k s = Inr (map (\<lambda>i. loops s ! ((j + i) mod length (loops s))) [0..<k], s')"
proof (induction k arbitrary: j s)
  case 0
  then show ?case by simp
next
  case (Suc k)
  from NextLoop_ok [OF Suc.prems] obtain s1 where
    s1: "NextLoop True s = Inr (loops s ! (j mod length (loops s)), s1)" "poolStarted s1"
    "loops s1 = loops s" "nextLoop s1 \<le> length (loops s)"
    "Suc j mod length (loops s) = nextLoop s1 mod length (loops s)" by blast
  with Suc.IH [of s1 "Suc j"] Suc.prems(2) obtain s2 where
    "NextLoops k s1 = Inr (map (\<lambda>i. loops s ! ((Suc j + i) mod length (loops s))) [0..<k], s2)"
    by auto
  then show ?case using s1(1) by (simp add: map_upt_Suc del: upt_Suc)
qed

section \<open>Properties\<close>

text \<open>The loop polls, another thread has queued functor 1 and not yet written the descriptor.\<close>

definition loop_example :: "nat EventLoop" where
  "loop_example = QueueInLoop False 1 (Loop_test (EventLoop_new\<lparr>phase := Testing\<rparr>))"

lemma loop_testing: "reach (\<lambda>s. s = EventLoop_new) loop_step (EventLoop_new\<lparr>phase := Testing\<rparr>)"
proof -
  have "loop_step (EventLoop_new :: 'a EventLoop) (EventLoop_new\<lparr>phase := Testing\<rparr>)"
    by (rule enter) (simp_all add: EventLoop_new_def Loop_enter_def)
  then show ?thesis by (blast intro: reach.intros)
qed

lemma loop_example_reach: "reach (\<lambda>s. s = EventLoop_new) loop_step loop_example"
proof -
  have "loop_step (EventLoop_new\<lparr>phase := Testing\<rparr>) (Loop_test (EventLoop_new\<lparr>phase := Testing\<rparr>))"
    by (rule test) simp
  with loop_testing show ?thesis unfolding loop_example_def by (blast intro: reach_step remote_queue)
qed

lemmas loop_eval = loop_example_def QueueInLoop_def Loop_test_def EventLoop_new_def awake_def
  remote_pending_def Loop_polled_def Loop_swap_def Loop_run_def Let_def



text \<open>
  C14. No wakeup from another thread is lost: whenever the loop is blocked in \<^verbatim>\<open>Poll\<close> while a
  functor of another thread is pending, or after another thread has called \<^verbatim>\<open>Quit\<close>, the
  wakeup descriptor is readable or a thread is about to write it, even if the counter of the
  descriptor has reached its maximum.
\<close>

theorem EventLoop_no_lost_wakeup:
  assumes "reach (\<lambda>s. s = EventLoop_new) loop_step s" and "phase s = Polling"
    and "remote_pending s \<or> quit s"
  shows "0 < eventfd s \<or> 0 < wakers s"
  using loop.reach_inv [OF assms(1)] assms(2,3) by (auto simp: loop_inv_def awake_def)

theorem EventLoop_no_lost_wakeup_witness:
  "phase loop_example = Polling \<and> remote_pending loop_example \<and>
    (0 < eventfd loop_example \<or> 0 < wakers loop_example)"
proof -
  have "phase loop_example = Polling" "remote_pending loop_example" by (simp_all add: loop_eval)
  with EventLoop_no_lost_wakeup [OF loop_example_reach _ disjI1] show ?thesis by simp
qed

text \<open>
  A functor that queues another functor in its own loop is not followed by a wakeup: there
  is a reachable state in which the loop is blocked in \<^verbatim>\<open>Poll\<close> with that functor pending,
  the wakeup descriptor unreadable and nobody about to write it, so it waits for another event
  or the poll timeout of ten seconds.
\<close>

theorem EventLoop_local_functor_waits:
  "\<exists>s. reach (\<lambda>s. s = EventLoop_new) loop_step s \<and> phase s = Polling \<and>
    pendingFunctors s = [(f, True)] \<and> eventfd s = 0 \<and> wakers s = 0"
proof -
  let ?s0 = "EventLoop_new\<lparr>phase := Testing\<rparr> :: 'a EventLoop"
  let ?s1 = "Loop_test ?s0" let ?s2 = "Loop_polled False ?s1" let ?s3 = "Loop_swap ?s2"
  let ?s4 = "QueueInLoop True f ?s3" let ?s5 = "Loop_run ?s4" let ?s6 = "Loop_test ?s5"
  have "reach (\<lambda>s. s = EventLoop_new) loop_step ?s1" by (rule reach_step [OF loop_testing test]) simp
  then have "reach (\<lambda>s. s = EventLoop_new) loop_step ?s2"
    by (rule reach_step) (rule polled, simp_all add: loop_eval)
  then have "reach (\<lambda>s. s = EventLoop_new) loop_step ?s3" by (rule reach_step) (rule swap, simp add: loop_eval)
  then have "reach (\<lambda>s. s = EventLoop_new) loop_step ?s4"
    by (rule reach_step) (rule local_queue, simp add: loop_eval)
  then have "reach (\<lambda>s. s = EventLoop_new) loop_step ?s5" by (rule reach_step) (rule run, simp add: loop_eval)
  then have "reach (\<lambda>s. s = EventLoop_new) loop_step ?s6" by (rule reach_step) (rule test, simp add: loop_eval)
  moreover have "phase ?s6 = Polling \<and> pendingFunctors ?s6 = [(f, True)] \<and> eventfd ?s6 = 0 \<and> wakers ?s6 = 0"
    by (simp add: loop_eval)
  ultimately show ?thesis by blast
qed

text \<open>
  Starting a loop thread: when the latch lets \<^verbatim>\<open>StartLoop\<close> pass, the pointer it returns is
  set and the loop it points to was created; the destructor is safe exactly while that loop still
  exists, and uses a dead object when the loop was quit and left before.
\<close>

theorem EventLoopThread_pointer:
  assumes "reach (\<lambda>s. s = EventLoopThread_new) elt_step s" and "latchCount (eltLatch s) \<le> 0"
  shows "StartLoop_return s \<and> loopObject s \<noteq> LoopUnborn \<and>
    (EventLoopThread_destroy s = Inl Undefined \<longleftrightarrow> loopObject s = LoopGone) \<and>
    (loopObject s = LoopGone \<longrightarrow> loopQuit s)"
  using elt.reach_inv [OF assms(1)] assms(2)
  by (cases "loopObject s")
    (auto simp: elt_inv_def StartLoop_return_def EventLoopThread_destroy_def split: if_splits)

theorem EventLoopThread_pointer_witness:
  "\<exists>s. reach (\<lambda>s. s = EventLoopThread_new) elt_step s \<and> EventLoopThread_destroy s = Inl Undefined"
proof -
  let ?s1 = "EventLoopThread_new\<lparr>eltStarted := True\<rparr>"
  let ?s2 = "LoopInThread_create ?s1"
  obtain s3 where s3: "LoopInThread_publish ?s2 = Inr s3" "loopObject s3 = LoopAlive" "loopPtr s3"
    by (simp add: LoopInThread_publish_def LoopInThread_create_def EventLoopThread_new_def
        CountDownLatch_new_def CountDown_def Let_def latch_NotifyAll_def)
  let ?s4 = "s3\<lparr>loopQuit := True\<rparr>" let ?s5 = "LoopInThread_return ?s4"
  let ?r = "reach (\<lambda>s. s = EventLoopThread_new) elt_step"
  have "?r EventLoopThread_new" by (rule reach_init) simp
  then have "?r ?s1" by (rule reach_step) (rule elt_start, simp add: StartLoop_def EventLoopThread_new_def)
  then have "?r ?s2" by (rule reach_step) (rule elt_create, simp_all add: EventLoopThread_new_def)
  then have "?r s3"
    by (rule reach_step) (rule elt_publish [OF _ _ s3(1)],
      simp_all add: LoopInThread_create_def EventLoopThread_new_def)
  then have "?r ?s4" by (rule reach_step) (rule elt_quit [OF s3(3)])
  then have r: "?r ?s5" by (rule reach_step) (rule elt_return, simp_all add: s3)
  have "latchCount (eltLatch ?s5) \<le> 0" "loopObject ?s5 = LoopGone"
    using s3(1) by (auto simp: LoopInThread_publish_def LoopInThread_create_def EventLoopThread_new_def
        CountDownLatch_new_def CountDown_def Let_def latch_NotifyAll_def LoopInThread_return_def)
  with EventLoopThread_pointer [OF r] r show ?thesis by blast
qed

text \<open>
  Round robin: after \<^verbatim>\<open>Start\<close> with a positive number of threads, the \<open>i\<close>-th call of
  \<^verbatim>\<open>NextLoop\<close> returns the loop of thread \<open>i\<close> modulo that number, for any number of calls, and
  never reads outside the vector.
\<close>

theorem NextLoop_round_robin:
  assumes "0 < n"
  shows "\<exists>s s'. LoopPool_Start startLoop True n hasCb (EventLoopThreadPool_new base) = Inr s \<and>
    NextLoops k s = Inr (map (\<lambda>i. startLoop (i mod nat n)) [0..<k], s')"
proof -
  obtain s where s: "LoopPool_Start startLoop True n hasCb (EventLoopThreadPool_new base) = Inr s"
    "poolStarted s" "loops s = map startLoop [0..<nat n]" "nextLoop s = 0"
    using assms by (simp add: LoopPool_Start_def EventLoopThreadPool_new_def Let_def)
  have n: "length (loops s) = nat n" "loops s \<noteq> []" using s(3) assms by auto
  then obtain s' where "NextLoops k s = Inr (map (\<lambda>i. loops s ! (i mod nat n)) [0..<k], s')"
    using NextLoops_ok [of s 0 k] s(2,4) by auto
  moreover have "loops s ! (i mod nat n) = startLoop (i mod nat n)" for i
    using assms by (simp add: s(3))
  ultimately show ?thesis using s(1) by auto
qed

theorem NextLoop_round_robin_witness:
  "\<exists>s s'. LoopPool_Start (\<lambda>i. 10 * i) True 2 False (EventLoopThreadPool_new (99 :: nat)) = Inr s \<and>
    NextLoops 3 s = Inr ([0, 10, 0], s')"
  using NextLoop_round_robin [of 2 "\<lambda>i. 10 * i" False 99 3] by (simp add: upt_rec)

end
