(* ===== verification/Regex.thy ===== *)
theory Regex
  imports Prelude
begin

text \<open>
  The part of \<^verbatim>\<open>std::regex\<close> (ECMAScript grammar) that \<^verbatim>\<open>src/net/http/HttpContext.cc\<close> uses:
  character classes, sequences, alternatives, greedy repetition of a class, greedy options and
  numbered groups.  Matching explores the alternatives in the order of the standard and
  \<^verbatim>\<open>regex_match\<close> takes the first way that consumes the whole string.  Classes are those of the
  C locale.
\<close>

section \<open>Character classes\<close>

definition is_space :: "char \<Rightarrow> bool" where
  "is_space c \<longleftrightarrow> c \<in> {CHR '' '', CHR 0x09, CHR 0x0A, CHR 0x0B, CHR 0x0C, CHR 0x0D}"

definition in_range :: "nat \<Rightarrow> nat \<Rightarrow> char \<Rightarrow> bool" where
  "in_range lo hi c \<longleftrightarrow> lo \<le> of_char c \<and> of_char c \<le> hi"

definition is_word :: "char \<Rightarrow> bool" where
  "is_word c \<longleftrightarrow> in_range 0x30 0x39 c \<or> in_range 0x41 0x5A c \<or> in_range 0x61 0x7A c \<or> c = CHR ''_''"

text \<open>The dot matches everything but line terminators.\<close>

definition is_dot :: "char \<Rightarrow> bool" where
  "is_dot c \<longleftrightarrow> c \<noteq> CHR 0x0A \<and> c \<noteq> CHR 0x0D"

section \<open>Expressions and matching\<close>

datatype rx =
    Eps
  | Cls "char \<Rightarrow> bool"
  | Seq rx rx
  | Alt rx rx
  | StarC "char \<Rightarrow> bool"
  | Opt rx
  | Group nat rx

definition PlusC :: "(char \<Rightarrow> bool) \<Rightarrow> rx" where
  "PlusC P = Seq (Cls P) (StarC P)"

fun Lit :: "string \<Rightarrow> rx" where
  "Lit [] = Eps"
| "Lit (c # cs) = Seq (Cls (\<lambda>x. x = c)) (Lit cs)"

text \<open>The ways to split off a prefix of class characters, longest first.\<close>

fun star_splits :: "(char \<Rightarrow> bool) \<Rightarrow> string \<Rightarrow> (string \<times> string) list" where
  "star_splits P [] = [([], [])]"
| "star_splits P (x # xs) =
     (if P x then map (\<lambda>(a, b). (x # a, b)) (star_splits P xs) @ [([], x # xs)] else [([], x # xs)])"

declare Lit.simps [simp del]

type_synonym captures = "(nat \<times> string) list"

text \<open>All ways to match a prefix, in order: the prefix, the rest, and the groups.\<close>

fun rx_run :: "rx \<Rightarrow> string \<Rightarrow> (string \<times> string \<times> captures) list" where
  "rx_run Eps s = [([], s, [])]"
| "rx_run (Cls P) s = (case s of [] \<Rightarrow> [] | x # xs \<Rightarrow> if P x then [([x], xs, [])] else [])"
| "rx_run (Seq a b) s =
     concat (map (\<lambda>(c, r, k). map (\<lambda>(c', r', k'). (c @ c', r', k @ k')) (rx_run b r)) (rx_run a s))"
| "rx_run (Alt a b) s = rx_run a s @ rx_run b s"
| "rx_run (StarC P) s = map (\<lambda>(a, b). (a, b, [])) (star_splits P s)"
| "rx_run (Opt a) s = rx_run a s @ [([], s, [])]"
| "rx_run (Group n a) s = map (\<lambda>(c, r, k). (c, r, (n, c) # k)) (rx_run a s)"

definition regex_match :: "rx \<Rightarrow> string \<Rightarrow> captures option" where
  "regex_match e s =
     (case filter (\<lambda>(c, r, k). r = []) (rx_run e s) of [] \<Rightarrow> None | (c, r, k) # ms \<Rightarrow> Some k)"

definition submatch :: "captures \<Rightarrow> nat \<Rightarrow> string" where
  "submatch k n = (case map_of k n of None \<Rightarrow> [] | Some t \<Rightarrow> t)"

section \<open>Lemmas\<close>

lemma star_splits_sound: "(a, b) \<in> set (star_splits P s) \<longleftrightarrow> s = a @ b \<and> list_all P a"
proof (induction s arbitrary: a)
  case (Cons x s)
  note IH = Cons.IH
  show ?case
  proof (cases a)
    case Nil
    then show ?thesis by (auto simp: IH)
  next
    case (Cons y a')
    have "(y # a', b) \<in> (\<lambda>(a, b). (x # a, b)) ` set (star_splits P s) \<longleftrightarrow>
        y = x \<and> (a', b) \<in> set (star_splits P s)" by force
    then show ?thesis using Cons IH [of a'] by auto
  qed
qed auto

text \<open>A match is a prefix.\<close>

lemma rx_run_prefix: "(c, r, k) \<in> set (rx_run e s) \<Longrightarrow> s = c @ r"
proof (induction e arbitrary: c r k s)
  case (Seq a b)
  then show ?case by fastforce
next
  case (StarC P)
  then show ?case by (auto simp: star_splits_sound)
qed (auto split: list.splits if_splits)

text \<open>What a match starts with: the head of the list decides when the greedy choices succeed.\<close>

definition first_way :: "rx \<Rightarrow> string \<Rightarrow> string \<times> string \<times> captures \<Rightarrow> bool" where
  "first_way e s w \<longleftrightarrow> (\<exists>ws. rx_run e s = w # ws)"

lemma first_Eps: "first_way Eps s ([], s, [])"
  by (simp add: first_way_def)

lemma first_Cls: "P x \<Longrightarrow> first_way (Cls P) (x # xs) ([x], xs, [])"
  by (simp add: first_way_def)

lemma first_Seq:
  assumes "first_way a s (c, r, k)" "first_way b r (c', r', k')"
  shows "first_way (Seq a b) s (c @ c', r', k @ k')"
  using assms by (auto simp: first_way_def)

lemma first_Alt_left: "first_way a s w \<Longrightarrow> first_way (Alt a b) s w"
  by (auto simp: first_way_def)

lemma first_Alt_right: "rx_run a s = [] \<Longrightarrow> first_way b s w \<Longrightarrow> first_way (Alt a b) s w"
  by (simp add: first_way_def)

lemma first_Group: "first_way a s (c, r, k) \<Longrightarrow> first_way (Group n a) s (c, r, (n, c) # k)"
  by (auto simp: first_way_def)

lemma first_Opt: "first_way a s w \<Longrightarrow> first_way (Opt a) s w"
  by (auto simp: first_way_def)

lemma first_Opt_none: "rx_run a s = [] \<Longrightarrow> first_way (Opt a) s ([], s, [])"
  by (simp add: first_way_def)

lemma star_splits_first:
  "list_all P a \<Longrightarrow> b = [] \<or> \<not> P (hd b) \<Longrightarrow> \<exists>ws. star_splits P (a @ b) = (a, b) # ws"
proof (induction a)
  case Nil
  then show ?case by (cases b) auto
next
  case (Cons x a)
  then show ?case by auto
qed

lemma first_StarC:
  "list_all P a \<Longrightarrow> b = [] \<or> \<not> P (hd b) \<Longrightarrow> first_way (StarC P) (a @ b) (a, b, [])"
  using star_splits_first [of P a b] by (auto simp: first_way_def)

lemma first_PlusC:
  assumes "list_all P a" "a \<noteq> []" "b = [] \<or> \<not> P (hd b)"
  shows "first_way (PlusC P) (a @ b) (a, b, [])"
proof -
  obtain x xs where a: "a = x # xs" using assms(2) by (cases a) auto
  have "first_way (Seq (Cls P) (StarC P)) (x # (xs @ b)) ([x] @ xs, b, [] @ [])"
    using assms(1,3) unfolding a
    by (intro first_Seq [where r = "xs @ b"] first_Cls first_StarC) simp_all
  then show ?thesis by (simp add: PlusC_def a)
qed

lemma first_Lit: "first_way (Lit t) (t @ s) (t, s, [])"
proof (induction t)
  case (Cons c t)
  have "first_way (Seq (Cls (\<lambda>x. x = c)) (Lit t)) (c # (t @ s)) ([c] @ t, s, [] @ [])"
    by (intro first_Seq [where r = "t @ s"] first_Cls Cons.IH) simp
  then show ?case by (simp add: Lit.simps)
qed (simp add: first_Eps Lit.simps)

lemma Lit_run: "rx_run (Lit t) s = (if take (length t) s = t then [(t, drop (length t) s, [])] else [])"
proof (induction t arbitrary: s)
  case (Cons c t)
  then show ?case by (cases s) (auto simp: Lit.simps)
qed (simp add: Lit.simps)

text \<open>If the first way consumes everything, it is the match.\<close>

lemma regex_match_first: "first_way e s (c, [], k) \<Longrightarrow> regex_match e s = Some k"
  by (auto simp: first_way_def regex_match_def)

lemma regex_match_Some:
  "regex_match e s = Some k \<Longrightarrow> \<exists>c. (c, [], k) \<in> set (rx_run e s)"
proof -
  assume "regex_match e s = Some k"
  then obtain c r ms where "filter (\<lambda>(c, r, k). r = []) (rx_run e s) = (c, r, k) # ms"
    by (auto simp: regex_match_def split: list.splits)
  then have "(c, r, k) \<in> set (filter (\<lambda>(c, r, k). r = []) (rx_run e s))" by simp
  then show ?thesis by auto
qed

lemma regex_match_None: "(\<And>c k. (c, [], k) \<notin> set (rx_run e s)) \<Longrightarrow> regex_match e s = None"
  using regex_match_Some [of e s] by (cases "regex_match e s") auto

end
