(* ===== verification/Http.thy ===== *)
theory Http
  imports NetBuffer Containers Time Regex
begin

text \<open>
  HTTP: \<^verbatim>\<open>src/net/http/HttpRequest.h\<close>, \<^verbatim>\<open>src/net/http/HttpContext.cc\<close>,
  \<^verbatim>\<open>src/net/http/HttpResponse.cc\<close> and \<^verbatim>\<open>src/net/http/HttpServer.cc\<close>.

  The parser works on a \<^verbatim>\<open>Buffer\<close>; its loop need not end, so it is a partial function into an
  option.  The server's handlers return the calls they make on the connection.
\<close>

section \<open>Requests\<close>

datatype Method = kInvalid | kGet | kPost | kHead | kPut | kDelete
datatype Version = kUnknown | kHttp10 | kHttp11

fun MethodNames :: "Method \<Rightarrow> string" where
  "MethodNames kInvalid = ''INVALID''"
| "MethodNames kGet = ''GET''"
| "MethodNames kPost = ''POST''"
| "MethodNames kHead = ''HEAD''"
| "MethodNames kPut = ''PUT''"
| "MethodNames kDelete = ''DELETE''"

fun VersionNames :: "Version \<Rightarrow> string" where
  "VersionNames kUnknown = ''UNKNOWN''"
| "VersionNames kHttp10 = ''HTTP/1.0''"
| "VersionNames kHttp11 = ''HTTP/1.1''"

record HttpRequest =
  req_method :: Method
  req_version :: Version
  req_path :: string
  req_query :: string
  req_body :: string
  receiveTime :: Timestamp
  req_headers :: "(string, string) std_map"

definition HttpRequest_new :: HttpRequest where
  "HttpRequest_new = \<lparr>req_method = kInvalid, req_version = kUnknown, req_path = [], req_query = [],
     req_body = [], receiveTime = Timestamp_default, req_headers = []\<rparr>"

text \<open>The loops over the names stop at the first hit; the flag returned is the source's.\<close>

definition SetVersion :: "string \<Rightarrow> HttpRequest \<Rightarrow> (bool \<times> HttpRequest) res" where
  "SetVersion v r =
     ensure (req_version r = kUnknown)
       (let r1 = (case filter (\<lambda>x. v = VersionNames x) [kHttp10, kHttp11] of
                    [] \<Rightarrow> r | x # xs \<Rightarrow> r\<lparr>req_version := x\<rparr>)
        in Inr (req_version r1 = kUnknown, r1))"

definition SetMethod :: "string \<Rightarrow> HttpRequest \<Rightarrow> (bool \<times> HttpRequest) res" where
  "SetMethod m r =
     ensure (req_method r = kInvalid)
       (let r1 = (case filter (\<lambda>x. m = MethodNames x) [kGet, kPost, kHead, kPut, kDelete] of
                    [] \<Rightarrow> r | x # xs \<Rightarrow> r\<lparr>req_method := x\<rparr>)
        in Inr (req_method r1 \<noteq> kInvalid, r1))"

definition MethodString :: "HttpRequest \<Rightarrow> string" where
  "MethodString r = MethodNames (req_method r)"

definition VersionString :: "HttpRequest \<Rightarrow> string" where
  "VersionString r = VersionNames (req_version r)"

definition AddHeader :: "string \<Rightarrow> string \<Rightarrow> HttpRequest \<Rightarrow> HttpRequest" where
  "AddHeader key value r = r\<lparr>req_headers := map_set key value (req_headers r)\<rparr>"

definition GetHeader :: "string \<Rightarrow> HttpRequest \<Rightarrow> string" where
  "GetHeader field r = (case map_find field (req_headers r) of None \<Rightarrow> [] | Some v \<Rightarrow> v)"

text \<open>
  The overload with pointers: \<open>text\<close> is the range from start to end, \<open>n\<close> the offset of the colon,
  \<open>isspace\<close> the C function with its integer result.  The loop condition combines
  \<^verbatim>\<open>!value.empty()\<close>, 0 or 1, with that integer bit by bit, after reading the last character.
\<close>

unbundle bit_operations_syntax

function strip_trailing :: "(char \<Rightarrow> int) \<Rightarrow> string \<Rightarrow> string res" where
  "strip_trailing isspace value =
     (if value = [] then Inl Undefined
      else if 1 AND isspace (last value) \<noteq> 0 then strip_trailing isspace (butlast value)
      else Inr value)"
  by auto
termination by (relation "measure (\<lambda>(f, v). length v)") (auto simp: length_butlast)

declare strip_trailing.simps [simp del]

definition AddHeader_at :: "(char \<Rightarrow> int) \<Rightarrow> string \<Rightarrow> nat \<Rightarrow> HttpRequest \<Rightarrow> HttpRequest res" where
  "AddHeader_at isspace text n r =
     require (n < length text) (ensure (text ! n = CHR '':'')
       (rbind (strip_trailing isspace (dropWhile (\<lambda>c. isspace c \<noteq> 0) (drop (Suc n) text)))
         (\<lambda>value. Inr (AddHeader (take n text) value r))))"

definition Request_Swap :: "HttpRequest \<Rightarrow> HttpRequest \<Rightarrow> HttpRequest \<times> HttpRequest" where
  "Request_Swap this that = (that, this)"

section \<open>The parser\<close>

datatype ParseState = kExpectRequestLine | kExpectHeaders | kExpectBody | kGotAll

record HttpContext =
  request :: HttpRequest
  state :: ParseState

definition HttpContext_new :: HttpContext where
  "HttpContext_new = \<lparr>request = HttpRequest_new, state = kExpectRequestLine\<rparr>"

definition GotAll :: "HttpContext \<Rightarrow> bool" where
  "GotAll c \<longleftrightarrow> state c = kGotAll"

definition Context_Reset :: "HttpContext \<Rightarrow> HttpContext" where
  "Context_Reset c = c\<lparr>request := fst (Request_Swap (request c) HttpRequest_new), state := kExpectRequestLine\<rparr>"

text \<open>
  The expressions.  In the bracket of the query, \<^verbatim>\<open>%-=\<close> is the range of characters from the
  percent sign to the equals sign.
\<close>

definition path_char :: "char \<Rightarrow> bool" where
  "path_char c \<longleftrightarrow> is_word c \<or> c = CHR ''/'' \<or> c = CHR ''.''"

definition query_char :: "char \<Rightarrow> bool" where
  "query_char c \<longleftrightarrow> in_range 0x25 0x3D c \<or> c = CHR 0x26 \<or> is_word c"

definition method_rx :: rx where
  "method_rx = Alt (Lit ''GET'') (Alt (Lit ''POST'') (Alt (Lit ''HEAD'') (Alt (Lit ''PUT'') (Lit ''DELETE''))))"

definition version_rx :: rx where
  "version_rx = Seq (Lit ''HTTP/1.'') (Cls (\<lambda>c. c = CHR ''0'' \<or> c = CHR ''1''))"

definition request_line_rx :: rx where
  "request_line_rx =
     Seq (Group 1 method_rx) (Seq (StarC is_space) (Seq (Group 2 (PlusC path_char))
       (Seq (Opt (Cls (\<lambda>c. c = CHR ''?''))) (Seq (Group 3 (StarC query_char))
         (Seq (StarC is_space) (Group 4 version_rx))))))"

definition header_rx :: rx where
  "header_rx =
     Seq (Group 1 (PlusC (\<lambda>c. c \<noteq> CHR '':''))) (Seq (Cls (\<lambda>c. c = CHR '':''))
       (Seq (StarC is_space) (Group 2 (PlusC is_dot))))"

definition ParseRequestLine :: "string \<Rightarrow> HttpContext \<Rightarrow> (bool \<times> HttpContext) res" where
  "ParseRequestLine line ctx =
     (case regex_match request_line_rx line of
        None \<Rightarrow> Inr (False, ctx)
      | Some m \<Rightarrow>
          rbind (SetMethod (submatch m 1) (request ctx)) (\<lambda>(b1, r1).
          rbind (SetVersion (submatch m 4)
                  (r1\<lparr>req_path := submatch m 2, req_query := submatch m 3\<rparr>)) (\<lambda>(b2, r2).
            Inr (True, ctx\<lparr>request := r2\<rparr>))))"

text \<open>The characters of the buffer between two of its indices.\<close>

definition between :: "nat \<Rightarrow> nat \<Rightarrow> Buffer \<Rightarrow> string" where
  "between i j b = take (j - i) (drop i (buffer b))"

text \<open>One iteration of the loop: whether to go on, the result so far, the context, the buffer.\<close>

definition parse_iter :: "Timestamp \<Rightarrow> HttpContext \<Rightarrow> Buffer \<Rightarrow> (bool \<times> bool \<times> HttpContext \<times> Buffer) res" where
  "parse_iter now ctx buf =
     (case state ctx of
        kExpectRequestLine \<Rightarrow>
          (case FindCRLF buf of
             None \<Rightarrow> Inr (False, False, ctx, buf)
           | Some crlf \<Rightarrow>
               rbind (ParseRequestLine (between (Peek buf) crlf buf) ctx) (\<lambda>(ok, ctx1).
                 if ok then
                   rbind (RetrieveUntil (crlf + 2) buf) (\<lambda>buf1.
                     Inr (True, True, ctx1\<lparr>request := (request ctx1)\<lparr>receiveTime := now\<rparr>,
                                           state := kExpectHeaders\<rparr>, buf1))
                 else Inr (False, False, ctx1, buf)))
      | kExpectHeaders \<Rightarrow>
          (case FindCRLF buf of
             None \<Rightarrow> Inr (False, True, ctx, buf)
           | Some crlf \<Rightarrow>
               (case regex_match header_rx (between (Peek buf) crlf buf) of
                  Some m \<Rightarrow>
                    rbind (RetrieveUntil (crlf + 2) buf) (\<lambda>buf1.
                      Inr (True, True,
                           ctx\<lparr>request := AddHeader (submatch m 1) (submatch m 2) (request ctx)\<rparr>, buf1))
                | None \<Rightarrow>
                    if Peek buf = crlf then
                      rbind (RetrieveUntil (crlf + 2) buf) (\<lambda>buf1.
                        Inr (True, True, ctx\<lparr>state := kExpectBody\<rparr>, buf1))
                    else Inr (False, False, ctx, buf)))
      | kExpectBody \<Rightarrow>
          Inr (False, True,
               ctx\<lparr>request := (request ctx)\<lparr>req_body := between (Peek buf) (BeginWrite buf) buf\<rparr>,
                   state := kGotAll\<rparr>, buf)
      | kGotAll \<Rightarrow> Inr (True, True, ctx, buf))"

partial_function (option) ParseRequest ::
    "Timestamp \<Rightarrow> HttpContext \<Rightarrow> Buffer \<Rightarrow> (bool \<times> HttpContext \<times> Buffer) res option" where
  "ParseRequest now ctx buf =
     (case parse_iter now ctx buf of
        Inl e \<Rightarrow> Some (Inl e)
      | Inr (go, ok, ctx1, buf1) \<Rightarrow>
          if go then ParseRequest now ctx1 buf1 else Some (Inr (ok, ctx1, buf1)))"

section \<open>Responses\<close>

datatype HttpStatusCode = Status_kUnknown | k200Ok | k301MovedPermanently | k400BadRequest | k404NotFound

fun status_number :: "HttpStatusCode \<Rightarrow> int" where
  "status_number Status_kUnknown = 0"
| "status_number k200Ok = 200"
| "status_number k301MovedPermanently = 301"
| "status_number k400BadRequest = 400"
| "status_number k404NotFound = 404"

record HttpResponse =
  statusCode :: HttpStatusCode
  statusMessage :: string
  closeConnection :: bool
  resp_headers :: "(string, string) std_map"
  resp_body :: string

definition HttpResponse_new :: "bool \<Rightarrow> HttpResponse" where
  "HttpResponse_new close = \<lparr>statusCode = Status_kUnknown, statusMessage = [], closeConnection = close,
     resp_headers = [], resp_body = []\<rparr>"

definition SetStatusCode :: "HttpStatusCode \<Rightarrow> HttpResponse \<Rightarrow> HttpResponse" where
  "SetStatusCode code r = r\<lparr>statusCode := code\<rparr>"

definition SetStatusMessage :: "string \<Rightarrow> HttpResponse \<Rightarrow> HttpResponse" where
  "SetStatusMessage message r = r\<lparr>statusMessage := message\<rparr>"

definition SetCloseConnection :: "bool \<Rightarrow> HttpResponse \<Rightarrow> HttpResponse" where
  "SetCloseConnection on r = r\<lparr>closeConnection := on\<rparr>"

definition Response_AddHeader :: "string \<Rightarrow> string \<Rightarrow> HttpResponse \<Rightarrow> HttpResponse" where
  "Response_AddHeader key value r = r\<lparr>resp_headers := map_set key value (resp_headers r)\<rparr>"

definition Response_SetBody :: "string \<Rightarrow> HttpResponse \<Rightarrow> HttpResponse" where
  "Response_SetBody body r = r\<lparr>resp_body := body\<rparr>"

text \<open>The pieces that \<^verbatim>\<open>AppendToBuffer\<close> appends, in order.\<close>

definition status_line :: "HttpResponse \<Rightarrow> string list" where
  "status_line r = [snprintf 32 (''HTTP/1.1 '' @ show_int (status_number (statusCode r)) @ '' ''),
     statusMessage r, kCRLF]"

definition connection_lines :: "HttpResponse \<Rightarrow> string list" where
  "connection_lines r =
     (if closeConnection r then [''Connection: close'' @ kCRLF]
      else [snprintf 32 (''Content-Length: '' @ show_int (int (length (resp_body r))) @ kCRLF),
            ''Connection: Keep-Alive'' @ kCRLF])"

definition header_lines :: "HttpResponse \<Rightarrow> string list" where
  "header_lines r = concat (map (\<lambda>(k, v). [k, '': '', v, kCRLF]) (resp_headers r))"

definition AppendToBuffer :: "HttpResponse \<Rightarrow> Buffer \<Rightarrow> Buffer res" where
  "AppendToBuffer r output =
     put_all Append (status_line r @ connection_lines r @ header_lines r @ [kCRLF, resp_body r]) output"

section \<open>The server\<close>

text \<open>What a handler does to the connection: send a message, shut the connection down.\<close>

datatype conn_call = CallSend string | CallShutdown

definition DefaultHttpCallback :: "HttpRequest \<Rightarrow> HttpResponse \<Rightarrow> HttpResponse" where
  "DefaultHttpCallback req resp =
     Response_SetBody (''<p>Hello, wethands!</p>'' @ kCRLF)
       (SetCloseConnection True (SetStatusMessage ''ok'' (SetStatusCode k200Ok resp)))"

definition onConnection :: "bool \<Rightarrow> HttpContext option \<Rightarrow> HttpContext option" where
  "onConnection isConnected context = (if isConnected then Some HttpContext_new else context)"

definition wants_close :: "HttpRequest \<Rightarrow> bool" where
  "wants_close req \<longleftrightarrow> GetHeader ''Connection'' req = ''close'' \<or>
     req_version req = kHttp10 \<and> GetHeader ''Connection'' req \<noteq> ''Keep-Alive''"

definition handleRequest :: "(HttpRequest \<Rightarrow> HttpResponse \<Rightarrow> HttpResponse) \<Rightarrow> HttpRequest \<Rightarrow> conn_call list res" where
  "handleRequest httpCallback req =
     (let response = httpCallback req (HttpResponse_new (wants_close req)) in
      rbind (Buffer_new kInitialSize) (\<lambda>buf.
      rbind (AppendToBuffer response buf) (\<lambda>buf1.
        Inr (CallSend (content buf1) # (if closeConnection response then [CallShutdown] else [])))))"

definition bad_request :: string where
  "bad_request = ''HTTP/1.1 400 Bad Request'' @ kCRLF @ kCRLF"

text \<open>\<open>None\<close> is a handler that does not return; a connection without a context is dereferenced.\<close>

definition onMessage :: "(HttpRequest \<Rightarrow> HttpResponse \<Rightarrow> HttpResponse) \<Rightarrow> Timestamp \<Rightarrow> HttpContext option \<Rightarrow>
    Buffer \<Rightarrow> (conn_call list \<times> HttpContext option \<times> Buffer) res option" where
  "onMessage httpCallback now context buf =
     (case context of
        None \<Rightarrow> Some (Inl Undefined)
      | Some ctx \<Rightarrow>
          (case ParseRequest now ctx buf of
             None \<Rightarrow> None
           | Some (Inl e) \<Rightarrow> Some (Inl e)
           | Some (Inr (ok, ctx1, buf1)) \<Rightarrow>
               let calls = (if ok then [] else [CallSend bad_request, CallShutdown]) in
               if GotAll ctx1 then
                 Some (rbind (handleRequest httpCallback (request ctx1)) (\<lambda>rest.
                   Inr (calls @ rest, Some (Context_Reset ctx1), buf1)))
               else Some (Inr (calls, Some ctx1, buf1))))"

section \<open>Lines of the buffer\<close>

lemma std_search_line: "CHR 0x0D \<notin> set line \<Longrightarrow> std_search kCRLF (line @ kCRLF @ rest) = length line"
proof (induction line)
  case Nil
  then show ?case by (simp add: kCRLF_def)
next
  case (Cons c line)
  then have "take 2 (c # line @ kCRLF @ rest) \<noteq> kCRLF" by (auto simp: kCRLF_def take_Cons')
  with Cons show ?case by simp
qed

lemma between_content: "n \<le> length (content b) \<Longrightarrow> buf_inv b \<Longrightarrow>
    between (Peek b) (Peek b + n) b = take n (content b)"
  by (frule length_content)
    (simp add: between_def Peek_def content_def buf_inv_def take_drop_append min_absorb1)

lemma between_all: "buf_inv b \<Longrightarrow> between (Peek b) (BeginWrite b) b = content b"
  by (simp add: between_def Peek_def BeginWrite_def content_def buf_inv_def take_drop_append)

lemma first_line:
  assumes inv: "buf_inv b" and c: "content b = line @ kCRLF @ rest" and cr: "CHR 0x0D \<notin> set line"
  shows "FindCRLF b = Some (Peek b + length line)"
    and "between (Peek b) (Peek b + length line) b = line"
    and "\<exists>b'. RetrieveUntil (Peek b + length line + 2) b = Inr b' \<and> buf_inv b' \<and> content b' = rest"
proof -
  have len: "length (content b) = length line + 2 + length rest" by (simp add: c)
  then have "BeginWrite b = Peek b + length line + 2 + length rest"
    using inv by (simp add: buf_simps BeginWrite_def Peek_def buf_inv_def)
  then show "FindCRLF b = Some (Peek b + length line)"
    by (simp add: FindCRLF_def c std_search_line [OF cr])
  show "between (Peek b) (Peek b + length line) b = line"
    using between_content [OF _ inv, of "length line"] by (simp add: c)
  show "\<exists>b'. RetrieveUntil (Peek b + length line + 2) b = Inr b' \<and> buf_inv b' \<and> content b' = rest"
    using RetrieveUntil_ok [OF inv, of "length line + 2"] len by (auto simp: c add.assoc)
qed

section \<open>The parser returns\<close>

definition ctx_inv :: "HttpContext \<Rightarrow> bool" where
  "ctx_inv c \<longleftrightarrow> (state c = kExpectRequestLine \<longrightarrow>
     req_method (request c) = kInvalid \<and> req_version (request c) = kUnknown)"

lemma ParseRequestLine_ok:
  assumes "req_method (request c) = kInvalid" "req_version (request c) = kUnknown"
  shows "\<exists>ok c1. ParseRequestLine line c = Inr (ok, c1) \<and> state c1 = state c \<and> (\<not> ok \<longrightarrow> c1 = c)"
  using assms
  by (auto simp: ParseRequestLine_def SetMethod_def SetVersion_def Let_def split: option.splits list.splits)

definition rank :: "HttpContext \<Rightarrow> nat" where
  "rank c = (case state c of kExpectRequestLine \<Rightarrow> 3 | kExpectHeaders \<Rightarrow> 2 | kExpectBody \<Rightarrow> 1 | kGotAll \<Rightarrow> 0)"

lemma crlf_retrieve:
  assumes "buf_inv b" "FindCRLF b = Some p"
  shows "\<exists>b'. RetrieveUntil (p + 2) b = Inr b' \<and> buf_inv b' \<and> length (content b') < length (content b) \<and>
    (\<exists>pre. content b = pre @ content b')"
proof -
  from FindCRLF_Some [OF assms] obtain i where i: "p = Peek b + i" "i + 2 \<le> length (content b)" by blast
  from RetrieveUntil_ok [OF assms(1) i(2)] obtain b' where "RetrieveUntil (p + 2) b = Inr b'"
    "buf_inv b'" "content b' = drop (i + 2) (content b)" using i(1) by (auto simp: add.assoc)
  moreover have "content b = take (i + 2) (content b) @ drop (i + 2) (content b)" by simp
  ultimately show ?thesis using i(2) by (metis add_gr_0 diff_less length_drop less_le_trans zero_less_numeral)
qed

text \<open>Each iteration ends the loop or makes progress; it never faults.\<close>

lemma parse_iter_ok:
  assumes inv: "buf_inv b" and c: "ctx_inv c" and s: "state c \<noteq> kGotAll"
  shows "\<exists>go ok c1 b1. parse_iter now c b = Inr (go, ok, c1, b1) \<and> buf_inv b1 \<and> ctx_inv c1 \<and>
    (\<exists>pre. content b = pre @ content b1) \<and>
    (go \<longrightarrow> state c1 \<noteq> kGotAll \<and> (rank c1 + length (content b1) < rank c + length (content b)))"
proof (cases "state c")
  case kExpectRequestLine
  show ?thesis
  proof (cases "FindCRLF b")
    case None
    with kExpectRequestLine inv c show ?thesis by (auto simp: parse_iter_def)
  next
    case (Some p)
    from c kExpectRequestLine obtain ok c1 where l: "ParseRequestLine (between (Peek b) p b) c = Inr (ok, c1)"
      "state c1 = state c" "\<not> ok \<longrightarrow> c1 = c"
      using ParseRequestLine_ok [of c "between (Peek b) p b"] by (auto simp: ctx_inv_def)
    from crlf_retrieve [OF inv Some] obtain b' pre where b': "RetrieveUntil (p + 2) b = Inr b'" "buf_inv b'"
      "length (content b') < length (content b)" "content b = pre @ content b'" by blast
    show ?thesis
    proof (cases ok)
      case True
      with kExpectRequestLine Some l(1) b' show ?thesis
        by (auto simp: parse_iter_def ctx_inv_def rank_def)
    next
      case False
      with kExpectRequestLine Some l inv c show ?thesis by (auto simp: parse_iter_def)
    qed
  qed
next
  case kExpectHeaders
  show ?thesis
  proof (cases "FindCRLF b")
    case None
    with kExpectHeaders inv c show ?thesis by (auto simp: parse_iter_def)
  next
    case (Some p)
    from crlf_retrieve [OF inv Some] obtain b' pre where b': "RetrieveUntil (p + 2) b = Inr b'" "buf_inv b'"
      "length (content b') < length (content b)" "content b = pre @ content b'" by blast
    show ?thesis
    proof (cases "regex_match header_rx (between (Peek b) p b)")
      case None
      with kExpectHeaders Some b' inv c show ?thesis
        by (cases "Peek b = p") (auto simp: parse_iter_def ctx_inv_def rank_def)
    next
      case (Some m)
      with kExpectHeaders \<open>FindCRLF b = Some p\<close> b' show ?thesis
        by (auto simp: parse_iter_def ctx_inv_def rank_def)
    qed
  qed
next
  case kExpectBody
  with inv show ?thesis by (auto simp: parse_iter_def ctx_inv_def)
next
  case kGotAll
  with s show ?thesis by simp
qed

lemma ParseRequest_total:
  "buf_inv b \<Longrightarrow> ctx_inv c \<Longrightarrow> state c \<noteq> kGotAll \<Longrightarrow>
    \<exists>ok c1 b1. ParseRequest now c b = Some (Inr (ok, c1, b1)) \<and> buf_inv b1 \<and> ctx_inv c1 \<and>
      (\<exists>pre. content b = pre @ content b1)"
proof (induction "rank c + length (content b)" arbitrary: b c rule: less_induct)
  case less
  from parse_iter_ok [OF less.prems] obtain go ok c1 b1 pre where
    i: "parse_iter now c b = Inr (go, ok, c1, b1)" "buf_inv b1" "ctx_inv c1" "content b = pre @ content b1"
    and m: "go \<Longrightarrow> state c1 \<noteq> kGotAll" "go \<Longrightarrow> rank c1 + length (content b1) < rank c + length (content b)"
    by blast
  show ?case
  proof (cases go)
    case False
    with i show ?thesis by (subst ParseRequest.simps) auto
  next
    case True
    from less.hyps [OF m(2) [OF True] i(2,3) m(1) [OF True]] obtain ok2 c2 b2 pre2 where
      "ParseRequest now c1 b1 = Some (Inr (ok2, c2, b2))" "buf_inv b2" "ctx_inv c2"
      "content b1 = pre2 @ content b2" by blast
    with i True show ?thesis by (subst ParseRequest.simps) auto
  qed
qed

text \<open>A context that already has everything spins.\<close>

lemma ParseRequest_spins:
  assumes "state c = kGotAll"
  shows "ParseRequest now c b = None"
proof (cases "ParseRequest now c b")
  case (Some r)
  then have "state c \<noteq> kGotAll"
    by (rule ParseRequest.raw_induct [where P = "\<lambda>now c b y. state c \<noteq> kGotAll", rotated])
      (auto simp: parse_iter_def)
  with assms show ?thesis by simp
qed

section \<open>Well-formed requests\<close>

definition wf_line :: "Method \<Rightarrow> string \<Rightarrow> string \<Rightarrow> Version \<Rightarrow> bool" where
  "wf_line m p q v \<longleftrightarrow> m \<noteq> kInvalid \<and> v \<noteq> kUnknown \<and> p \<noteq> [] \<and> list_all path_char p \<and> list_all query_char q"

definition render_line :: "Method \<Rightarrow> string \<Rightarrow> string \<Rightarrow> Version \<Rightarrow> string" where
  "render_line m p q v =
     MethodNames m @ '' '' @ p @ (if q = [] then [] else ''?'' @ q) @ '' '' @ VersionNames v"

definition wf_header :: "string \<times> string \<Rightarrow> bool" where
  "wf_header = (\<lambda>(f, v). f \<noteq> [] \<and> CHR '':'' \<notin> set f \<and> CHR 0x0D \<notin> set f \<and>
     v \<noteq> [] \<and> \<not> is_space (hd v) \<and> list_all is_dot v)"

definition render_headers :: "(string \<times> string) list \<Rightarrow> string" where
  "render_headers hs = concat (map (\<lambda>(f, v). f @ '': '' @ v @ kCRLF) hs)"

lemma char_classes:
  "path_char c \<Longrightarrow> \<not> is_space c" "query_char c \<Longrightarrow> \<not> is_space c"
  "\<not> path_char (CHR ''?'')" "\<not> path_char (CHR '' '')" "\<not> query_char (CHR '' '')" "is_space (CHR '' '')"
  "\<not> is_space (CHR ''H'')"
  by (auto simp: path_char_def query_char_def is_word_def is_space_def in_range_def)

lemma is_space_CR: "is_space (CHR 0x0D)"
  by (simp add: is_space_def)

lemma first_method: "m \<noteq> kInvalid \<Longrightarrow> first_way method_rx (MethodNames m @ s) (MethodNames m, s, [])"
  by (cases m) (simp_all add: method_rx_def first_way_def Lit_run)

lemma first_version: "v \<noteq> kUnknown \<Longrightarrow> first_way version_rx (VersionNames v) (VersionNames v, [], [])"
  by (cases v) (simp_all add: version_rx_def first_way_def Lit_run)

lemma first_query:
  assumes "list_all query_char q" "r = CHR '' '' # r'" and b: "first_way b r (c', d, k')"
  shows "first_way (Seq (Opt (Cls (\<lambda>c. c = CHR ''?''))) (Seq (Group 3 (StarC query_char)) b))
      ((if q = [] then [] else ''?'' @ q) @ r) ((if q = [] then [] else ''?'' @ q) @ c', d, (3, q) # k')"
proof -
  have q: "first_way (Group 3 (StarC query_char)) (q @ r) (q, r, [(3, q)])"
    using assms(1,2) char_classes(5) by (intro first_Group first_StarC) simp_all
  have s: "first_way (Seq (Group 3 (StarC query_char)) b) (q @ r) (q @ c', d, [(3, q)] @ k')"
    by (rule first_Seq [OF q b])
  show ?thesis
  proof (cases "q = []")
    case True
    have o: "first_way (Opt (Cls (\<lambda>c. c = CHR ''?''))) r ([], r, [])"
      by (rule first_Opt_none) (simp add: assms(2))
    from s True have "first_way (Seq (Group 3 (StarC query_char)) b) r (c', d, (3, q) # k')" by simp
    from first_Seq [OF o this] True show ?thesis by simp
  next
    case False
    have "first_way (Opt (Cls (\<lambda>c. c = CHR ''?''))) (CHR ''?'' # (q @ r)) ([CHR ''?''], q @ r, [])"
      by (intro first_Opt first_Cls) simp
    from first_Seq [OF this s] False show ?thesis by simp
  qed
qed

lemma match_request_line:
  assumes "wf_line m p q v"
  shows "regex_match request_line_rx (render_line m p q v) =
    Some [(1, MethodNames m), (2, p), (3, q), (4, VersionNames v)]"
proof -
  note wf = assms [unfolded wf_line_def]
  let ?q = "if q = [] then [] else ''?'' @ q"
  let ?r = "'' '' @ VersionNames v"
  have hdv: "hd (VersionNames v) = CHR ''H''" "VersionNames v \<noteq> []" using wf by (cases v; simp)+
  have v: "first_way (Group 4 version_rx) (VersionNames v) (VersionNames v, [], [(4, VersionNames v)])"
    using wf by (intro first_Group first_version) simp
  have sv: "first_way (Seq (StarC is_space) (Group 4 version_rx)) ?r
      ('' '' @ VersionNames v, [], [] @ [(4, VersionNames v)])"
    using hdv char_classes(6,7) by (intro first_Seq [OF first_StarC v]) simp_all
  have qv: "first_way (Seq (Opt (Cls (\<lambda>c. c = CHR ''?''))) (Seq (Group 3 (StarC query_char))
      (Seq (StarC is_space) (Group 4 version_rx)))) (?q @ ?r)
      (?q @ ?r, [], [(3, q), (4, VersionNames v)])"
    using first_query [OF _ _ sv, of q] wf by simp
  have p: "first_way (Group 2 (PlusC path_char)) (p @ (?q @ ?r)) (p, ?q @ ?r, [(2, p)])"
    using wf char_classes(3,4) by (intro first_Group first_PlusC) auto
  have hdp: "\<not> is_space (hd p)" using wf char_classes(1) by (cases p) auto
  have sp: "first_way (StarC is_space) ('' '' @ (p @ (?q @ ?r))) ('' '', p @ (?q @ ?r), [])"
    using wf hdp char_classes(6) by (intro first_StarC) simp_all
  have m: "first_way (Group 1 method_rx) (MethodNames m @ ('' '' @ (p @ (?q @ ?r))))
      (MethodNames m, '' '' @ (p @ (?q @ ?r)), [(1, MethodNames m)])"
    using wf by (intro first_Group first_method) simp
  from first_Seq [OF m first_Seq [OF sp first_Seq [OF p qv]]]
  show ?thesis
    unfolding request_line_rx_def [symmetric] by (intro regex_match_first) (simp add: render_line_def)
qed

lemma match_header:
  assumes "wf_header (f, v)"
  shows "regex_match header_rx (f @ '': '' @ v) = Some [(1, f), (2, v)]"
proof -
  from assms have f: "f \<noteq> []" "list_all (\<lambda>c. c \<noteq> CHR '':'') f"
    and v: "v \<noteq> []" "\<not> is_space (hd v)" "list_all is_dot v"
    by (auto simp: wf_header_def list_all_iff)
  have 1: "first_way (Group 1 (PlusC (\<lambda>c. c \<noteq> CHR '':''))) (f @ (CHR '':'' # '' '' @ v))
      (f, CHR '':'' # '' '' @ v, [(1, f)])"
    using f by (intro first_Group first_PlusC) simp_all
  have 2: "first_way (Cls (\<lambda>c. c = CHR '':'')) (CHR '':'' # '' '' @ v) ([CHR '':''], '' '' @ v, [])"
    by (rule first_Cls) simp
  have 3: "first_way (StarC is_space) ('' '' @ v) ('' '', v, [])"
    using v char_classes(6) by (intro first_StarC) simp_all
  have 4: "first_way (Group 2 (PlusC is_dot)) (v @ []) (v, [], [(2, v)])"
    using v by (intro first_Group first_PlusC) simp_all
  from first_Seq [OF 1 first_Seq [OF 2 first_Seq [OF 3 4 [simplified]]]]
  show ?thesis unfolding header_rx_def [symmetric] by (intro regex_match_first) simp
qed

lemma header_rx_empty: "regex_match header_rx [] = None"
  by (simp add: header_rx_def regex_match_def PlusC_def)

lemma no_CR:
  "wf_line m p q v \<Longrightarrow> CHR 0x0D \<notin> set (render_line m p q v)"
  "wf_header (f, x) \<Longrightarrow> CHR 0x0D \<notin> set (f @ '': '' @ x)"
proof -
  have n: "\<not> path_char (CHR 0x0D)" "\<not> query_char (CHR 0x0D)" using char_classes(1,2) is_space_CR by blast+
  show "CHR 0x0D \<notin> set (render_line m p q v)" if "wf_line m p q v"
  proof -
    have "CHR 0x0D \<notin> set p" "CHR 0x0D \<notin> set q" using that n by (auto simp: wf_line_def list_all_iff)
    moreover have "CHR 0x0D \<notin> set (MethodNames m)" by (cases m) simp_all
    moreover have "CHR 0x0D \<notin> set (VersionNames v)" by (cases v) simp_all
    ultimately show ?thesis by (simp add: render_line_def)
  qed
  show "CHR 0x0D \<notin> set (f @ '': '' @ x)" if "wf_header (f, x)"
    using that by (auto simp: wf_header_def list_all_iff is_dot_def)
qed

text \<open>The request that a well-formed message describes.\<close>

definition parsed :: "Timestamp \<Rightarrow> Method \<Rightarrow> string \<Rightarrow> string \<Rightarrow> Version \<Rightarrow> (string \<times> string) list \<Rightarrow>
    string \<Rightarrow> HttpRequest" where
  "parsed now m p q v hs body =
     \<lparr>req_method = m, req_version = v, req_path = p, req_query = q, req_body = body,
      receiveTime = now, req_headers = fold (\<lambda>(k, x). map_set k x) hs []\<rparr>"

lemma ParseRequestLine_wf:
  assumes "wf_line m p q v" "request c = HttpRequest_new"
  shows "ParseRequestLine (render_line m p q v) c =
    Inr (True, c\<lparr>request := HttpRequest_new\<lparr>req_method := m, req_path := p, req_query := q, req_version := v\<rparr>\<rparr>)"
proof -
  have "SetMethod (MethodNames m) HttpRequest_new = Inr (True, HttpRequest_new\<lparr>req_method := m\<rparr>)"
    using assms(1) by (cases m) (simp_all add: SetMethod_def HttpRequest_new_def wf_line_def)
  moreover have "SetVersion (VersionNames v) r = Inr (False, r\<lparr>req_version := v\<rparr>)"
    if "req_version r = kUnknown" for r
    using assms(1) that by (cases v) (simp_all add: SetVersion_def wf_line_def)
  ultimately show ?thesis
    by (simp add: ParseRequestLine_def match_request_line [OF assms(1)] assms(2) submatch_def
        HttpRequest_new_def)
qed

lemma ParseRequest_headers:
  "list_all wf_header hs \<Longrightarrow> buf_inv b \<Longrightarrow> state c = kExpectHeaders \<Longrightarrow>
    content b = render_headers hs @ kCRLF @ body \<Longrightarrow>
    \<exists>b'. ParseRequest now c b = Some (Inr (True, c\<lparr>request := (request c)\<lparr>req_body := body,
        req_headers := fold (\<lambda>(k, x). map_set k x) hs (req_headers (request c))\<rparr>, state := kGotAll\<rparr>, b')) \<and>
      buf_inv b' \<and> content b' = body"
proof (induction hs arbitrary: b c)
  case Nil
  have e: "content b = [] @ kCRLF @ body" using Nil.prems(4) by (simp add: render_headers_def)
  note fl = first_line [OF Nil.prems(2) e]
  from fl(3) obtain b' where b': "RetrieveUntil (Peek b + 2) b = Inr b'" "buf_inv b'" "content b' = body" by auto
  have i: "parse_iter now c b = Inr (True, True, c\<lparr>state := kExpectBody\<rparr>, b')"
    using fl(1,2) b'(1) Nil.prems(3) by (simp add: parse_iter_def header_rx_empty)
  have "ParseRequest now (c\<lparr>state := kExpectBody\<rparr>) b' =
      Some (Inr (True, c\<lparr>request := (request c)\<lparr>req_body := body\<rparr>, state := kGotAll\<rparr>, b'))"
    by (subst ParseRequest.simps) (simp add: parse_iter_def between_all [OF b'(2)] b'(3))
  with i b' show ?case by (subst ParseRequest.simps) simp
next
  case (Cons h hs)
  obtain f v where h: "h = (f, v)" by (cases h)
  then have wf: "wf_header (f, v)" "list_all wf_header hs" using Cons.prems(1) by simp_all
  let ?line = "f @ '': '' @ v"
  have e: "content b = ?line @ kCRLF @ (render_headers hs @ kCRLF @ body)"
    using Cons.prems(4) by (simp add: render_headers_def h)
  note fl = first_line [OF Cons.prems(2) e no_CR(2) [OF wf(1)]]
  from fl(3) obtain b' where b': "RetrieveUntil (Peek b + length ?line + 2) b = Inr b'" "buf_inv b'"
    "content b' = render_headers hs @ kCRLF @ body" by blast
  let ?c = "c\<lparr>request := AddHeader f v (request c)\<rparr>"
  have i: "parse_iter now c b = Inr (True, True, ?c, b')"
    unfolding parse_iter_def Cons.prems(3) ParseState.case fl(1) option.case fl(2) match_header [OF wf(1)] b'(1)
    by (simp add: submatch_def)
  have "state ?c = kExpectHeaders" using Cons.prems(3) by simp
  from Cons.IH [OF wf(2) b'(2) this b'(3)] i show ?case
    by (subst ParseRequest.simps) (simp add: AddHeader_def h)
qed

lemma ParseRequest_wf:
  assumes "buf_inv b" and "wf_line m p q v" and "list_all wf_header hs"
    and c: "content b = render_line m p q v @ kCRLF @ render_headers hs @ kCRLF @ body"
  shows "\<exists>b'. ParseRequest now HttpContext_new b =
      Some (Inr (True, \<lparr>request = parsed now m p q v hs body, state = kGotAll\<rparr>, b')) \<and>
    buf_inv b' \<and> content b' = body"
proof -
  let ?line = "render_line m p q v"
  note fl = first_line [OF assms(1) c no_CR(1) [OF assms(2)]]
  from fl(3) obtain b' where b': "RetrieveUntil (Peek b + length ?line + 2) b = Inr b'" "buf_inv b'"
    "content b' = render_headers hs @ kCRLF @ body" by blast
  let ?r = "HttpRequest_new\<lparr>req_method := m, req_path := p, req_query := q, req_version := v, receiveTime := now\<rparr>"
  let ?c = "\<lparr>request = ?r, state = kExpectHeaders\<rparr>"
  have s: "state HttpContext_new = kExpectRequestLine" "request HttpContext_new = HttpRequest_new"
    by (simp_all add: HttpContext_new_def)
  have "parse_iter now HttpContext_new b = Inr (True, True, ?c, b')"
    unfolding parse_iter_def s(1) ParseState.case fl(1) option.case fl(2)
      ParseRequestLine_wf [OF assms(2) s(2)] rbind_simps
    by (use b'(1) in \<open>simp add: HttpContext_new_def\<close>)
  moreover from ParseRequest_headers [OF assms(3) b'(2) _ b'(3), of ?c] obtain b2 where
    "ParseRequest now ?c b' = Some (Inr (True, \<lparr>request = ?r\<lparr>req_body := body,
        req_headers := fold (\<lambda>(k, x). map_set k x) hs []\<rparr>, state = kGotAll\<rparr>, b2))"
    "buf_inv b2" "content b2 = body" by (auto simp: HttpRequest_new_def)
  ultimately show ?thesis
    by (subst ParseRequest.simps) (simp add: parsed_def HttpRequest_new_def)
qed

section \<open>Responses\<close>

definition response_text :: "HttpResponse \<Rightarrow> string" where
  "response_text r =
     ''HTTP/1.1 '' @ show_int (status_number (statusCode r)) @ '' '' @ statusMessage r @ kCRLF @
     (if closeConnection r then ''Connection: close'' @ kCRLF
      else ''Content-Length: '' @ show_int (int (length (resp_body r))) @ kCRLF @
           ''Connection: Keep-Alive'' @ kCRLF) @
     concat (map (\<lambda>(k, v). k @ '': '' @ v @ kCRLF) (resp_headers r)) @ kCRLF @ resp_body r"

lemma show_status: "length (show_int (status_number c)) \<le> 3"
  by (cases c) (simp_all add: show_int_def nat_digits.simps)

lemma snprintf_fits: "length s < n \<Longrightarrow> snprintf n s = s"
  by (simp add: snprintf_def)

lemma response_pieces:
  assumes "length (resp_body r) < 10 ^ 13"
  shows "concat (status_line r @ connection_lines r @ header_lines r @ [kCRLF, resp_body r]) = response_text r"
proof -
  have 1: "snprintf 32 (''HTTP/1.1 '' @ show_int (status_number (statusCode r)) @ '' '') =
      ''HTTP/1.1 '' @ show_int (status_number (statusCode r)) @ '' ''"
    using show_status [of "statusCode r"] by (intro snprintf_fits) simp
  have "length (show_int (int (length (resp_body r)))) \<le> 13"
    using length_nat_digits [OF assms] by (simp add: show_int_def)
  then have 2: "snprintf 32 (''Content-Length: '' @ show_int (int (length (resp_body r))) @ kCRLF) =
      ''Content-Length: '' @ show_int (int (length (resp_body r))) @ kCRLF"
    by (intro snprintf_fits) simp
  have "concat (concat (map (\<lambda>(k, v). [k, '': '', v, kCRLF]) hs)) =
      concat (map (\<lambda>(k, v). k @ '': '' @ v @ kCRLF) hs)" for hs
    by (induction hs) auto
  then have 3: "concat (header_lines r) = concat (map (\<lambda>(k, v). k @ '': '' @ v @ kCRLF) (resp_headers r))"
    by (simp add: header_lines_def)
  show ?thesis
    unfolding concat_append status_line_def connection_lines_def 1 2 3 by (simp add: response_text_def)
qed

lemma AppendToBuffer_ok:
  assumes "buf_inv b" "buf_room (length (response_text r)) b" "length (resp_body r) < 10 ^ 13"
  shows "\<exists>b'. AppendToBuffer r b = Inr b' \<and> buf_inv b' \<and> content b' = content b @ response_text r"
  using buf.put_all_ok [OF assms(1), of "status_line r @ connection_lines r @ header_lines r @ [kCRLF, resp_body r]"]
    assms(2) unfolding response_pieces [OF assms(3)] AppendToBuffer_def .

lemma handleRequest_ok:
  assumes "r = cb req (HttpResponse_new (wants_close req))" and "length (resp_body r) < 10 ^ 13"
    and "length (response_text r) + 8 \<le> vector_max"
  shows "handleRequest cb req =
    Inr (CallSend (response_text r) # (if closeConnection r then [CallShutdown] else []))"
proof -
  have "kInitialSize + kInitPrependSize \<le> vector_max"
    by (simp add: kInitialSize_def kInitPrependSize_def vector_max_def)
  from Buffer_new_ok [OF this] obtain b where b: "Buffer_new kInitialSize = Inr b" "buf_inv b" "content b = []"
    "writeIndex b = kInitPrependSize" by blast
  have "buf_room (length (response_text r)) b"
    using assms(3) b(4) by (simp add: buf_room_def kInitPrependSize_def)
  from AppendToBuffer_ok [OF b(2) this assms(2)] obtain b' where
    "AppendToBuffer r b = Inr b'" "content b' = response_text r" using b(3) by auto
  with b(1) show ?thesis by (simp add: handleRequest_def assms(1) [symmetric])
qed

section \<open>The server's handler\<close>

lemma onMessage_bad:
  assumes "state ctx = kExpectRequestLine"
    and "FindCRLF b = None \<or> (\<exists>p. FindCRLF b = Some p \<and> regex_match request_line_rx (between (Peek b) p b) = None)"
  shows "onMessage cb now (Some ctx) b = Some (Inr ([CallSend bad_request, CallShutdown], Some ctx, b))"
proof -
  have "parse_iter now ctx b = Inr (False, False, ctx, b)"
    using assms by (auto simp: parse_iter_def ParseRequestLine_def)
  then have "ParseRequest now ctx b = Some (Inr (False, ctx, b))" by (subst ParseRequest.simps) simp
  then show ?thesis using assms(1) by (simp add: onMessage_def GotAll_def)
qed

lemma request_line_rx_hd:
  assumes "line = [] \<or> hd line \<notin> set ''GPHD''"
  shows "regex_match request_line_rx line = None"
proof -
  have "rx_run method_rx line = []"
    using assms by (cases line) (auto simp: method_rx_def Lit_run)
  then show ?thesis by (simp add: regex_match_def request_line_rx_def)
qed

lemma onMessage_wf:
  assumes "buf_inv b" and "wf_line m p q v" and "list_all wf_header hs"
    and "content b = render_line m p q v @ kCRLF @ render_headers hs @ kCRLF @ body"
    and r: "r = cb (parsed now m p q v hs body) (HttpResponse_new (wants_close (parsed now m p q v hs body)))"
    and "length (resp_body r) < 10 ^ 13" "length (response_text r) + 8 \<le> vector_max"
  shows "\<exists>b'. onMessage cb now (Some HttpContext_new) b =
      Some (Inr (CallSend (response_text r) # (if closeConnection r then [CallShutdown] else []),
        Some HttpContext_new, b')) \<and> buf_inv b' \<and> content b' = body"
proof -
  from ParseRequest_wf [OF assms(1-4), of now] obtain b' where
    "ParseRequest now HttpContext_new b =
      Some (Inr (True, \<lparr>request = parsed now m p q v hs body, state = kGotAll\<rparr>, b'))"
    "buf_inv b'" "content b' = body" by blast
  with handleRequest_ok [where cb = cb, OF r assms(6,7)] show ?thesis
    by (simp add: onMessage_def GotAll_def Context_Reset_def Request_Swap_def HttpContext_new_def)
qed

section \<open>Properties\<close>

text \<open>
  C18. Parsing a request: for every buffer whose readable bytes are a well-formed request line,
  well-formed headers and the empty line, in whatever place of the vector they lie,
  \<^verbatim>\<open>ParseRequest\<close> returns true with exactly that method, path, query and version, the headers
  in a map where the last value of a name wins, and everything after the empty line as the body;
  the request line and the headers are consumed and the body is left in the buffer.
\<close>

theorem ParseRequest_wellformed:
  assumes "buf_inv b" and "wf_line m p q v" and "list_all wf_header hs"
    and "content b = render_line m p q v @ kCRLF @ render_headers hs @ kCRLF @ body"
  shows "\<exists>r b'. ParseRequest now HttpContext_new b = Some (Inr (True, \<lparr>request = r, state = kGotAll\<rparr>, b')) \<and>
    req_method r = m \<and> req_path r = p \<and> req_query r = q \<and> req_version r = v \<and> req_body r = body \<and>
    (\<forall>f. GetHeader f r = (case map_of (rev hs) f of None \<Rightarrow> [] | Some x \<Rightarrow> x)) \<and>
    buf_inv b' \<and> content b' = body"
proof -
  have "map_wf ([] :: (string, string) std_map)" by (simp add: map_wf_def)
  from smap.assign_all_find [OF this] have
    "map_find f (fold (\<lambda>(k, x). map_set k x) hs []) = map_of (rev hs) f" for f
    by (simp add: smap.assign_all_def map_find_def split: option.splits)
  then have "GetHeader f (parsed now m p q v hs body) = (case map_of (rev hs) f of None \<Rightarrow> [] | Some x \<Rightarrow> x)" for f
    by (simp add: GetHeader_def parsed_def)
  with ParseRequest_wf [OF assms, of now] show ?thesis
    by (intro exI [of _ "parsed now m p q v hs body"]) (auto simp: parsed_def)
qed

text \<open>A buffer that holds a given text.\<close>

definition buffer_of :: "string \<Rightarrow> Buffer" where
  "buffer_of t = \<lparr>buffer = ''????????'' @ t, readIndex = 8, writeIndex = 8 + length t\<rparr>"

lemma buffer_of_ok: "length t < 2 ^ 32 \<Longrightarrow> buf_inv (buffer_of t)" "content (buffer_of t) = t"
  by (simp_all add: buf_inv_def buffer_of_def content_def kInitPrependSize_def vector_max_def)

theorem ParseRequest_wellformed_witness:
  "\<exists>r b'. ParseRequest (Timestamp 3) HttpContext_new
      (buffer_of (''GET /a?b=1 HTTP/1.1'' @ kCRLF @ ''Host: x'' @ kCRLF @ kCRLF @ ''hi'')) =
      Some (Inr (True, \<lparr>request = r, state = kGotAll\<rparr>, b')) \<and>
    req_method r = kGet \<and> req_path r = ''/a'' \<and> req_query r = ''b=1'' \<and> GetHeader ''Host'' r = ''x'' \<and>
    content b' = ''hi''"
proof -
  let ?t = "''GET /a?b=1 HTTP/1.1'' @ kCRLF @ ''Host: x'' @ kCRLF @ kCRLF @ ''hi''"
  have "buf_inv (buffer_of ?t)" by (rule buffer_of_ok) simp
  moreover have "wf_line kGet ''/a'' ''b=1'' kHttp11"
    by (simp add: wf_line_def path_char_def query_char_def is_word_def in_range_def)
  moreover have "list_all wf_header [(''Host'', ''x'')]"
    by (simp add: wf_header_def is_space_def is_dot_def)
  moreover have "content (buffer_of ?t) =
      render_line kGet ''/a'' ''b=1'' kHttp11 @ kCRLF @ render_headers [(''Host'', ''x'')] @ kCRLF @ ''hi''"
    by (simp add: buffer_of_ok render_line_def render_headers_def)
  ultimately obtain r b' where "ParseRequest (Timestamp 3) HttpContext_new (buffer_of ?t) =
      Some (Inr (True, \<lparr>request = r, state = kGotAll\<rparr>, b'))" "req_method r = kGet" "req_path r = ''/a''"
    "req_query r = ''b=1''" "content b' = ''hi''"
    "\<forall>f. GetHeader f r = (case map_of (rev [(''Host'', ''x'')]) f of None \<Rightarrow> [] | Some x \<Rightarrow> x)"
    using ParseRequest_wellformed [of "buffer_of ?t" kGet "''/a''" "''b=1''" kHttp11 "[(''Host'', ''x'')]" "''hi''"
      "Timestamp 3"] by blast
  then show ?thesis by (intro exI [of _ r] exI [of _ b']) simp
qed

text \<open>
  C29. The parser's loop: on a well-formed buffer and from every state of the context but the
  last, it returns, without a fault, and has consumed a prefix of the readable bytes; from the
  state \<^verbatim>\<open>kGotAll\<close> it never returns.
\<close>

theorem ParseRequest_returns:
  assumes "buf_inv b" and "ctx_inv c"
  shows "if state c = kGotAll then ParseRequest now c b = None
    else \<exists>ok c' b'. ParseRequest now c b = Some (Inr (ok, c', b')) \<and> buf_inv b' \<and>
      (\<exists>pre. content b = pre @ content b')"
  using ParseRequest_total [OF assms, of now] ParseRequest_spins [of c now b] by auto

theorem ParseRequest_returns_witness:
  "\<exists>ok c' b'. ParseRequest (Timestamp 0) HttpContext_new (buffer_of ''?'') = Some (Inr (ok, c', b'))"
proof -
  have "buf_inv (buffer_of ''?'')" "ctx_inv HttpContext_new"
    by (simp_all add: buffer_of_ok ctx_inv_def HttpContext_new_def HttpRequest_new_def)
  from ParseRequest_returns [OF this, of "Timestamp 0"] show ?thesis
    by (auto simp: HttpContext_new_def)
qed

text \<open>
  C31. Formatting a response: \<^verbatim>\<open>AppendToBuffer\<close> appends exactly the status line, either
  \<^verbatim>\<open>Connection: close\<close> or the length of the body in decimal and
  \<^verbatim>\<open>Connection: Keep-Alive\<close>, the headers in the order of their names, the empty line and the
  body; its fixed block of 32 bytes truncates nothing for bodies below \<open>10 ^ 13\<close> bytes.
\<close>

theorem AppendToBuffer_format:
  assumes "buf_inv b" "buf_room (length (response_text r)) b" "length (resp_body r) < 10 ^ 13"
  shows "\<exists>b'. AppendToBuffer r b = Inr b' \<and> buf_inv b' \<and> content b' = content b @ response_text r"
  by (rule AppendToBuffer_ok [OF assms])

theorem AppendToBuffer_format_witness:
  "\<exists>b'. AppendToBuffer (DefaultHttpCallback HttpRequest_new (HttpResponse_new False)) (buffer_of []) = Inr b' \<and>
    content b' = ''HTTP/1.1 200 ok'' @ kCRLF @ ''Connection: close'' @ kCRLF @ kCRLF @
      ''<p>Hello, wethands!</p>'' @ kCRLF"
proof -
  let ?r = "DefaultHttpCallback HttpRequest_new (HttpResponse_new False)"
  have t: "response_text ?r = ''HTTP/1.1 200 ok'' @ kCRLF @ ''Connection: close'' @ kCRLF @ kCRLF @
      ''<p>Hello, wethands!</p>'' @ kCRLF"
    by (simp add: response_text_def DefaultHttpCallback_def HttpResponse_new_def Response_SetBody_def
        SetCloseConnection_def SetStatusMessage_def SetStatusCode_def show_int_def nat_digits.simps digit_char_def)
  have "buf_room (length (response_text ?r)) (buffer_of [])"
    by (simp add: t buf_room_def buffer_of_def vector_max_def)
  moreover have "length (resp_body ?r) < 10 ^ 13"
    by (simp add: DefaultHttpCallback_def Response_SetBody_def)
  moreover have "buf_inv (buffer_of [])" by (rule buffer_of_ok) simp
  ultimately obtain b' where "AppendToBuffer ?r (buffer_of []) = Inr b'"
    "content b' = content (buffer_of []) @ response_text ?r"
    using AppendToBuffer_format [of "buffer_of []" ?r] by blast
  then show ?thesis unfolding t by (auto simp: buffer_of_ok)
qed

text \<open>
  Serving a request: when a well-formed request is in the buffer, the handler makes exactly
  one answer, the formatted response that the user's callback produced from the parsed request
  and a response that wants to close as the \<^verbatim>\<open>Connection\<close> header and the version say; it
  shuts the connection down exactly when the response says so, and the context is fresh again.
\<close>

theorem onMessage_answers:
  assumes "buf_inv b" and "wf_line m p q v" and "list_all wf_header hs"
    and "content b = render_line m p q v @ kCRLF @ render_headers hs @ kCRLF @ body"
    and "r = cb (parsed now m p q v hs body) (HttpResponse_new (wants_close (parsed now m p q v hs body)))"
    and "length (resp_body r) < 10 ^ 13" "length (response_text r) + 8 \<le> vector_max"
  shows "\<exists>b'. onMessage cb now (Some HttpContext_new) b =
      Some (Inr (CallSend (response_text r) # (if closeConnection r then [CallShutdown] else []),
        Some HttpContext_new, b')) \<and> buf_inv b' \<and> content b' = body"
  by (rule onMessage_wf) (fact assms)+

theorem onMessage_answers_witness:
  "\<exists>b'. onMessage (\<lambda>req resp. resp\<lparr>resp_body := req_path req\<rparr>) (Timestamp 0) (Some HttpContext_new)
      (buffer_of (''GET / HTTP/1.0'' @ kCRLF @ kCRLF)) =
    Some (Inr ([CallSend (''HTTP/1.1 0 '' @ kCRLF @ ''Connection: close'' @ kCRLF @ kCRLF @ ''/''), CallShutdown],
      Some HttpContext_new, b'))"
proof -
  let ?t = "''GET / HTTP/1.0'' @ kCRLF @ kCRLF"
  let ?cb = "\<lambda>req resp. resp\<lparr>resp_body := req_path req\<rparr>"
  let ?req = "parsed (Timestamp 0) kGet ''/'' [] kHttp10 [] []"
  let ?r = "?cb ?req (HttpResponse_new (wants_close ?req))"
  have w: "wants_close ?req = True" by (simp add: wants_close_def parsed_def GetHeader_def map_find_def)
  have r: "?r = (HttpResponse_new True)\<lparr>resp_body := ''/''\<rparr>" unfolding w by (simp add: parsed_def)
  have t: "response_text ?r = ''HTTP/1.1 0 '' @ kCRLF @ ''Connection: close'' @ kCRLF @ kCRLF @ ''/''"
    unfolding r by (simp add: response_text_def HttpResponse_new_def show_int_def nat_digits.simps digit_char_def)
  have "buf_inv (buffer_of ?t)" by (rule buffer_of_ok) simp
  moreover have "wf_line kGet ''/'' [] kHttp10" by (simp add: wf_line_def path_char_def)
  moreover have "content (buffer_of ?t) = render_line kGet ''/'' [] kHttp10 @ kCRLF @ render_headers [] @ kCRLF @ []"
    by (simp add: buffer_of_ok render_line_def render_headers_def)
  moreover have "length (resp_body ?r) < 10 ^ 13" "length (response_text ?r) + 8 \<le> vector_max"
    unfolding t by (simp_all add: parsed_def vector_max_def)
  moreover have "closeConnection ?r" unfolding r by (simp add: HttpResponse_new_def)
  ultimately show ?thesis
    using onMessage_answers [of "buffer_of ?t" kGet "''/''" "[]" kHttp10 "[]" "[]" ?r ?cb "Timestamp 0"]
    unfolding t by auto
qed

text \<open>
  A request that arrives in pieces is refused: if the bytes read so far contain no line end,
  as when the request line is split over two reads, the handler answers 400 and shuts the
  connection down, although the bytes stay in the buffer and the rest may still come.
\<close>

theorem split_request_line_refused:
  assumes "state ctx = kExpectRequestLine" and "FindCRLF b = None"
  shows "onMessage cb now (Some ctx) b = Some (Inr ([CallSend bad_request, CallShutdown], Some ctx, b))"
  using onMessage_bad [OF assms(1)] assms(2) by blast

theorem split_request_line_refused_witness:
  "onMessage DefaultHttpCallback (Timestamp 0) (Some HttpContext_new) (buffer_of ''GET /in'') =
    Some (Inr ([CallSend bad_request, CallShutdown], Some HttpContext_new, buffer_of ''GET /in''))"
  by (rule split_request_line_refused)
    (simp_all add: HttpContext_new_def FindCRLF_def Peek_def BeginWrite_def kCRLF_def content_def buffer_of_def)

text \<open>
  The body of a request is not consumed: on a connection that stays open, after a request
  with a body has been answered, the body is still at the front of the buffer, and unless it looks
  like the start of a request line, the next request, however well formed, is answered 400.
\<close>

theorem request_body_not_consumed:
  assumes "buf_inv b" and "wf_line m p q v" and "list_all wf_header hs"
    and "content b = render_line m p q v @ kCRLF @ render_headers hs @ kCRLF @ body"
    and "r = cb (parsed now m p q v hs body) (HttpResponse_new (wants_close (parsed now m p q v hs body)))"
    and "length (resp_body r) < 10 ^ 13" "length (response_text r) + 8 \<le> vector_max"
    and "body \<noteq> []" "hd body \<notin> set ''GPHD''"
  shows "\<exists>calls b'. onMessage cb now (Some HttpContext_new) b = Some (Inr (calls, Some HttpContext_new, b')) \<and>
    (\<forall>b2 rest. buf_inv b2 \<and> content b2 = content b' @ rest \<longrightarrow>
      onMessage cb now (Some HttpContext_new) b2 =
        Some (Inr ([CallSend bad_request, CallShutdown], Some HttpContext_new, b2)))"
proof -
  have "\<exists>b'. onMessage cb now (Some HttpContext_new) b =
      Some (Inr (CallSend (response_text r) # (if closeConnection r then [CallShutdown] else []),
        Some HttpContext_new, b')) \<and> buf_inv b' \<and> content b' = body"
    by (rule onMessage_wf) (fact assms)+
  then obtain b' calls where
    b': "onMessage cb now (Some HttpContext_new) b = Some (Inr (calls, Some HttpContext_new, b'))"
    "content b' = body" by blast
  have "onMessage cb now (Some HttpContext_new) b2 =
      Some (Inr ([CallSend bad_request, CallShutdown], Some HttpContext_new, b2))"
    if b2: "buf_inv b2" "content b2 = body @ rest" for b2 rest
  proof (rule onMessage_bad)
    show "state HttpContext_new = kExpectRequestLine" by (simp add: HttpContext_new_def)
    have "regex_match request_line_rx (between (Peek b2) p b2) = None" if "FindCRLF b2 = Some p" for p
    proof -
      from FindCRLF_Some [OF b2(1) that] obtain i where i: "p = Peek b2 + i" "i + 2 \<le> length (content b2)" by blast
      with between_content [of i b2] b2 have "between (Peek b2) p b2 = take i (body @ rest)" by simp
      then show ?thesis using assms(8,9) by (intro request_line_rx_hd) (cases body; cases i; auto)
    qed
    then show "FindCRLF b2 = None \<or> (\<exists>p. FindCRLF b2 = Some p \<and>
        regex_match request_line_rx (between (Peek b2) p b2) = None)" by (cases "FindCRLF b2") auto
  qed
  with b' show ?thesis by auto
qed

theorem request_body_not_consumed_witness:
  "\<exists>calls b'. onMessage (\<lambda>req resp. resp) (Timestamp 0) (Some HttpContext_new)
      (buffer_of (''POST / HTTP/1.1'' @ kCRLF @ kCRLF @ ''x=1'')) = Some (Inr (calls, Some HttpContext_new, b'))"
proof -
  let ?t = "''POST / HTTP/1.1'' @ kCRLF @ kCRLF @ ''x=1''"
  let ?req = "parsed (Timestamp 0) kPost ''/'' [] kHttp11 [] ''x=1''"
  let ?r = "HttpResponse_new (wants_close ?req)"
  have w: "wants_close ?req = False" by (simp add: wants_close_def parsed_def GetHeader_def map_find_def)
  have "buf_inv (buffer_of ?t)" by (rule buffer_of_ok) simp
  moreover have "wf_line kPost ''/'' [] kHttp11" by (simp add: wf_line_def path_char_def)
  moreover have "content (buffer_of ?t) =
      render_line kPost ''/'' [] kHttp11 @ kCRLF @ render_headers [] @ kCRLF @ ''x=1''"
    by (simp add: buffer_of_ok render_line_def render_headers_def)
  moreover have "length (resp_body ?r) < 10 ^ 13" "length (response_text ?r) + 8 \<le> vector_max"
    by (simp_all add: HttpResponse_new_def response_text_def w show_int_def nat_digits.simps vector_max_def)
  ultimately show ?thesis
    using request_body_not_consumed [of "buffer_of ?t" kPost "''/''" "[]" kHttp11 "[]" "''x=1''" ?r
      "\<lambda>req resp. resp" "Timestamp 0"] by auto
qed

end
