(* ===== verification/Tcp.thy ===== *)
theory Tcp
  imports NetBuffer Channels
begin

text \<open>
  One TCP connection: \<^verbatim>\<open>src/net/TcpConnection.h\<close> and \<^verbatim>\<open>src/net/TcpConnection.cc\<close>, with
  the calls of \<^verbatim>\<open>src/net/Socket.cc\<close> that it makes.

  The answers of \<^verbatim>\<open>write\<close> and the callbacks are arguments of the operations (\<open>conn_env\<close>).
  The callbacks are then those of a user who reacts to every event with a script of calls of the
  connection's interface (\<open>'c conn_op\<close>), and the close callback of the connection's owner;
  as such a call may run a callback again, \<open>call_back\<close> counts the depth of the stack.
  Of the channel only the event mask matters here, its registration is the subject of theory
  \<open>Channels\<close>.
\<close>

section \<open>State\<close>

datatype States = kConnecting | kConnected | kDisconnecting | kDisconnected

text \<open>The user's callbacks, with what they are told.\<close>

datatype conn_event = EvConnection | EvMessage | EvWriteComplete | EvHighWater nat | EvClose

text \<open>Tasks waiting in the loop.\<close>

datatype conn_task = TaskSend string | TaskShutdown | TaskForceClose | TaskStartRead | TaskStopRead
  | TaskHighWater nat | TaskDestroy

text \<open>
  \<open>accepted\<close> logs the bytes that \<^verbatim>\<open>SendInLoop\<close> took over, \<open>wire\<close> those the kernel took,
  \<open>received\<close> those read, \<open>consumed\<close> those the user took out of the input buffer, \<open>calls\<close> the callbacks;
  \<open>wrShut\<close> says that the write side was shut down; \<open>writes\<close> counts the calls of \<^verbatim>\<open>write\<close>.
  \<open>closes\<close> counts the close callbacks that the owner's loop has still to work on, \<open>destroyed\<close> the runs
  of \<^verbatim>\<open>ConnectionDestroyed\<close>, and \<open>lateForce\<close> says that \<^verbatim>\<open>ForceClose\<close> was called on a
  connection that was not open.
\<close>

record 'c TcpConnection =
  tstate :: States
  reading :: bool
  chEvents :: "32 word"
  chInPoller :: bool
  inputBuffer :: Buffer
  outputBuffer :: Buffer
  highWaterMark :: nat
  hasWriteComplete :: bool
  hasMessage :: bool
  hasHighWater :: bool
  tasks :: "conn_task list"
  writes :: nat
  accepted :: string
  wire :: string
  received :: string
  consumed :: string
  wrShut :: bool
  calls :: "conn_event list"
  closes :: nat
  destroyed :: nat
  lateForce :: bool
  any_context :: "'c option"

datatype errno = EPIPE | EINTR | EWOULDBLOCK | OtherError

datatype write_result = Written nat | WriteError errno

record 'c conn_env =
  sockWrite :: "nat \<Rightarrow> string \<Rightarrow> write_result"
  user :: "conn_event \<Rightarrow> 'c TcpConnection \<Rightarrow> 'c TcpConnection res"

definition TcpConnection_new :: "bool \<Rightarrow> bool \<Rightarrow> bool \<Rightarrow> 'c TcpConnection res" where
  "TcpConnection_new wc msg hw =
     rbind (Buffer_new kInitialSize) (\<lambda>inb. rbind (Buffer_new kInitialSize) (\<lambda>outb.
       Inr \<lparr>tstate = kConnecting, reading = False, chEvents = kNoneEvent, chInPoller = False,
            inputBuffer = inb, outputBuffer = outb, highWaterMark = 64 * 1024 * 1024,
            hasWriteComplete = wc, hasMessage = msg, hasHighWater = hw, tasks = [], writes = 0,
            accepted = [], wire = [], received = [], consumed = [], wrShut = False,
            calls = [], closes = 0, destroyed = 0, lateForce = False, any_context = None\<rparr>))"

text \<open>\<^verbatim>\<open>EnableReading\<close> and its like on the connection's channel; they register it.\<close>

definition update_channel :: "mask_op \<Rightarrow> 'c TcpConnection \<Rightarrow> 'c TcpConnection" where
  "update_channel m s = s\<lparr>chEvents := apply_mask m (chEvents s), chInPoller := True\<rparr>"

definition conn_IsWriting :: "'c TcpConnection \<Rightarrow> bool" where
  "conn_IsWriting s \<longleftrightarrow> chEvents s AND kWriteEvent \<noteq> 0"

definition conn_IsReading :: "'c TcpConnection \<Rightarrow> bool" where
  "conn_IsReading s \<longleftrightarrow> chEvents s AND kReadEvent \<noteq> 0"

definition callback :: "'c conn_env \<Rightarrow> conn_event \<Rightarrow> 'c TcpConnection \<Rightarrow> 'c TcpConnection res" where
  "callback env ev s = user env ev (s\<lparr>calls := calls s @ [ev]\<rparr>)"

definition enqueue :: "conn_task \<Rightarrow> 'c TcpConnection \<Rightarrow> 'c TcpConnection" where
  "enqueue t s = s\<lparr>tasks := tasks s @ [t]\<rparr>"

section \<open>Sending\<close>

text \<open>The second half of \<^verbatim>\<open>SendInLoop\<close>: what the kernel did not take goes to the output buffer.\<close>

definition buffer_rest :: "string \<Rightarrow> nat \<Rightarrow> nat \<Rightarrow> 'c TcpConnection \<Rightarrow> 'c TcpConnection res" where
  "buffer_rest data writen remaining s =
     ensure (remaining \<le> length data)
       (let oldBytes = ReadableBytes (outputBuffer s);
            s1 = (if sz_add oldBytes remaining \<ge> highWaterMark s \<and> oldBytes < highWaterMark s \<and> hasHighWater s
                  then enqueue (TaskHighWater (sz_add oldBytes remaining)) s else s)
        in rbind (Append (take remaining (drop writen data)) (outputBuffer s1)) (\<lambda>outb.
             let s2 = s1\<lparr>outputBuffer := outb\<rparr> in
             Inr (if \<not> conn_IsWriting s2 then update_channel EnableWriting s2 else s2)))"

definition SendInLoop :: "'c conn_env \<Rightarrow> bool \<Rightarrow> string \<Rightarrow> 'c TcpConnection \<Rightarrow> 'c TcpConnection res" where
  "SendInLoop env inLoop data s =
     ensure inLoop
       (if tstate s \<noteq> kConnected then Inr s
        else
          let s0 = s\<lparr>accepted := accepted s @ data\<rparr> in
          if \<not> conn_IsWriting s \<and> ReadableBytes (outputBuffer s) = 0 then
            let s1 = s0\<lparr>writes := Suc (writes s)\<rparr> in
            case sockWrite env (writes s) data of
              Written n \<Rightarrow>
                let s2 = s1\<lparr>wire := wire s @ take n data\<rparr>; remaining = sz_sub (length data) n in
                if remaining = 0 \<and> hasWriteComplete s2 then callback env EvWriteComplete s2
                else buffer_rest data n remaining s2
            | WriteError e \<Rightarrow>
                if e = EPIPE \<or> e = EINTR \<or> e = EWOULDBLOCK then buffer_rest data 0 (length data) s1
                else Inl Fatal
          else buffer_rest data 0 (length data) s0)"

definition Send :: "'c conn_env \<Rightarrow> bool \<Rightarrow> string \<Rightarrow> 'c TcpConnection \<Rightarrow> 'c TcpConnection res" where
  "Send env inLoop data s =
     (if tstate s \<noteq> kConnected then Inr s
      else if inLoop then SendInLoop env inLoop data s
      else Inr (enqueue (TaskSend data) s))"

text \<open>
  \<^verbatim>\<open>Send(Buffer*)\<close> on the connection's own input buffer, as an echo server calls it: it takes
  everything out of the buffer and sends it.
\<close>

definition Send_buffer :: "'c conn_env \<Rightarrow> bool \<Rightarrow> 'c TcpConnection \<Rightarrow> 'c TcpConnection res" where
  "Send_buffer env inLoop s =
     rbind (RetrieveAllAsString (inputBuffer s)) (\<lambda>(data, buf).
       Send env inLoop data (s\<lparr>inputBuffer := buf, consumed := consumed s @ data\<rparr>))"

section \<open>Reading on and off, shutting down, closing\<close>

definition StartReadInLoop :: "bool \<Rightarrow> 'c TcpConnection \<Rightarrow> 'c TcpConnection res" where
  "StartReadInLoop inLoop s =
     ensure inLoop (Inr (if \<not> reading s \<and> \<not> conn_IsReading s
       then (update_channel EnableReading s)\<lparr>reading := True\<rparr> else s))"

definition StopReadInLoop :: "bool \<Rightarrow> 'c TcpConnection \<Rightarrow> 'c TcpConnection res" where
  "StopReadInLoop inLoop s =
     ensure inLoop (Inr (if reading s \<and> conn_IsReading s
       then (update_channel DisableReading s)\<lparr>reading := False\<rparr> else s))"

definition StartRead :: "bool \<Rightarrow> 'c TcpConnection \<Rightarrow> 'c TcpConnection res" where
  "StartRead inLoop s = (if inLoop then StartReadInLoop inLoop s else Inr (enqueue TaskStartRead s))"

definition StopRead :: "bool \<Rightarrow> 'c TcpConnection \<Rightarrow> 'c TcpConnection res" where
  "StopRead inLoop s = (if inLoop then StopReadInLoop inLoop s else Inr (enqueue TaskStopRead s))"

definition ShutdownInLoop :: "bool \<Rightarrow> 'c TcpConnection \<Rightarrow> 'c TcpConnection res" where
  "ShutdownInLoop inLoop s =
     ensure inLoop (Inr (if tstate s = kConnected \<and> \<not> conn_IsWriting s then s\<lparr>wrShut := True\<rparr> else s))"

definition Shutdown :: "bool \<Rightarrow> 'c TcpConnection \<Rightarrow> 'c TcpConnection res" where
  "Shutdown inLoop s =
     (if tstate s = kConnected then
        let s1 = s\<lparr>tstate := kDisconnecting\<rparr> in
        if inLoop then ShutdownInLoop inLoop s1 else Inr (enqueue TaskShutdown s1)
      else Inr s)"

definition HandleClose :: "'c conn_env \<Rightarrow> bool \<Rightarrow> 'c TcpConnection \<Rightarrow> 'c TcpConnection res" where
  "HandleClose env inLoop s =
     ensure inLoop (ensure (tstate s = kConnected \<or> tstate s = kDisconnecting)
       (callback env EvClose ((update_channel DisableAll s)\<lparr>tstate := kDisconnected\<rparr>)))"

definition ForceCloseInLoop :: "'c conn_env \<Rightarrow> bool \<Rightarrow> 'c TcpConnection \<Rightarrow> 'c TcpConnection res" where
  "ForceCloseInLoop env inLoop s =
     ensure inLoop (if tstate s = kConnected \<or> tstate s = kDisconnecting
       then HandleClose env inLoop s else Inr s)"

text \<open>
  The condition of the source, \<^verbatim>\<open>state_ == kConnected || kDisconnecting\<close>, tests the enumerator,
  whose value is 2, and is therefore always true.
\<close>

definition States_value :: "States \<Rightarrow> nat" where
  "States_value st = (case st of kConnecting \<Rightarrow> 0 | kConnected \<Rightarrow> 1 | kDisconnecting \<Rightarrow> 2 | kDisconnected \<Rightarrow> 3)"

definition ForceClose :: "'c conn_env \<Rightarrow> bool \<Rightarrow> 'c TcpConnection \<Rightarrow> 'c TcpConnection res" where
  "ForceClose env inLoop s =
     (if tstate s = kConnected \<or> States_value kDisconnecting \<noteq> 0 then
        let s1 = s\<lparr>tstate := kDisconnecting,
                   lateForce := lateForce s \<or> (tstate s \<noteq> kConnected \<and> tstate s \<noteq> kDisconnecting)\<rparr> in
        if inLoop then ForceCloseInLoop env inLoop s1 else Inr (enqueue TaskForceClose s1)
      else Inr s)"

text \<open>The user's data at the connection, of any type.\<close>

definition SetContext :: "'c \<Rightarrow> 'c TcpConnection \<Rightarrow> 'c TcpConnection" where
  "SetContext c s = s\<lparr>any_context := Some c\<rparr>"

section \<open>Establishing and destroying\<close>

definition ConnectionEstablished :: "'c conn_env \<Rightarrow> bool \<Rightarrow> 'c TcpConnection \<Rightarrow> 'c TcpConnection res" where
  "ConnectionEstablished env inLoop s =
     ensure inLoop (ensure (tstate s = kConnecting)
       (callback env EvConnection ((update_channel EnableReading s)\<lparr>tstate := kConnected\<rparr>)))"

definition ConnectionDestroyed :: "'c conn_env \<Rightarrow> bool \<Rightarrow> 'c TcpConnection \<Rightarrow> 'c TcpConnection res" where
  "ConnectionDestroyed env inLoop s =
     ensure inLoop (ensure (tstate s = kDisconnected)
       (callback env EvConnection
         ((update_channel DisableAll s)\<lparr>chInPoller := False, destroyed := Suc (destroyed s)\<rparr>)))"

text \<open>The destructor.\<close>

definition TcpConnection_destroy :: "'c TcpConnection \<Rightarrow> unit res" where
  "TcpConnection_destroy s = ensure (tstate s = kDisconnected) (Inr ())"

section \<open>Events of the channel\<close>

text \<open>\<^verbatim>\<open>HandleError\<close> only logs.\<close>

definition HandleError :: "'c TcpConnection \<Rightarrow> 'c TcpConnection res" where
  "HandleError s = Inr s"

definition HandleRead :: "'c conn_env \<Rightarrow> bool \<Rightarrow> (nat list \<Rightarrow> string option) \<Rightarrow> 'c TcpConnection \<Rightarrow> 'c TcpConnection res" where
  "HandleRead env inLoop readv s =
     ensure inLoop
       (rbind (ReadFd readv (inputBuffer s)) (\<lambda>(n, inb).
          let s1 = s\<lparr>inputBuffer := inb,
                     received := received s @ (case readv (ReadFd_iov (inputBuffer s)) of None \<Rightarrow> [] | Some d \<Rightarrow> d)\<rparr>
          in if n < 0 then HandleError s1
             else if n = 0 then HandleClose env inLoop s1
             else if hasMessage s1 then callback env EvMessage s1 else Inr s1))"

definition HandleWrite :: "'c conn_env \<Rightarrow> bool \<Rightarrow> 'c TcpConnection \<Rightarrow> 'c TcpConnection res" where
  "HandleWrite env inLoop s =
     ensure inLoop
       (if \<not> conn_IsWriting s then Inr s
        else
          let s1 = s\<lparr>writes := Suc (writes s)\<rparr> in
          case sockWrite env (writes s) (content (outputBuffer s)) of
            WriteError e \<Rightarrow> Inr s1
          | Written n \<Rightarrow>
              if n = 0 then Inr s1
              else
                rbind (Retrieve n (outputBuffer s)) (\<lambda>outb.
                  let s2 = s1\<lparr>wire := wire s @ take n (content (outputBuffer s)), outputBuffer := outb\<rparr> in
                  if ReadableBytes outb = 0 then
                    let s3 = update_channel DisableWriting s2 in
                    rbind (if hasWriteComplete s3 then callback env EvWriteComplete s3 else Inr s3) (\<lambda>s4.
                      if tstate s4 = kDisconnecting then ShutdownInLoop inLoop s4 else Inr s4)
                  else Inr s2))"

text \<open>
  \<^verbatim>\<open>Channel::HandleEvent\<close> with the callbacks of this connection, as long as the connection and its
  channel live to the end of it.
\<close>

definition conn_HandleEvent :: "'c conn_env \<Rightarrow> 32 word \<Rightarrow> (nat list \<Rightarrow> string option) \<Rightarrow> 'c TcpConnection \<Rightarrow>
    'c TcpConnection res" where
  "conn_HandleEvent env evs readv s =
     rbind (if evs AND (EPOLLIN OR EPOLLPRI OR EPOLLRDHUP) \<noteq> 0 then HandleRead env True readv s else Inr s) (\<lambda>s1.
     rbind (if evs AND EPOLLOUT \<noteq> 0 then HandleWrite env True s1 else Inr s1) (\<lambda>s2.
     rbind (if evs AND EPOLLERR \<noteq> 0 then HandleError s2 else Inr s2) (\<lambda>s3.
       if evs AND EPOLLHUP \<noteq> 0 then HandleClose env True s3 else Inr s3)))"

text \<open>The loop runs the oldest task.\<close>

definition run_task :: "'c conn_env \<Rightarrow> 'c TcpConnection \<Rightarrow> 'c TcpConnection res" where
  "run_task env s =
     (case tasks s of
        [] \<Rightarrow> Inr s
      | t # ts \<Rightarrow>
          let s1 = s\<lparr>tasks := ts\<rparr> in
          (case t of
             TaskSend d \<Rightarrow> SendInLoop env True d s1
           | TaskShutdown \<Rightarrow> ShutdownInLoop True s1
           | TaskForceClose \<Rightarrow> ForceCloseInLoop env True s1
           | TaskStartRead \<Rightarrow> StartReadInLoop True s1
           | TaskStopRead \<Rightarrow> StopReadInLoop True s1
           | TaskHighWater n \<Rightarrow> callback env (EvHighWater n) s1
           | TaskDestroy \<Rightarrow> ConnectionDestroyed env True s1))"

section \<open>Callbacks\<close>

text \<open>
  What a user may call.  \<open>OpRetrieve\<close> takes bytes out of the input buffer, which only the loop's
  thread may do.
\<close>

datatype 'c conn_op = OpSend string | OpSendBuffer | OpRetrieve nat | OpShutdown | OpForceClose
  | OpStartRead | OpStopRead | OpSetContext 'c

definition Retrieve_input :: "nat \<Rightarrow> 'c TcpConnection \<Rightarrow> 'c TcpConnection res" where
  "Retrieve_input n s =
     rbind (RetrieveAsString n (inputBuffer s)) (\<lambda>(data, buf).
       Inr (s\<lparr>inputBuffer := buf, consumed := consumed s @ data\<rparr>))"

fun run_op :: "'c conn_env \<Rightarrow> bool \<Rightarrow> 'c conn_op \<Rightarrow> 'c TcpConnection \<Rightarrow> 'c TcpConnection res" where
  "run_op env inLoop (OpSend d) s = Send env inLoop d s"
| "run_op env inLoop OpSendBuffer s = ensure inLoop (Send_buffer env inLoop s)"
| "run_op env inLoop (OpRetrieve n) s = ensure inLoop (Retrieve_input n s)"
| "run_op env inLoop OpShutdown s = Shutdown inLoop s"
| "run_op env inLoop OpForceClose s = ForceClose env inLoop s"
| "run_op env inLoop OpStartRead s = StartRead inLoop s"
| "run_op env inLoop OpStopRead s = StopRead inLoop s"
| "run_op env inLoop (OpSetContext c) s = Inr (SetContext c s)"

text \<open>
  The owner of a connection works on its end at once if it lives in the same loop (a
  \<^verbatim>\<open>TcpClient\<close>, or a \<^verbatim>\<open>TcpServer\<close> without I/O threads), otherwise its loop runs
  \<^verbatim>\<open>RemoveConnectionInLoop\<close> later, which queues \<^verbatim>\<open>ConnectionDestroyed\<close>.
\<close>

datatype owner = SameLoop | OtherLoop

fun call_back :: "(nat \<Rightarrow> string \<Rightarrow> write_result) \<Rightarrow> (conn_event \<Rightarrow> 'c TcpConnection \<Rightarrow> 'c conn_op list) \<Rightarrow> owner \<Rightarrow>
    nat \<Rightarrow> conn_event \<Rightarrow> 'c TcpConnection \<Rightarrow> 'c TcpConnection res" where
  "call_back sw script ow 0 ev s = Inl StackOverflow"
| "call_back sw script ow (Suc depth) ev s =
     (let env = \<lparr>sockWrite = sw, user = call_back sw script ow depth\<rparr> in
      case ev of
        EvClose \<Rightarrow> (case ow of SameLoop \<Rightarrow> ConnectionDestroyed env True s
                     | OtherLoop \<Rightarrow> Inr (s\<lparr>closes := Suc (closes s)\<rparr>))
      | _ \<Rightarrow> rfold (run_op env True) (script ev s) s)"

definition the_env :: "(nat \<Rightarrow> string \<Rightarrow> write_result) \<Rightarrow> (conn_event \<Rightarrow> 'c TcpConnection \<Rightarrow> 'c conn_op list) \<Rightarrow> owner \<Rightarrow>
    nat \<Rightarrow> 'c conn_env" where
  "the_env sw script ow depth = \<lparr>sockWrite = sw, user = call_back sw script ow depth\<rparr>"

section \<open>The step relation\<close>

text \<open>What \<^verbatim>\<open>write\<close> promises, and strings that fit into memory.\<close>

definition write_spec :: "(nat \<Rightarrow> string \<Rightarrow> write_result) \<Rightarrow> bool" where
  "write_spec sw \<longleftrightarrow> (\<forall>i d n. sw i d = Written n \<longrightarrow> n \<le> length d)"

definition op_fits :: "'c conn_op \<Rightarrow> bool" where
  "op_fits c \<longleftrightarrow> (\<forall>d. c = OpSend d \<longrightarrow> length d < 2 ^ 63)"

definition script_fits :: "(conn_event \<Rightarrow> 'c TcpConnection \<Rightarrow> 'c conn_op list) \<Rightarrow> bool" where
  "script_fits script \<longleftrightarrow> (\<forall>ev s c. buf_inv (inputBuffer s) \<longrightarrow> c \<in> set (script ev s) \<longrightarrow> op_fits c)"

text \<open>
  One connection in its loop: it is established, the user calls it in the loop's thread (\<open>inLoop\<close>)
  or in another one, its channel has an event, the loop runs a task, the owner's loop works on a
  close callback.  A step that faults ends the program and is no step.
\<close>

inductive conn_step :: "'c conn_env \<Rightarrow> 'c TcpConnection \<Rightarrow> 'c TcpConnection \<Rightarrow> bool" for env where
  establish: "ConnectionEstablished env True s = Inr t \<Longrightarrow> conn_step env s t"
| user_call: "op_fits c \<Longrightarrow> run_op env inLoop c s = Inr t \<Longrightarrow> conn_step env s t"
| event: "readv_spec readv \<Longrightarrow> length (buffer (inputBuffer s)) + extrabufSize \<le> vector_max \<Longrightarrow>
    conn_HandleEvent env evs readv s = Inr t \<Longrightarrow> conn_step env s t"
| task: "run_task env s = Inr t \<Longrightarrow> conn_step env s t"
| owner: "closes s = Suc n \<Longrightarrow> conn_step env s (enqueue TaskDestroy (s\<lparr>closes := n\<rparr>))"

section \<open>The invariant\<close>

definition sending_ok :: "'c TcpConnection \<Rightarrow> bool" where
  "sending_ok s \<longleftrightarrow> buf_inv (outputBuffer s) \<and> accepted s = wire s @ content (outputBuffer s) \<and>
     (content (outputBuffer s) \<noteq> [] \<and> tstate s \<noteq> kDisconnected \<and> \<not> lateForce s \<longrightarrow> conn_IsWriting s)"

definition receiving_ok :: "'c TcpConnection \<Rightarrow> bool" where
  "receiving_ok s \<longleftrightarrow> buf_inv (inputBuffer s) \<and> received s = consumed s @ content (inputBuffer s)"

definition tasks_ok :: "'c TcpConnection \<Rightarrow> bool" where
  "tasks_ok s \<longleftrightarrow> \<not> wrShut s \<and>
     (TaskShutdown \<in> set (tasks s) \<longrightarrow> tstate s = kDisconnecting \<or> tstate s = kDisconnected) \<and>
     (\<forall>d. TaskSend d \<in> set (tasks s) \<longrightarrow> length d < 2 ^ 63)"

text \<open>\<open>k\<close> close callbacks have been called and not yet handed to the owner.\<close>

definition closing_ok :: "nat \<Rightarrow> 'c TcpConnection \<Rightarrow> bool" where
  "closing_ok k s \<longleftrightarrow>
     closes s + count_list (tasks s) TaskDestroy + destroyed s + k = count_list (calls s) EvClose \<and>
     (\<not> lateForce s \<longrightarrow> count_list (calls s) EvClose = (if tstate s = kDisconnected then 1 else 0))"

definition conn_inv :: "nat \<Rightarrow> 'c TcpConnection \<Rightarrow> bool" where
  "conn_inv k s \<longleftrightarrow> sending_ok s \<and> receiving_ok s \<and> tasks_ok s \<and> closing_ok k s"

lemmas conn_inv_defs = conn_inv_def sending_ok_def receiving_ok_def tasks_ok_def closing_ok_def

definition keeps :: "'c conn_env \<Rightarrow> bool" where
  "keeps env \<longleftrightarrow> write_spec (sockWrite env) \<and>
     (\<forall>ev s t. conn_inv (if ev = EvClose then 1 else 0) s \<longrightarrow> user env ev s = Inr t \<longrightarrow> conn_inv 0 t)"

lemma word_bits: "x AND 1 \<noteq> 0 \<longleftrightarrow> bit x 0" "x AND 4 \<noteq> 0 \<longleftrightarrow> bit x 2" for x :: "32 word"
  using and_exp_eq_0_iff_not_bit [of x 0] and_exp_eq_0_iff_not_bit [of x 2] by auto

lemma IsWriting_update [simp]:
  "conn_IsWriting (update_channel m s) \<longleftrightarrow>
     (case m of EnableWriting \<Rightarrow> True | DisableWriting \<Rightarrow> False | DisableAll \<Rightarrow> False | _ \<Rightarrow> conn_IsWriting s)"
  by (cases m) (simp_all add: conn_IsWriting_def update_channel_def mask_defs word_bits bit_and_iff
      bit_or_iff bit_not_iff)

lemma IsReading_update [simp]:
  "conn_IsReading (update_channel m s) \<longleftrightarrow>
     (case m of EnableReading \<Rightarrow> True | DisableReading \<Rightarrow> False | DisableAll \<Rightarrow> False | _ \<Rightarrow> conn_IsReading s)"
  by (cases m) (simp_all add: conn_IsReading_def update_channel_def mask_defs word_bits bit_and_iff
      bit_or_iff bit_not_iff)

lemma update_channel_fields [simp]:
  "tstate (update_channel m s) = tstate s" "outputBuffer (update_channel m s) = outputBuffer s"
  "inputBuffer (update_channel m s) = inputBuffer s" "accepted (update_channel m s) = accepted s"
  "wire (update_channel m s) = wire s" "received (update_channel m s) = received s"
  "consumed (update_channel m s) = consumed s" "tasks (update_channel m s) = tasks s"
  "wrShut (update_channel m s) = wrShut s" "calls (update_channel m s) = calls s"
  "closes (update_channel m s) = closes s" "destroyed (update_channel m s) = destroyed s"
  "lateForce (update_channel m s) = lateForce s" "hasWriteComplete (update_channel m s) = hasWriteComplete s"
  "writes (update_channel m s) = writes s" "reading (update_channel m s) = reading s"
  by (simp_all add: update_channel_def)

text \<open>The event mask is all that \<open>conn_IsWriting\<close> and \<open>conn_IsReading\<close> look at.\<close>

lemma conn_Is_cong [simp]:
  "conn_IsWriting (s\<lparr>tstate := x1\<rparr>) = conn_IsWriting s" "conn_IsWriting (s\<lparr>reading := x2\<rparr>) = conn_IsWriting s"
  "conn_IsWriting (s\<lparr>outputBuffer := x3\<rparr>) = conn_IsWriting s" "conn_IsWriting (s\<lparr>inputBuffer := x3\<rparr>) = conn_IsWriting s"
  "conn_IsWriting (s\<lparr>accepted := x4\<rparr>) = conn_IsWriting s" "conn_IsWriting (s\<lparr>wire := x4\<rparr>) = conn_IsWriting s"
  "conn_IsWriting (s\<lparr>received := x4\<rparr>) = conn_IsWriting s" "conn_IsWriting (s\<lparr>consumed := x4\<rparr>) = conn_IsWriting s"
  "conn_IsWriting (s\<lparr>tasks := x5\<rparr>) = conn_IsWriting s" "conn_IsWriting (s\<lparr>wrShut := x2\<rparr>) = conn_IsWriting s"
  "conn_IsWriting (s\<lparr>calls := x6\<rparr>) = conn_IsWriting s" "conn_IsWriting (s\<lparr>closes := x7\<rparr>) = conn_IsWriting s"
  "conn_IsWriting (s\<lparr>destroyed := x7\<rparr>) = conn_IsWriting s" "conn_IsWriting (s\<lparr>lateForce := x2\<rparr>) = conn_IsWriting s"
  "conn_IsWriting (s\<lparr>any_context := x9\<rparr>) = conn_IsWriting s" "conn_IsWriting (s\<lparr>writes := x7\<rparr>) = conn_IsWriting s" "conn_IsWriting (s\<lparr>chInPoller := x2\<rparr>) = conn_IsWriting s"
  "conn_IsReading (s\<lparr>tstate := x1\<rparr>) = conn_IsReading s" "conn_IsReading (s\<lparr>reading := x2\<rparr>) = conn_IsReading s"
  by (simp_all add: conn_IsWriting_def conn_IsReading_def)

lemma enqueue_fields [simp]:
  "tstate (enqueue c s) = tstate s" "outputBuffer (enqueue c s) = outputBuffer s"
  "tasks (enqueue c s) = tasks s @ [c]" "conn_IsWriting (enqueue c s) = conn_IsWriting s"
  "lateForce (enqueue c s) = lateForce s"
  by (simp_all add: enqueue_def)

lemma enqueue_inv:
  "conn_inv k s \<Longrightarrow> c \<noteq> TaskDestroy \<Longrightarrow> (c = TaskShutdown \<Longrightarrow> tstate s = kDisconnecting) \<Longrightarrow>
    (\<And>d. c = TaskSend d \<Longrightarrow> length d < 2 ^ 63) \<Longrightarrow> conn_inv k (enqueue c s)"
  by (auto simp: conn_inv_defs enqueue_def)

lemma update_channel_inv:
  "conn_inv k s \<Longrightarrow> (m \<noteq> DisableWriting \<and> m \<noteq> DisableAll) \<or> content (outputBuffer s) = [] \<or> tstate s = kDisconnected \<Longrightarrow>
    conn_inv k (update_channel m s)"
  by (cases m) (auto simp: conn_inv_defs)

lemma keepsD:
  "keeps env \<Longrightarrow> conn_inv (if ev = EvClose then 1 else 0) s \<Longrightarrow> user env ev s = Inr t \<Longrightarrow> conn_inv 0 t"
  by (auto simp: keeps_def)

lemma callback_inv:
  "keeps env \<Longrightarrow> ev \<noteq> EvClose \<Longrightarrow> conn_inv 0 s \<Longrightarrow> callback env ev s = Inr t \<Longrightarrow> conn_inv 0 t"
proof -
  assume k: "keeps env" "ev \<noteq> EvClose" "conn_inv 0 s" "callback env ev s = Inr t"
  have "conn_inv 0 (s\<lparr>calls := calls s @ [ev]\<rparr>)" using k(2,3) by (auto simp: conn_inv_defs)
  then show ?thesis using keepsD [OF k(1), of ev "s\<lparr>calls := calls s @ [ev]\<rparr>" t] k(2,4)
    by (simp add: callback_def)
qed

text \<open>Each operation keeps the invariant.\<close>

lemma buffer_rest_inv:
  assumes s: "receiving_ok s" "tasks_ok s" "closing_ok k s" "buf_inv (outputBuffer s)"
      "accepted s = wire s @ content (outputBuffer s) @ take remaining (drop writen data)"
    and len: "length data < 2 ^ 63"
    and r: "buffer_rest data writen remaining s = Inr t"
  shows "conn_inv k t"
proof -
  define s1 where "s1 = (if sz_add (ReadableBytes (outputBuffer s)) remaining \<ge> highWaterMark s \<and>
      ReadableBytes (outputBuffer s) < highWaterMark s \<and> hasHighWater s
    then enqueue (TaskHighWater (sz_add (ReadableBytes (outputBuffer s)) remaining)) s else s)"
  then have s1: "s1 = s \<or> (\<exists>n. s1 = enqueue (TaskHighWater n) s)" by auto
  obtain outb where a: "Append (take remaining (drop writen data)) (outputBuffer s1) = Inr outb"
    and t: "t = (if \<not> conn_IsWriting (s1\<lparr>outputBuffer := outb\<rparr>)
      then update_channel EnableWriting (s1\<lparr>outputBuffer := outb\<rparr>) else s1\<lparr>outputBuffer := outb\<rparr>)"
    using r unfolding buffer_rest_def Let_def s1_def [symmetric] by (auto simp only: res_simps sum.inject)
  have o: "outputBuffer s1 = outputBuffer s" using s1 by auto
  have "length (take remaining (drop writen data)) < 2 ^ 63" using len by simp
  with a s(4) have "buf_inv outb \<and> content outb = content (outputBuffer s) @ take remaining (drop writen data)"
    unfolding o by (intro buffer_put_wf)
  with s have i: "conn_IsWriting s1 \<Longrightarrow> conn_inv k (s1\<lparr>outputBuffer := outb\<rparr>)"
     "conn_inv k (update_channel EnableWriting (s1\<lparr>outputBuffer := outb\<rparr>))"
    using s1 by (auto simp: conn_inv_defs enqueue_def)
  then show ?thesis by (simp add: t split: if_splits)
qed

lemma SendInLoop_inv:
  assumes k: "keeps env" and i: "conn_inv 0 s" and len: "length data < 2 ^ 63"
    and r: "SendInLoop env inLoop data s = Inr t"
  shows "conn_inv 0 t"
proof (cases "tstate s = kConnected")
  case False
  then show ?thesis using i r by (simp add: SendInLoop_def res_simps)
next
  case c: True
  let ?s0 = "s\<lparr>accepted := accepted s @ data\<rparr>"
  have parts: "receiving_ok s" "tasks_ok s" "closing_ok 0 s" "buf_inv (outputBuffer s)"
    "accepted s = wire s @ content (outputBuffer s)"
    using i by (auto simp: conn_inv_def sending_ok_def)
  show ?thesis
  proof (cases "\<not> conn_IsWriting s \<and> ReadableBytes (outputBuffer s) = 0")
    case False
    then have "buffer_rest data 0 (length data) ?s0 = Inr t"
      using r c by (auto simp: SendInLoop_def res_simps Let_def)
    then show ?thesis
      by (rule buffer_rest_inv [rotated 6]) (use parts len in \<open>auto simp: conn_inv_defs\<close>)
  next
    case True
    then have empty: "content (outputBuffer s) = []"
      using parts(4) by (simp add: ReadableBytes_content)
    show ?thesis
    proof (cases "sockWrite env (writes s) data")
      case (WriteError e)
      then have "buffer_rest data 0 (length data) (?s0\<lparr>writes := Suc (writes s)\<rparr>) = Inr t"
        using r c True by (auto simp: SendInLoop_def res_simps Let_def split: if_splits)
      then show ?thesis
        by (rule buffer_rest_inv [rotated 6]) (use parts len in \<open>auto simp: conn_inv_defs\<close>)
    next
      case (Written n)
      let ?s2 = "?s0\<lparr>writes := Suc (writes s), wire := wire s @ take n data\<rparr>"
      have n: "n \<le> length data" using k Written by (auto simp: keeps_def write_spec_def)
      then have m: "sz_sub (length data) n = length data - n" using len by (simp add: sz_sub_eq)
      show ?thesis
      proof (cases "length data - n = 0 \<and> hasWriteComplete s")
        case d: True
        then have "callback env EvWriteComplete ?s2 = Inr t"
          using r c True Written m by (auto simp: SendInLoop_def res_simps Let_def)
        moreover have "conn_inv 0 ?s2" using d parts empty by (auto simp: conn_inv_defs)
        ultimately show ?thesis using callback_inv [OF k] by blast
      next
        case d: False
        then have "buffer_rest data n (length data - n) ?s2 = Inr t"
          using r c True Written m by (auto simp: SendInLoop_def res_simps Let_def split: if_splits)
        then show ?thesis
          by (rule buffer_rest_inv [rotated 6]) (use parts len empty in \<open>auto simp: conn_inv_defs\<close>)
      qed
    qed
  qed
qed

lemma Send_inv:
  "keeps env \<Longrightarrow> conn_inv 0 s \<Longrightarrow> length data < 2 ^ 63 \<Longrightarrow> Send env inLoop data s = Inr t \<Longrightarrow> conn_inv 0 t"
  by (auto simp: Send_def intro: SendInLoop_inv enqueue_inv split: if_splits)

lemma reading_inv [simp]: "conn_inv k (s\<lparr>reading := x\<rparr>) = conn_inv k s"
  by (simp add: conn_inv_defs)

lemma closes_inv: "conn_inv 1 s \<Longrightarrow> conn_inv 0 (s\<lparr>closes := Suc (closes s)\<rparr>)"
  by (simp add: conn_inv_defs)

lemma input_inv:
  "conn_inv k s \<Longrightarrow> buf_inv b \<Longrightarrow> c @ content b = received s \<Longrightarrow>
    conn_inv k (s\<lparr>inputBuffer := b, consumed := c\<rparr>)"
  by (simp add: conn_inv_defs)

lemma received_inv:
  "conn_inv k s \<Longrightarrow> buf_inv b \<Longrightarrow> r = consumed s @ content b \<Longrightarrow>
    conn_inv k (s\<lparr>inputBuffer := b, received := r\<rparr>)"
  by (simp add: conn_inv_defs)

lemma disconnecting_inv:
  "conn_inv k s \<Longrightarrow> tstate s = kConnected \<Longrightarrow> conn_inv k (s\<lparr>tstate := kDisconnecting\<rparr>)"
  by (simp add: conn_inv_defs)

lemma StartReadInLoop_inv:
  assumes "conn_inv 0 s" "StartReadInLoop inLoop s = Inr t"
  shows "conn_inv 0 t"
proof -
  have "t = s \<or> t = (update_channel EnableReading s)\<lparr>reading := True\<rparr>"
    using assms(2) by (simp add: StartReadInLoop_def res_simps split: if_splits)
  then show ?thesis using assms(1) update_channel_inv [OF assms(1), of EnableReading] by auto
qed

lemma StopReadInLoop_inv:
  assumes "conn_inv 0 s" "StopReadInLoop inLoop s = Inr t"
  shows "conn_inv 0 t"
proof -
  have "t = s \<or> t = (update_channel DisableReading s)\<lparr>reading := False\<rparr>"
    using assms(2) by (simp add: StopReadInLoop_def res_simps split: if_splits)
  then show ?thesis using assms(1) update_channel_inv [OF assms(1), of DisableReading] by auto
qed

lemma ShutdownInLoop_inv:
  "conn_inv 0 s \<Longrightarrow> tstate s \<noteq> kConnected \<Longrightarrow> ShutdownInLoop inLoop s = Inr t \<Longrightarrow> conn_inv 0 t"
  by (auto simp: ShutdownInLoop_def res_simps)

lemma Shutdown_inv:
  assumes i: "conn_inv 0 s" and r: "Shutdown inLoop s = Inr t"
  shows "conn_inv 0 t"
proof (cases "tstate s = kConnected")
  case True
  note j = disconnecting_inv [OF i True]
  have "t = s\<lparr>tstate := kDisconnecting\<rparr> \<or> t = enqueue TaskShutdown (s\<lparr>tstate := kDisconnecting\<rparr>)"
    using r True by (auto simp: Shutdown_def ShutdownInLoop_def res_simps Let_def split: if_splits)
  then show ?thesis using j enqueue_inv [OF j, of TaskShutdown] by auto
qed (use r i in \<open>simp add: Shutdown_def\<close>)

lemma HandleClose_inv:
  assumes "keeps env" "conn_inv 0 s" "HandleClose env inLoop s = Inr t"
  shows "conn_inv 0 t"
proof -
  let ?s = "(update_channel DisableAll s)\<lparr>tstate := kDisconnected\<rparr>"
  have "user env EvClose (?s\<lparr>calls := calls s @ [EvClose]\<rparr>) = Inr t"
    and st: "tstate s = kConnected \<or> tstate s = kDisconnecting"
    using assms(3) by (auto simp: HandleClose_def res_simps callback_def)
  moreover have "conn_inv 1 (?s\<lparr>calls := calls s @ [EvClose]\<rparr>)"
    using assms(2) st by (auto simp: conn_inv_defs)
  ultimately show ?thesis using keepsD [OF assms(1), of EvClose] by simp
qed

lemma ForceCloseInLoop_inv:
  "keeps env \<Longrightarrow> conn_inv 0 s \<Longrightarrow> ForceCloseInLoop env inLoop s = Inr t \<Longrightarrow> conn_inv 0 t"
  by (auto simp: ForceCloseInLoop_def res_simps intro: HandleClose_inv split: if_splits)

lemma ForceClose_inv:
  assumes k: "keeps env" and i: "conn_inv 0 s" and r: "ForceClose env inLoop s = Inr t"
  shows "conn_inv 0 t"
proof -
  let ?s = "s\<lparr>tstate := kDisconnecting,
    lateForce := lateForce s \<or> (tstate s \<noteq> kConnected \<and> tstate s \<noteq> kDisconnecting)\<rparr>"
  have j: "conn_inv 0 ?s" using i by (auto simp: conn_inv_defs)
  have "if inLoop then ForceCloseInLoop env inLoop ?s = Inr t else Inr (enqueue TaskForceClose ?s) = Inr t"
    using r by (auto simp: ForceClose_def States_value_def Let_def)
  then show ?thesis
    using ForceCloseInLoop_inv [OF k j] enqueue_inv [OF j, of TaskForceClose] by (cases inLoop) auto
qed

lemma ConnectionEstablished_inv:
  assumes k: "keeps env" and i: "conn_inv 0 s" and r: "ConnectionEstablished env inLoop s = Inr t"
  shows "conn_inv 0 t"
proof -
  have "callback env EvConnection ((update_channel EnableReading s)\<lparr>tstate := kConnected\<rparr>) = Inr t"
    and st: "tstate s = kConnecting"
    using r by (auto simp: ConnectionEstablished_def res_simps)
  moreover have "conn_inv 0 ((update_channel EnableReading s)\<lparr>tstate := kConnected\<rparr>)"
    using i st by (auto simp: conn_inv_defs)
  ultimately show ?thesis using callback_inv [OF k, of EvConnection] by blast
qed

text \<open>\<open>ConnectionDestroyed\<close> settles one close callback.\<close>

lemma ConnectionDestroyed_inv:
  assumes k: "keeps env" and i: "conn_inv 1 s" and r: "ConnectionDestroyed env inLoop s = Inr t"
  shows "conn_inv 0 t"
proof -
  let ?s = "(update_channel DisableAll s)\<lparr>chInPoller := False, destroyed := Suc (destroyed s)\<rparr>"
  have "callback env EvConnection ?s = Inr t" and st: "tstate s = kDisconnected"
    using r by (auto simp: ConnectionDestroyed_def res_simps)
  moreover have "conn_inv 0 ?s" using i st by (auto simp: conn_inv_defs)
  ultimately show ?thesis using callback_inv [OF k, of EvConnection] by blast
qed

lemma RetrieveAsString_wf:
  assumes "buf_inv b" "RetrieveAsString n b = Inr (d, b')"
  shows "n \<le> length (content b)" "d = take n (content b)" "buf_inv b'" "content b' = drop n (content b)"
proof -
  show n: "n \<le> length (content b)"
    using assms RetrieveAsString_short [OF assms(1), of n] by force
  show "d = take n (content b)" "buf_inv b'" "content b' = drop n (content b)"
    using RetrieveAsString_ok [OF assms(1) n] assms(2) by auto
qed

lemma Retrieve_input_inv:
  assumes i: "conn_inv 0 s" and r: "Retrieve_input n s = Inr t"
  shows "conn_inv 0 t"
proof -
  obtain d b where g: "RetrieveAsString n (inputBuffer s) = Inr (d, b)"
    and t: "t = s\<lparr>inputBuffer := b, consumed := consumed s @ d\<rparr>"
    using r by (auto simp: Retrieve_input_def res_simps)
  have "buf_inv (inputBuffer s)" using i by (simp add: conn_inv_defs)
  note w = RetrieveAsString_wf [OF this g]
  show ?thesis unfolding t
    by (rule input_inv [OF i w(3)]) (use i w in \<open>simp add: conn_inv_def receiving_ok_def\<close>)
qed

lemma SetContext_inv: "conn_inv 0 s \<Longrightarrow> conn_inv 0 (SetContext c s)"
  by (simp add: SetContext_def conn_inv_defs)

lemma Send_buffer_inv:
  assumes k: "keeps env" and i: "conn_inv 0 s" and r: "Send_buffer env inLoop s = Inr t"
  shows "conn_inv 0 t"
proof -
  let ?n = "ReadableBytes (inputBuffer s)"
  obtain d b where g: "RetrieveAsString ?n (inputBuffer s) = Inr (d, b)"
    and t: "Send env inLoop d (s\<lparr>inputBuffer := b, consumed := consumed s @ d\<rparr>) = Inr t"
    using r by (auto simp: Send_buffer_def RetrieveAllAsString_def res_simps)
  have bi: "buf_inv (inputBuffer s)" using i by (simp add: conn_inv_defs)
  note w = RetrieveAsString_wf [OF bi g]
  have "length (content (inputBuffer s)) \<le> vector_max"
    using bi length_content [OF bi] by (auto simp: buf_inv_def)
  then have "length d < 2 ^ 63" using w(1,2) by (simp add: vector_max_def)
  moreover have "conn_inv 0 (s\<lparr>inputBuffer := b, consumed := consumed s @ d\<rparr>)"
    by (rule input_inv [OF i w(3)]) (use i w in \<open>simp add: conn_inv_def receiving_ok_def\<close>)
  ultimately show ?thesis using Send_inv [OF k _ _ t] by blast
qed

lemma run_op_inv:
  assumes k: "keeps env" and i: "conn_inv 0 s" and f: "op_fits c" and r: "run_op env inLoop c s = Inr t"
  shows "conn_inv 0 t"
proof (cases c)
  case (OpSend d)
  then show ?thesis using f r by (intro Send_inv [OF k i]) (auto simp: op_fits_def)
next
  case OpStartRead
  then show ?thesis using r i
    by (auto simp: StartRead_def intro: StartReadInLoop_inv enqueue_inv split: if_splits)
next
  case OpStopRead
  then show ?thesis using r i
    by (auto simp: StopRead_def intro: StopReadInLoop_inv enqueue_inv split: if_splits)
qed (use r i in \<open>auto simp: res_simps SetContext_inv intro: Send_buffer_inv [OF k i] Retrieve_input_inv [OF i] Shutdown_inv [OF i]
    ForceClose_inv [OF k i]\<close>)

text \<open>By induction on the depth of the stack, the callbacks keep the invariant.\<close>

lemma call_back_keeps:
  assumes w: "write_spec sw" and f: "script_fits script"
  shows "keeps (the_env sw script ow depth)"
proof (induction depth)
  case 0
  then show ?case using w by (simp add: keeps_def the_env_def)
next
  case (Suc depth)
  have "conn_inv 0 t"
    if i: "conn_inv (if ev = EvClose then 1 else 0) s" and r: "call_back sw script ow (Suc depth) ev s = Inr t"
    for ev s t
  proof (cases "ev = EvClose")
    case True
    show ?thesis
    proof (cases ow)
      case SameLoop
      then show ?thesis
        using ConnectionDestroyed_inv [OF Suc.IH, of s True t] i r True by (simp add: the_env_def)
    next
      case OtherLoop
      then show ?thesis using i r True closes_inv by auto
    qed
  next
    case False
    have run: "rfold (run_op (the_env sw script ow depth) True) (script ev s) s = Inr t"
      using r False by (cases ev) (simp_all add: the_env_def Let_def)
    show ?thesis
    proof (rule rfold_preserves [OF _ _ run])
      show "conn_inv 0 s" using i False by simp
    next
      fix c u u'
      assume c: "c \<in> set (script ev s)" "conn_inv 0 u" "run_op (the_env sw script ow depth) True c u = Inr u'"
      show "conn_inv 0 u'"
        by (rule run_op_inv [OF Suc.IH c(2) _ c(3)]) (use c(1) f i in \<open>auto simp: script_fits_def conn_inv_def receiving_ok_def\<close>)
    qed
  qed
  then show ?case using w by (simp add: keeps_def the_env_def)
qed

lemma HandleRead_inv:
  assumes k: "keeps env" and i: "conn_inv 0 s" and sp: "readv_spec readv"
    and room: "length (buffer (inputBuffer s)) + extrabufSize \<le> vector_max"
    and r: "HandleRead env inLoop readv s = Inr t"
  shows "conn_inv 0 t"
proof -
  have bi: "buf_inv (inputBuffer s)" using i by (simp add: conn_inv_defs)
  obtain n b s1 where rd: "ReadFd readv (inputBuffer s) = Inr (n, b)"
    and s1: "s1 = s\<lparr>inputBuffer := b, received := received s @
      (case readv (ReadFd_iov (inputBuffer s)) of None \<Rightarrow> [] | Some d \<Rightarrow> d)\<rparr>"
    and t: "(if n < 0 then HandleError s1 else if n = 0 then HandleClose env inLoop s1
      else if hasMessage s1 then callback env EvMessage s1 else Inr s1) = Inr t"
    using r by (auto simp: HandleRead_def res_simps Let_def)
  have "conn_inv 0 s1"
  proof (cases "readv (ReadFd_iov (inputBuffer s))")
    case None
    then have "b = inputBuffer s" using rd by (simp add: ReadFd_def)
    then show ?thesis using i None unfolding s1 by (intro received_inv) (simp_all add: conn_inv_def receiving_ok_def)
  next
    case (Some d)
    then have "buf_inv b \<and> content b = content (inputBuffer s) @ d"
      using ReadFd_ok [OF bi sp room Some] rd by auto
    then show ?thesis using i Some unfolding s1
      by (intro received_inv) (simp_all add: conn_inv_def receiving_ok_def)
  qed
  note i1 = this
  consider "HandleError s1 = Inr t" | "HandleClose env inLoop s1 = Inr t"
    | "callback env EvMessage s1 = Inr t" | "s1 = t"
    using t by (auto split: if_splits)
  then show ?thesis
  proof cases
    case 2
    then show ?thesis by (rule HandleClose_inv [OF k i1])
  next
    case 3
    then show ?thesis by (rule callback_inv [OF k _ i1, rotated]) simp
  qed (use i1 in \<open>simp_all add: HandleError_def\<close>)
qed

lemma HandleWrite_inv:
  assumes k: "keeps env" and i: "conn_inv 0 s" and r: "HandleWrite env inLoop s = Inr t"
  shows "conn_inv 0 t"
proof (cases "conn_IsWriting s")
  case False
  then show ?thesis using r i by (simp add: HandleWrite_def res_simps)
next
  case wr: True
  have bi: "buf_inv (outputBuffer s)" using i by (simp add: conn_inv_defs)
  show ?thesis
  proof (cases "sockWrite env (writes s) (content (outputBuffer s))")
    case (WriteError e)
    then show ?thesis using r i wr by (auto simp: HandleWrite_def res_simps Let_def conn_inv_defs)
  next
    case (Written n)
    show ?thesis
    proof (cases "n = 0")
      case True
      then show ?thesis using r i wr Written by (auto simp: HandleWrite_def res_simps Let_def conn_inv_defs)
    next
      case False
      have n: "n \<le> length (content (outputBuffer s))"
        using k Written by (auto simp: keeps_def write_spec_def)
      obtain b where b: "Retrieve n (outputBuffer s) = Inr b" "buf_inv b"
        "content b = drop n (content (outputBuffer s))"
        using Retrieve_ok [OF bi n] by blast
      define s2 where "s2 = s\<lparr>writes := Suc (writes s), wire := wire s @ take n (content (outputBuffer s)),
        outputBuffer := b\<rparr>"
      have i2: "conn_inv 0 s2" using i b wr by (auto simp: s2_def conn_inv_defs)
      show ?thesis
      proof (cases "content b = []")
        case e: False
        then have "t = s2" using r wr Written \<open>n \<noteq> 0\<close> b
          by (simp add: HandleWrite_def res_simps Let_def s2_def ReadableBytes_content)
        with i2 show ?thesis by simp
      next
        case e: True
        define s3 where "s3 = update_channel DisableWriting s2"
        have i3: "conn_inv 0 s3" unfolding s3_def
          by (rule update_channel_inv [OF i2]) (simp add: s2_def e)
        obtain s4 where c: "(if hasWriteComplete s3 then callback env EvWriteComplete s3 else Inr s3) = Inr s4"
          and u: "(if tstate s4 = kDisconnecting then ShutdownInLoop inLoop s4 else Inr s4) = Inr t"
          using r wr Written \<open>n \<noteq> 0\<close> b e
          unfolding HandleWrite_def Let_def s3_def s2_def
          by (auto simp add: res_simps ReadableBytes_content)
        have "conn_inv 0 s4" using c i3 callback_inv [OF k _ i3, of EvWriteComplete] by (auto split: if_splits)
        then show ?thesis using u ShutdownInLoop_inv [of s4 inLoop t] by (auto split: if_splits)
      qed
    qed
  qed
qed

lemma conn_HandleEvent_inv:
  assumes k: "keeps env" and i: "conn_inv 0 s" and sp: "readv_spec readv"
    and room: "length (buffer (inputBuffer s)) + extrabufSize \<le> vector_max"
    and r: "conn_HandleEvent env evs readv s = Inr t"
  shows "conn_inv 0 t"
proof -
  obtain s1 s2 where
    1: "(if evs AND (EPOLLIN OR EPOLLPRI OR EPOLLRDHUP) \<noteq> 0 then HandleRead env True readv s else Inr s) = Inr s1"
    and 2: "(if evs AND EPOLLOUT \<noteq> 0 then HandleWrite env True s1 else Inr s1) = Inr s2"
    and 3: "(if evs AND EPOLLHUP \<noteq> 0 then HandleClose env True s2 else Inr s2) = Inr t"
    using r unfolding conn_HandleEvent_def HandleError_def if_cancel rbind_simps
    by (auto simp only: res_simps)
  have "conn_inv 0 s1" using 1 HandleRead_inv [OF k i sp room] i by (auto split: if_splits)
  then have "conn_inv 0 s2" using 2 HandleWrite_inv [OF k] by (auto split: if_splits)
  then show ?thesis using 3 HandleClose_inv [OF k] by (auto split: if_splits)
qed

text \<open>Taking a task out of the list; a \<open>TaskDestroy\<close> leaves one close callback open.\<close>

lemma pop_task_inv:
  "conn_inv 0 s \<Longrightarrow> tasks s = c # cs \<Longrightarrow> conn_inv (if c = TaskDestroy then 1 else 0) (s\<lparr>tasks := cs\<rparr>)"
  by (cases "c = TaskDestroy"; cases "tstate s = kDisconnected") (simp_all add: conn_inv_defs)

lemma run_task_inv:
  assumes k: "keeps env" and i: "conn_inv 0 s" and r: "run_task env s = Inr t"
  shows "conn_inv 0 t"
proof (cases "tasks s")
  case Nil
  then show ?thesis using r i by (simp add: run_task_def)
next
  case (Cons c cs)
  note p = pop_task_inv [OF i Cons]
  have sd: "tstate s \<noteq> kConnected" if "c = TaskShutdown"
    using i Cons that by (auto simp: conn_inv_def tasks_ok_def)
  have len: "length d < 2 ^ 63" if "c = TaskSend d" for d
    using i Cons that by (auto simp: conn_inv_def tasks_ok_def)
  show ?thesis
  proof (cases c)
    case (TaskSend d)
    then show ?thesis using r Cons p len SendInLoop_inv [OF k] by (simp add: run_task_def Let_def)
  next
    case TaskShutdown
    then show ?thesis using r Cons p sd ShutdownInLoop_inv [of "s\<lparr>tasks := cs\<rparr>"]
      by (simp add: run_task_def Let_def)
  next
    case TaskForceClose
    then show ?thesis using r Cons p ForceCloseInLoop_inv [OF k] by (simp add: run_task_def Let_def)
  next
    case TaskStartRead
    then show ?thesis using r Cons p StartReadInLoop_inv by (simp add: run_task_def Let_def)
  next
    case TaskStopRead
    then show ?thesis using r Cons p StopReadInLoop_inv by (simp add: run_task_def Let_def)
  next
    case (TaskHighWater n)
    then show ?thesis using r Cons p callback_inv [OF k, of "EvHighWater n"]
      by (simp add: run_task_def Let_def)
  next
    case TaskDestroy
    then show ?thesis using r Cons p ConnectionDestroyed_inv [OF k, of "s\<lparr>tasks := cs\<rparr>"]
      by (simp add: run_task_def Let_def)
  qed
qed

lemma conn_step_inv:
  assumes k: "keeps env" and i: "conn_inv 0 s" and st: "conn_step env s t"
  shows "conn_inv 0 t"
  using st
proof cases
  case establish
  then show ?thesis by (rule ConnectionEstablished_inv [OF k i])
next
  case (user_call c inLoop)
  then show ?thesis by (intro run_op_inv [OF k i])
next
  case (event readv evs)
  then show ?thesis by (intro conn_HandleEvent_inv [OF k i])
next
  case task
  then show ?thesis by (rule run_task_inv [OF k i])
next
  case (owner n)
  then show ?thesis using i by (simp add: conn_inv_defs enqueue_def)
qed

definition conn_init :: "(nat \<Rightarrow> string \<Rightarrow> write_result) \<Rightarrow> (conn_event \<Rightarrow> 'c TcpConnection \<Rightarrow> 'c conn_op list) \<Rightarrow>
    'c TcpConnection \<Rightarrow> bool" where
  "conn_init sw script s \<longleftrightarrow> write_spec sw \<and> script_fits script \<and>
     (\<exists>wc msg hw. TcpConnection_new wc msg hw = Inr s)"

definition conn_fresh :: "Buffer \<Rightarrow> bool \<Rightarrow> bool \<Rightarrow> bool \<Rightarrow> 'c TcpConnection" where
  "conn_fresh b wc msg hw = \<lparr>tstate = kConnecting, reading = False, chEvents = kNoneEvent,
      chInPoller = False, inputBuffer = b, outputBuffer = b, highWaterMark = 64 * 1024 * 1024,
      hasWriteComplete = wc, hasMessage = msg, hasHighWater = hw, tasks = [], writes = 0,
      accepted = [], wire = [], received = [], consumed = [], wrShut = False, calls = [],
      closes = 0, destroyed = 0, lateForce = False, any_context = None\<rparr>"

definition fresh_buffer :: Buffer where
  "fresh_buffer = \<lparr>buffer = replicate 1032 (CHR 0x00), readIndex = 8, writeIndex = 8\<rparr>"

lemma fresh_buffer [simp]:
  "buf_inv fresh_buffer" "content fresh_buffer = []" "length (buffer fresh_buffer) = 1032" "writeIndex fresh_buffer = 8"
  by (simp_all add: fresh_buffer_def buf_inv_def content_def kInitPrependSize_def vector_max_def)

lemma TcpConnection_new_eq: "TcpConnection_new wc msg hw = Inr (conn_fresh fresh_buffer wc msg hw)"
  by (simp add: TcpConnection_new_def conn_fresh_def Buffer_new_def vector_resize_def fresh_buffer_def kInitialSize_def
      kInitPrependSize_def ReadableBytes_def WritableBytes_def PrependableBytes_def sz_add_def sz_sub_def vector_max_def
      Let_def ensure_def)

lemma TcpConnection_new_inv: "TcpConnection_new wc msg hw = Inr s \<Longrightarrow> conn_inv 0 s"
  by (auto simp: TcpConnection_new_eq conn_inv_defs conn_fresh_def)

interpretation conn: invariant "conn_init sw script" "conn_step (the_env sw script ow depth)"
  "\<lambda>s. write_spec sw \<and> script_fits script \<and> conn_inv 0 s" for sw script ow depth
proof unfold_locales
  fix s assume "conn_init sw script s"
  then obtain wc msg hw where "write_spec sw" "script_fits script" "TcpConnection_new wc msg hw = Inr s"
    by (auto simp: conn_init_def)
  moreover from this(3) have "conn_inv 0 s" by (rule TcpConnection_new_inv)
  ultimately show "write_spec sw \<and> script_fits script \<and> conn_inv 0 s" by blast
qed (use conn_step_inv [OF call_back_keeps] in blast)

section \<open>Sending succeeds\<close>

text \<open>Errors of \<^verbatim>\<open>write\<close> that end the process do not happen.\<close>

definition sock_never_fatal :: "(nat \<Rightarrow> string \<Rightarrow> write_result) \<Rightarrow> bool" where
  "sock_never_fatal sw \<longleftrightarrow> (\<forall>i d. sw i d \<noteq> WriteError OtherError)"

lemma buffer_rest_ok:
  assumes "buf_inv (outputBuffer s)" "buf_room (length data) (outputBuffer s)" "\<not> hasHighWater s" "remaining \<le> length data"
  shows "\<exists>t. buffer_rest data writen remaining s = Inr t \<and> wire t = wire s \<and>
    content (outputBuffer t) = content (outputBuffer s) @ take remaining (drop writen data) \<and>
    accepted t = accepted s \<and> tstate t = tstate s \<and> any_context t = any_context s \<and> inputBuffer t = inputBuffer s \<and>
    received t = received s \<and> writeIndex (outputBuffer t) \<le> writeIndex (outputBuffer s) + length data \<and>
    (chInPoller s \<longrightarrow> chInPoller t)"
proof -
  have "buf_room (length (take remaining (drop writen data))) (outputBuffer s)"
    using assms(2) by (simp add: buf_room_def)
  from Append_ok [OF assms(1) this] obtain b where "Append (take remaining (drop writen data)) (outputBuffer s) = Inr b"
    "content b = content (outputBuffer s) @ take remaining (drop writen data)"
    "writeIndex b \<le> writeIndex (outputBuffer s) + length data"
    by fastforce
  then show ?thesis using assms(3,4) by (simp add: buffer_rest_def update_channel_def Let_def)
qed

lemma Send_ok:
  assumes sw: "write_spec (sockWrite env)" "sock_never_fatal (sockWrite env)"
    and r: "tstate s = kConnected" "\<not> hasHighWater s" "\<not> hasWriteComplete s" "buf_inv (outputBuffer s)"
    and room: "buf_room (length data) (outputBuffer s)"
  shows "\<exists>t. Send env True data s = Inr t \<and> wire t @ content (outputBuffer t) = wire s @ content (outputBuffer s) @ data \<and>
    accepted t = accepted s @ data \<and> tstate t = kConnected \<and> any_context t = any_context s \<and> inputBuffer t = inputBuffer s \<and>
    received t = received s \<and> writeIndex (outputBuffer t) \<le> writeIndex (outputBuffer s) + length data \<and>
    (chInPoller s \<longrightarrow> chInPoller t)"
proof -
  have len: "length data < 2 ^ 63" using room by (simp add: buf_room_def vector_max_def)
  let ?s0 = "s\<lparr>accepted := accepted s @ data\<rparr>"
  let ?s1 = "?s0\<lparr>writes := Suc (writes s)\<rparr>"
  show ?thesis
  proof (cases "\<not> conn_IsWriting s \<and> ReadableBytes (outputBuffer s) = 0")
    case False
    then have "Send env True data s = buffer_rest data 0 (length data) ?s0"
      using r by (auto simp: Send_def SendInLoop_def Let_def)
    with buffer_rest_ok [of ?s0 data "length data" 0] r room show ?thesis by auto
  next
    case True
    then have e: "content (outputBuffer s) = []" using r(4) by (simp add: ReadableBytes_content)
    show ?thesis
    proof (cases "sockWrite env (writes s) data")
      case (WriteError e')
      moreover have "e' \<noteq> OtherError" using sw(2) WriteError by (auto simp: sock_never_fatal_def)
      ultimately have "Send env True data s = buffer_rest data 0 (length data) ?s1"
        using r True by (cases e') (simp_all add: Send_def SendInLoop_def Let_def)
      with buffer_rest_ok [of ?s1 data "length data" 0] r room show ?thesis by auto
    next
      case (Written n)
      have n: "n \<le> length data" using sw(1) Written by (auto simp: write_spec_def)
      then have m: "sz_sub (length data) n = length data - n" using len by (simp add: sz_sub_eq)
      let ?s2 = "?s1\<lparr>wire := wire s @ take n data\<rparr>"
      have "Send env True data s = buffer_rest data n (length data - n) ?s2"
        using r True m Written by (simp add: Send_def SendInLoop_def Let_def)
      with buffer_rest_ok [of ?s2 data "length data - n" n] r room e show ?thesis by auto
    qed
  qed
qed

section \<open>What sending leaves alone\<close>

definition rest_same :: "'c TcpConnection \<Rightarrow> 'c TcpConnection \<Rightarrow> bool" where
  "rest_same s t \<longleftrightarrow> received t = received s \<and> inputBuffer t = inputBuffer s \<and> tasks t = tasks s \<and> any_context t = any_context s \<and>
     hasWriteComplete t = hasWriteComplete s \<and> hasHighWater t = hasHighWater s \<and> hasMessage t = hasMessage s"

lemma buffer_rest_same:
  "buffer_rest d w r s = Inr t \<Longrightarrow> \<not> hasHighWater s \<Longrightarrow> rest_same s t \<and> accepted t = accepted s \<and> tstate t = tstate s"
  by (auto simp: buffer_rest_def res_simps Let_def rest_same_def update_channel_def split: if_splits)

lemma Send_same:
  assumes "Send env True d s = Inr t" "\<not> hasHighWater s" "\<not> hasWriteComplete s"
  shows "rest_same s t \<and> accepted t = (if tstate s = kConnected then accepted s @ d else accepted s) \<and> tstate t = tstate s"
proof (cases "tstate s = kConnected")
  case False
  then show ?thesis using assms(1) by (simp add: Send_def rest_same_def)
next
  case True
  then obtain w r u where "buffer_rest d w r u = Inr t" "rest_same s u" "accepted u = accepted s @ d" "tstate u = tstate s"
    "\<not> hasHighWater u"
    using assms by (auto simp: Send_def SendInLoop_def res_simps Let_def rest_same_def split: if_splits write_result.splits)
  with buffer_rest_same [of d w r u t] True show ?thesis by (auto simp: rest_same_def)
qed

lemma HandleWrite_same:
  "HandleWrite env True s = Inr t \<Longrightarrow> \<not> hasWriteComplete s \<Longrightarrow> rest_same s t \<and> accepted t = accepted s \<and> tstate t = tstate s"
  by (auto simp: HandleWrite_def ShutdownInLoop_def res_simps Let_def rest_same_def update_channel_def
      split: if_splits write_result.splits)

text \<open>The callbacks a \<^verbatim>\<open>TcpServer\<close> starts with: a message is thrown away.\<close>

definition default_callbacks :: "conn_event \<Rightarrow> 'c TcpConnection \<Rightarrow> 'c conn_op list" where
  "default_callbacks ev s = (case ev of EvMessage \<Rightarrow> [OpRetrieve (length (content (inputBuffer s)))] | _ \<Rightarrow> [])"

lemma default_callbacks_fit: "script_fits default_callbacks"
  by (auto simp: script_fits_def default_callbacks_def op_fits_def split: conn_event.splits)

lemma retrieve_all_ok:
  assumes "buf_inv (inputBuffer s)"
  shows "\<exists>t. rfold (run_op env True) [OpRetrieve (length (content (inputBuffer s)))] s = Inr t \<and>
    content (inputBuffer t) = [] \<and> consumed t = consumed s @ content (inputBuffer s) \<and> accepted t = accepted s"
  using RetrieveAsString_ok [OF assms, of "length (content (inputBuffer s))"] by (auto simp: Retrieve_input_def)

lemma default_callbacks_empty:
  "buf_inv (inputBuffer s) \<Longrightarrow> \<exists>t. rfold (run_op env True) (default_callbacks EvMessage s) s = Inr t \<and> content (inputBuffer t) = []"
  using retrieve_all_ok [of s env] by (auto simp: default_callbacks_def)

section \<open>Draining the output buffer\<close>

text \<open>The channel reports that the socket is writable, again and again.\<close>

fun write_events :: "'c conn_env \<Rightarrow> nat \<Rightarrow> 'c TcpConnection \<Rightarrow> 'c TcpConnection res" where
  "write_events env 0 s = Inr s"
| "write_events env (Suc n) s = rbind (HandleWrite env True s) (write_events env n)"

lemma HandleWrite_progress:
  assumes w: "write_spec (sockWrite env)" and bi: "buf_inv (outputBuffer s)" and wr: "conn_IsWriting s"
    and nc: "\<not> hasWriteComplete s"
    and n: "sockWrite env (writes s) (content (outputBuffer s)) = Written n" "0 < n"
  shows "\<exists>t. HandleWrite env True s = Inr t \<and> buf_inv (outputBuffer t) \<and>
    content (outputBuffer t) = drop n (content (outputBuffer s)) \<and>
    wire t = wire s @ take n (content (outputBuffer s)) \<and> \<not> hasWriteComplete t \<and> tstate t = tstate s \<and>
    (conn_IsWriting t \<longleftrightarrow> content (outputBuffer t) \<noteq> [])"
proof -
  have "n \<le> length (content (outputBuffer s))" using w n(1) by (auto simp: write_spec_def)
  then obtain b where b: "Retrieve n (outputBuffer s) = Inr b" "buf_inv b"
    "content b = drop n (content (outputBuffer s))"
    using Retrieve_ok [OF bi] by blast
  show ?thesis
    using b n wr nc by (simp add: HandleWrite_def Let_def ReadableBytes_content ShutdownInLoop_def)
qed

lemma write_events_idle: "\<not> conn_IsWriting s \<Longrightarrow> write_events env n s = Inr s"
  by (induction n) (simp_all add: HandleWrite_def)

section \<open>Properties\<close>

text \<open>
  C1. In every reachable state of a connection, whatever the user's callbacks call, the kernel
  takes or delivers and other threads request: the bytes the connection took over from its users are
  those the kernel took followed by those in the output buffer, in this order; the bytes that were read
  are those the user took out of the input buffer followed by those still in it; and as long as the
  connection is open and the output buffer is not empty, the channel waits for the socket to become
  writable.
\<close>

theorem connection_byte_streams:
  assumes "reach (conn_init sw script) (conn_step (the_env sw script ow depth)) s"
  shows "accepted s = wire s @ content (outputBuffer s) \<and>
    received s = consumed s @ content (inputBuffer s) \<and>
    (tstate s = kConnected \<or> tstate s = kDisconnecting \<longrightarrow> \<not> lateForce s \<longrightarrow>
      content (outputBuffer s) \<noteq> [] \<longrightarrow> conn_IsWriting s)"
  using conn.reach_inv [OF assms] by (auto simp: conn_inv_defs)

text \<open>A kernel that takes one byte at a time, a user without callbacks.\<close>

definition one_byte :: "nat \<Rightarrow> string \<Rightarrow> write_result" where
  "one_byte i d = Written (min 1 (length d))"

definition no_calls :: "conn_event \<Rightarrow> unit TcpConnection \<Rightarrow> unit conn_op list" where
  "no_calls ev s = []"

lemmas conn_eval = ConnectionEstablished_def HandleClose_def ConnectionDestroyed_def callback_def the_env_def
  no_calls_def one_byte_def SendInLoop_def Send_def buffer_rest_def enqueue_def update_channel_def
  conn_fresh_def conn_IsWriting_def mask_defs

lemma one_byte_spec: "write_spec one_byte" "script_fits no_calls"
  by (simp_all add: write_spec_def one_byte_def script_fits_def no_calls_def)

lemma reach_establish:
  "reach I (conn_step env) s \<Longrightarrow> ConnectionEstablished env True s = Inr t \<Longrightarrow> reach I (conn_step env) t"
  by (erule reach_step, rule conn_step.establish)

lemma reach_user_call:
  "reach I (conn_step env) s \<Longrightarrow> op_fits c \<Longrightarrow> run_op env inLoop c s = Inr t \<Longrightarrow> reach I (conn_step env) t"
  by (erule reach_step, rule conn_step.user_call)

lemma reach_event:
  "reach I (conn_step env) s \<Longrightarrow> readv_spec readv \<Longrightarrow>
    length (buffer (inputBuffer s)) + extrabufSize \<le> vector_max \<Longrightarrow>
    conn_HandleEvent env evs readv s = Inr t \<Longrightarrow> reach I (conn_step env) t"
  by (erule reach_step, rule conn_step.event)

lemma reach_task:
  "reach I (conn_step env) s \<Longrightarrow> run_task env s = Inr t \<Longrightarrow> reach I (conn_step env) t"
  by (erule reach_step, rule conn_step.task)

lemma reach_owner:
  "reach I (conn_step env) s \<Longrightarrow> closes s = Suc n \<Longrightarrow> t = enqueue TaskDestroy (s\<lparr>closes := n\<rparr>) \<Longrightarrow>
    reach I (conn_step env) t"
  using reach_step conn_step.owner by metis

lemma established_reach:
  assumes "conn_init one_byte no_calls (conn_fresh b wc msg hw)"
  shows "reach (conn_init one_byte no_calls) (conn_step (the_env one_byte no_calls ow 1))
    ((conn_fresh b wc msg hw)\<lparr>tstate := kConnected, chEvents := 1, chInPoller := True, calls := [EvConnection]\<rparr>)"
  by (rule reach_establish, rule reach_init, rule assms) (simp add: conn_eval)

lemma fresh_init: "\<exists>b. buf_inv b \<and> content b = [] \<and> length (buffer b) = 1032 \<and> writeIndex b = 8 \<and>
    (\<forall>wc msg hw. conn_init one_byte no_calls (conn_fresh b wc msg hw))"
  using one_byte_spec by (intro exI [of _ fresh_buffer]) (auto simp: conn_init_def TcpConnection_new_eq)

theorem connection_byte_streams_witness:
  "\<exists>s. accepted s = ''abc'' \<and> wire s = ''a'' \<and> content (outputBuffer s) = ''bc'' \<and> conn_IsWriting s \<and>
    ''abc'' = wire s @ content (outputBuffer s)"
proof -
  obtain b where b: "buf_inv b" "content b = []" "writeIndex b = 8"
    "conn_init one_byte no_calls (conn_fresh b False False False)"
    using fresh_init by blast
  let ?s = "(conn_fresh b False False False)\<lparr>tstate := kConnected, chEvents := 1, chInPoller := True,
    calls := [EvConnection]\<rparr>"
  have "buf_room (length ''bc'') b" using b by (simp add: buf_room_def vector_max_def)
  then obtain o' where o: "Append ''bc'' b = Inr o'" "content o' = ''bc''"
    using Append_ok [OF b(1)] b(2) by fastforce
  have "ReadableBytes b = 0" using b by (simp add: ReadableBytes_content)
  then have send: "run_op (the_env one_byte no_calls OtherLoop 1) True (OpSend ''abc'') ?s =
    Inr (?s\<lparr>accepted := ''abc'', wire := ''a'', writes := 1, outputBuffer := o', chEvents := 5\<rparr>)"
    using o by (simp add: conn_eval sz_sub_def sz_add_def)
  have "reach (conn_init one_byte no_calls) (conn_step (the_env one_byte no_calls OtherLoop 1))
    (?s\<lparr>accepted := ''abc'', wire := ''a'', writes := 1, outputBuffer := o', chEvents := 5\<rparr>)"
    by (rule reach_user_call [OF established_reach [OF b(4)] _ send]) (simp add: op_fits_def)
  from connection_byte_streams [OF this] show ?thesis
    using o(2) by (intro exI [of _ "?s\<lparr>accepted := ''abc'', wire := ''a'', writes := 1, outputBuffer := o', chEvents := 5\<rparr>"])
      (simp add: conn_eval)
qed


lemma eof_read:
  assumes "buf_inv b" "length (buffer b) = 1032"
  shows "\<exists>b'. ReadFd (\<lambda>_. Some []) b = Inr (0, b') \<and> buf_inv b'"
  using ReadFd_ok [OF assms(1), of "\<lambda>_. Some []" "[]"] assms(2)
  by (auto simp: readv_spec_def vector_max_def extrabufSize_def)




text \<open>
  \<^verbatim>\<open>Shutdown\<close> never shuts the write side down.  In no reachable state has
  \<^verbatim>\<open>ShutdownWrite\<close> been called on the socket: \<^verbatim>\<open>Shutdown\<close> leaves \<^verbatim>\<open>kConnected\<close> before it
  reaches \<^verbatim>\<open>ShutdownInLoop\<close>, which does nothing in any other state, and \<^verbatim>\<open>HandleWrite\<close> calls it
  only in \<^verbatim>\<open>kDisconnecting\<close>.  The peer never sees the end of the stream, although the header says
  that the loop is told to close the write side.
\<close>

theorem Shutdown_never_shuts_write_side:
  assumes "reach (conn_init sw script) (conn_step (the_env sw script ow depth)) s"
  shows "\<not> wrShut s \<and>
    (\<forall>inLoop t. Shutdown inLoop s = Inr t \<longrightarrow> \<not> wrShut t \<and> (tstate s = kConnected \<longrightarrow> tstate t = kDisconnecting))"
proof -
  have "\<not> wrShut s" using conn.reach_inv [OF assms] by (simp add: conn_inv_def tasks_ok_def)
  then show ?thesis
    by (auto simp: Shutdown_def ShutdownInLoop_def Let_def enqueue_def res_simps split: if_splits)
qed

theorem Shutdown_never_shuts_write_side_witness:
  "\<exists>s. tstate s = kConnected \<and> \<not> conn_IsWriting s \<and>
    Shutdown True s = Inr (s\<lparr>tstate := kDisconnecting\<rparr>) \<and> \<not> wrShut (s\<lparr>tstate := kDisconnecting\<rparr>)"
proof -
  obtain b where "conn_init one_byte no_calls (conn_fresh b False False False)" using fresh_init by blast
  from Shutdown_never_shuts_write_side [OF established_reach [OF this, of OtherLoop]]
  show ?thesis
    by (intro exI [of _ "(conn_fresh b False False False)\<lparr>tstate := kConnected, chEvents := 1,
        chInPoller := True, calls := [EvConnection]\<rparr>"])
      (simp add: Shutdown_def ShutdownInLoop_def conn_fresh_def conn_IsWriting_def mask_defs)
qed

text \<open>
  An event word that reports both the end of the stream and a hangup kills the process.  On an
  open connection with its owner in another loop, when \<^verbatim>\<open>read\<close> returns no byte and \<^verbatim>\<open>EPOLLHUP\<close>
  is set, \<^verbatim>\<open>HandleRead\<close> closes the connection and the close callback of the channel closes it again:
  the assertion of \<^verbatim>\<open>HandleClose\<close> fails.
\<close>

theorem eof_and_hangup_asserts:
  assumes "tstate s = kConnected \<or> tstate s = kDisconnecting" and "buf_inv (inputBuffer s)"
    and "length (buffer (inputBuffer s)) + extrabufSize \<le> vector_max"
    and "evs AND (EPOLLIN OR EPOLLPRI OR EPOLLRDHUP) \<noteq> 0" and "evs AND EPOLLHUP \<noteq> 0"
  shows "conn_HandleEvent (the_env sw script OtherLoop (Suc depth)) evs (\<lambda>_. Some []) s = Inl Assertion"
proof -
  obtain b where "ReadFd (\<lambda>_. Some []) (inputBuffer s) = Inr (0, b)"
    using ReadFd_ok [OF assms(2) _ assms(3), of "\<lambda>_. Some []" "[]"] by (auto simp: readv_spec_def)
  with assms(1,4,5) show ?thesis
    by (auto simp: conn_HandleEvent_def HandleRead_def HandleClose_def HandleError_def callback_def
        the_env_def HandleWrite_def conn_IsWriting_def update_channel_def kNoneEvent_def Let_def)
qed

theorem eof_and_hangup_asserts_witness:
  "\<exists>s. tstate s = kConnected \<and>
    conn_HandleEvent (the_env one_byte no_calls OtherLoop 1) 0x11 (\<lambda>_. Some []) s = Inl Assertion"
proof -
  obtain b where b: "buf_inv b" "length (buffer b) = 1032" using fresh_init by blast
  have "conn_HandleEvent (the_env one_byte no_calls OtherLoop (Suc 0)) 0x11 (\<lambda>_. Some [])
    ((conn_fresh b False False False)\<lparr>tstate := kConnected\<rparr>) = Inl Assertion"
    by (rule eof_and_hangup_asserts)
      (use b in \<open>simp_all add: conn_fresh_def mask_defs vector_max_def extrabufSize_def\<close>)
  then show ?thesis by (intro exI [of _ "(conn_fresh b False False False)\<lparr>tstate := kConnected\<rparr>"])
      (simp add: conn_fresh_def)
qed

text \<open>
  A send that the kernel takes at once leaves the connection waiting for the socket to become
  writable with nothing to write, if no write-complete callback is set: the early return of
  \<^verbatim>\<open>SendInLoop\<close> is taken only with that callback.  Each writable event then changes nothing but the
  count of the calls of \<^verbatim>\<open>write\<close>, so that a level-triggered poller reports it for ever.
\<close>

theorem complete_send_leaves_writing:
  assumes "write_spec (sockWrite env)" and "tstate s = kConnected" and "\<not> conn_IsWriting s"
    and "buf_inv (outputBuffer s)" and "content (outputBuffer s) = []" and "writeIndex (outputBuffer s) \<le> vector_max"
    and "\<not> hasWriteComplete s" and "0 < highWaterMark s"
    and "length data < 2 ^ 63" and "sockWrite env (writes s) data = Written (length data)"
  shows "\<exists>t. SendInLoop env True data s = Inr t \<and> wire t = wire s @ data \<and>
    content (outputBuffer t) = [] \<and> conn_IsWriting t \<and>
    (\<forall>u. HandleWrite env True t = Inr u \<longrightarrow> u = t\<lparr>writes := Suc (writes t)\<rparr>)"
proof -
  have "buf_room (length []) (outputBuffer s)" using assms(6) by (simp add: buf_room_def)
  then obtain b where b: "Append [] (outputBuffer s) = Inr b" "buf_inv b" "content b = []"
    using Append_ok [OF assms(4), of "[]"] assms(5) by auto
  have z: "ReadableBytes (outputBuffer s) = 0" "sz_sub (length data) (length data) = 0" "sz_add 0 0 = 0"
    using assms(4,5,9) by (simp_all add: ReadableBytes_content sz_sub_eq sz_add_def)
  let ?t = "update_channel EnableWriting (s\<lparr>accepted := accepted s @ data, writes := Suc (writes s),
    wire := wire s @ data, outputBuffer := b\<rparr>)"
  have r: "SendInLoop env True data s = Inr ?t"
    using assms(2,3,7,8,10) b z by (simp add: SendInLoop_def buffer_rest_def Let_def)
  have "sockWrite env i [] = Written 0 \<or> (\<exists>e. sockWrite env i [] = WriteError e)" for i
    using assms(1) by (cases "sockWrite env i []") (force simp: write_spec_def)+
  then have "\<forall>i. sockWrite env i [] = Written 0 \<or> (\<exists>e. sockWrite env i [] = WriteError e)" by blast
  then have "HandleWrite env True ?t = Inr (?t\<lparr>writes := Suc (writes ?t)\<rparr>)"
    using b(3) by (elim allE [where x = "writes ?t"] disjE exE) (simp_all add: HandleWrite_def Let_def)
  with r b(3) show ?thesis by simp
qed

theorem complete_send_leaves_writing_witness:
  "\<exists>s t. SendInLoop (the_env (\<lambda>i d. Written (length d)) no_calls OtherLoop 1) True ''hi'' s = Inr t \<and>
    wire t = ''hi'' \<and> content (outputBuffer t) = [] \<and> conn_IsWriting t"
proof -
  obtain b where b: "buf_inv b" "content b = []" "writeIndex b = 8" using fresh_init by blast
  let ?s = "(conn_fresh b False False False)\<lparr>tstate := kConnected, chEvents := 1\<rparr> :: unit TcpConnection"
  let ?env = "the_env (\<lambda>i d. Written (length d)) no_calls OtherLoop 1"
  have "\<exists>t. SendInLoop ?env True ''hi'' ?s = Inr t \<and> wire t = wire ?s @ ''hi'' \<and>
    content (outputBuffer t) = [] \<and> conn_IsWriting t \<and>
    (\<forall>u. HandleWrite ?env True t = Inr u \<longrightarrow> u = t\<lparr>writes := Suc (writes t)\<rparr>)"
    by (rule complete_send_leaves_writing)
      (use b in \<open>simp_all add: the_env_def write_spec_def conn_fresh_def conn_IsWriting_def mask_defs vector_max_def\<close>)
  then show ?thesis by (auto simp: conn_fresh_def)
qed

end
