(* ===== verification/Growth.thy ===== *)
theory Growth
  imports Tcp
begin

text \<open>
  What the operations of a connection (theory \<open>Tcp\<close>) never take back, whatever its callbacks do:
  shared by the theories that put connections together (\<open>Clients\<close>, \<open>Sessions\<close>, \<open>Descriptors\<close>).
\<close>

section \<open>What a connection does not take back\<close>

text \<open>
  Bytes on the wire stay there, a destruction, a late \<^verbatim>\<open>ForceClose\<close> and a close callback are not undone,
  and only \<^verbatim>\<open>HandleRead\<close> reads.
\<close>

definition grows :: "'c TcpConnection \<Rightarrow> 'c TcpConnection \<Rightarrow> bool" where
  "grows s t \<longleftrightarrow> destroyed s \<le> destroyed t \<and> (lateForce s \<longrightarrow> lateForce t) \<and> (\<exists>d. wire t = wire s @ d) \<and>
     received t = received s \<and> (EvClose \<in> set (calls s) \<longrightarrow> EvClose \<in> set (calls t))"

definition grows_env :: "'c conn_env \<Rightarrow> bool" where
  "grows_env env \<longleftrightarrow> (\<forall>ev s t. user env ev s = Inr t \<longrightarrow> grows s t)"

lemma grows_refl [simp]: "grows s s"
  by (simp add: grows_def)

lemma grows_trans: "grows s t \<Longrightarrow> grows t u \<Longrightarrow> grows s u"
  by (auto simp: grows_def)

lemma grows_eq: "destroyed s' = destroyed s \<Longrightarrow> lateForce s' = lateForce s \<Longrightarrow> wire s' = wire s \<Longrightarrow>
    received s' = received s \<Longrightarrow> set (calls s) \<subseteq> set (calls s') \<Longrightarrow> grows s' t \<Longrightarrow> grows s t"
  by (auto simp: grows_def)

lemma callback_grows: "grows_env env \<Longrightarrow> callback env ev s = Inr t \<Longrightarrow> grows s t"
  unfolding grows_env_def callback_def by (rule grows_eq [of "s\<lparr>calls := calls s @ [ev]\<rparr>"]) auto

lemma enqueue_destroyed [simp]:
  "destroyed (enqueue c s) = destroyed s" "wire (enqueue c s) = wire s" "received (enqueue c s) = received s"
  "calls (enqueue c s) = calls s"
  by (simp_all add: enqueue_def)

lemma buffer_rest_grows: "buffer_rest data w r s = Inr t \<Longrightarrow> grows s t"
  by (auto simp: buffer_rest_def Let_def res_simps grows_def split: if_splits)

lemma SendInLoop_grows:
  assumes "grows_env env" "SendInLoop env inLoop data s = Inr t"
  shows "grows s t"
  using assms(2)
  by (auto simp: SendInLoop_def Let_def res_simps split: if_splits write_result.splits
      dest!: buffer_rest_grows callback_grows [OF assms(1)] simp: grows_def)

lemma Send_grows: "grows_env env \<Longrightarrow> Send env inLoop data s = Inr t \<Longrightarrow> grows s t"
  by (auto simp: Send_def grows_def split: if_splits dest!: SendInLoop_grows)

lemma reading_grows:
  "StartReadInLoop inLoop s = Inr t \<Longrightarrow> grows s t" "StopReadInLoop inLoop s = Inr t \<Longrightarrow> grows s t"
  "StartRead inLoop s = Inr t \<Longrightarrow> grows s t" "StopRead inLoop s = Inr t \<Longrightarrow> grows s t"
  "ShutdownInLoop inLoop s = Inr t \<Longrightarrow> grows s t" "Shutdown inLoop s = Inr t \<Longrightarrow> grows s t"
  by (auto simp: StartRead_def StopRead_def StartReadInLoop_def StopReadInLoop_def Shutdown_def ShutdownInLoop_def Let_def
      res_simps grows_def split: if_splits)

lemma HandleClose_grows: "grows_env env \<Longrightarrow> HandleClose env inLoop s = Inr t \<Longrightarrow> grows s t"
  by (auto simp: HandleClose_def res_simps grows_def dest!: callback_grows)

lemma ForceClose_grows:
  assumes "grows_env env"
  shows "ForceCloseInLoop env inLoop s = Inr t \<Longrightarrow> grows s t" "ForceClose env inLoop s = Inr t \<Longrightarrow> grows s t"
proof -
  show *: "grows s t" if "ForceCloseInLoop env inLoop s = Inr t" for s
    using that HandleClose_grows [OF assms] by (auto simp: ForceCloseInLoop_def res_simps split: if_splits)
  show "grows s t" if "ForceClose env inLoop s = Inr t"
  proof -
    let ?s = "s\<lparr>tstate := kDisconnecting,
      lateForce := lateForce s \<or> tstate s \<noteq> kConnected \<and> tstate s \<noteq> kDisconnecting\<rparr>"
    have "grows ?s t" using that *[of ?s] by (auto simp: ForceClose_def States_value_def Let_def grows_def split: if_splits)
    then show ?thesis by (auto simp: grows_def)
  qed
qed

lemma ConnectionDestroyed_grows: "grows_env env \<Longrightarrow> ConnectionDestroyed env inLoop s = Inr t \<Longrightarrow> grows s t"
  by (auto simp: ConnectionDestroyed_def res_simps grows_def dest!: callback_grows)

lemma ConnectionEstablished_grows: "grows_env env \<Longrightarrow> ConnectionEstablished env inLoop s = Inr t \<Longrightarrow> grows s t"
  by (auto simp: ConnectionEstablished_def res_simps grows_def dest!: callback_grows)

lemma run_op_grows:
  assumes "grows_env env" and "run_op env inLoop c s = Inr t"
  shows "grows s t"
  using assms(2)
  by (cases c) (auto simp: Send_buffer_def Retrieve_input_def SetContext_def res_simps grows_def
      dest!: Send_grows [OF assms(1)] reading_grows ForceClose_grows [OF assms(1)])

lemma call_back_grows: "grows_env \<lparr>sockWrite = sw, user = call_back sw script ow depth\<rparr>"
proof (induction depth)
  case 0
  then show ?case by (simp add: grows_env_def)
next
  case (Suc depth)
  let ?env = "\<lparr>sockWrite = sw, user = call_back sw script ow depth\<rparr>"
  have r: "grows s t" if "rfold (run_op ?env True) cs s = Inr t" for cs s t
    by (rule rfold_preserves [where P = "grows s", OF _ _ that]) (auto intro: grows_trans run_op_grows [OF Suc])
  have "grows s t" if "call_back sw script ow (Suc depth) ev s = Inr t" for ev s t
    using that r ConnectionDestroyed_grows [OF Suc]
    by (cases ev) (auto simp: Let_def grows_def split: owner.splits)
  then show ?case by (simp add: grows_env_def)
qed

lemma HandleRead_grows:
  assumes "grows_env env" and "HandleRead env inLoop readv s = Inr t"
  shows "\<exists>r. grows (s\<lparr>received := received s @ r\<rparr>) t \<and> (r = [] \<or> (\<exists>iov. readv iov = Some r))"
proof -
  define r where "r = (case readv (ReadFd_iov (inputBuffer s)) of None \<Rightarrow> [] | Some d \<Rightarrow> d)"
  obtain n b where b: "inLoop" "ReadFd readv (inputBuffer s) = Inr (n, b)"
    using assms(2) by (auto simp: HandleRead_def res_simps)
  then have "(if n < 0 then HandleError (s\<lparr>inputBuffer := b, received := received s @ r\<rparr>)
      else if n = 0 then HandleClose env inLoop (s\<lparr>inputBuffer := b, received := received s @ r\<rparr>)
      else if hasMessage s then callback env EvMessage (s\<lparr>inputBuffer := b, received := received s @ r\<rparr>)
      else Inr (s\<lparr>inputBuffer := b, received := received s @ r\<rparr>)) = Inr t"
    using assms(2) by (simp add: HandleRead_def Let_def r_def cong: if_cong)
  then have "grows (s\<lparr>inputBuffer := b, received := received s @ r\<rparr>) t"
    using callback_grows [OF assms(1)] HandleClose_grows [OF assms(1)]
    by (auto simp: HandleError_def split: if_splits)
  then have "grows (s\<lparr>received := received s @ r\<rparr>) t" by (rule grows_eq [rotated 5]) simp_all
  then show ?thesis by (intro exI [of _ r]) (auto simp: r_def split: option.splits)
qed

lemma HandleWrite_grows:
  assumes "grows_env env" and "HandleWrite env inLoop s = Inr t"
  shows "grows s t"
  using assms(2)
  by (auto simp: HandleWrite_def Let_def res_simps grows_def split: if_splits write_result.splits
      dest!: callback_grows [OF assms(1)] reading_grows)

lemma conn_HandleEvent_grows:
  assumes "grows_env env" and "conn_HandleEvent env evs readv s = Inr t"
  shows "\<exists>r. grows (s\<lparr>received := received s @ r\<rparr>) t \<and> (r = [] \<or> (\<exists>iov. readv iov = Some r))"
proof -
  note g = HandleWrite_grows [OF assms(1)] HandleClose_grows [OF assms(1)]
  obtain s1 s2 where s1: "s1 = s \<or> HandleRead env True readv s = Inr s1" and s2: "s2 = s1 \<or> HandleWrite env True s1 = Inr s2"
    "t = s2 \<or> HandleClose env True s2 = Inr t"
    using assms(2) by (auto simp: conn_HandleEvent_def HandleError_def res_simps split: if_splits)
  from s1 obtain r where r: "grows (s\<lparr>received := received s @ r\<rparr>) s1" "r = [] \<or> (\<exists>iov. readv iov = Some r)"
  proof
    assume "s1 = s"
    then have "grows (s\<lparr>received := received s @ []\<rparr>) s1" by simp
    with that show thesis by blast
  next
    assume "HandleRead env True readv s = Inr s1"
    with HandleRead_grows [OF assms(1) this] that show thesis by blast
  qed
  from s2 g have "grows s1 s2" "grows s2 t" by auto
  with r show ?thesis by (blast intro: grows_trans)
qed

lemma run_task_grows:
  assumes "grows_env env" and "run_task env s = Inr t"
  shows "grows s t"
  using assms(2)
  by (auto simp: run_task_def Let_def grows_def split: list.splits conn_task.splits
      dest!: SendInLoop_grows [OF assms(1)] reading_grows ForceClose_grows [OF assms(1)]
        callback_grows [OF assms(1)] ConnectionDestroyed_grows [OF assms(1)])

text \<open>What every step of a connection keeps.\<close>

definition ages :: "'c TcpConnection \<Rightarrow> 'c TcpConnection \<Rightarrow> bool" where
  "ages s t \<longleftrightarrow> destroyed s \<le> destroyed t \<and> (lateForce s \<longrightarrow> lateForce t) \<and>
     (EvClose \<in> set (calls s) \<longrightarrow> EvClose \<in> set (calls t))"

lemma grows_ages: "grows s t \<Longrightarrow> ages s t"
  by (simp add: grows_def ages_def)

lemma conn_step_ages:
  assumes "grows_env env" and "conn_step env s t"
  shows "ages s t"
  using assms(2)
proof cases
  case (event readv evs)
  from conn_HandleEvent_grows [OF assms(1) event(3)] show ?thesis by (auto simp: grows_def ages_def)
next
  case (owner n)
  then show ?thesis by (simp add: ages_def enqueue_def)
qed (auto intro: grows_ages ConnectionEstablished_grows [OF assms(1)] run_op_grows [OF assms(1)] run_task_grows [OF assms(1)])

lemma the_env_grows: "grows_env (the_env sw script ow depth)"
  unfolding the_env_def by (rule call_back_grows)

end
