(* ===== verification/Sockets.thy ===== *)
theory Sockets
  imports Prelude
begin

text \<open>
  Addresses and sockets: \<^verbatim>\<open>src/net/InetAddress.h\<close>, \<^verbatim>\<open>src/net/InetAddress.cc\<close>,
  \<^verbatim>\<open>src/net/Socket.h\<close> and \<^verbatim>\<open>src/net/Socket.cc\<close>.

  The byte order functions and \<^verbatim>\<open>inet_ntop\<close> are those of a little-endian machine; the other system
  calls are arguments (\<open>sock_api\<close>), with what their manual pages promise in \<open>sock_spec\<close>.
\<close>

unbundle bit_operations_syntax

section \<open>InetAddress\<close>

record InetAddress =
  sin_family :: nat
  sin_port :: "16 word"
  sin_addr :: "32 word"

definition AF_INET :: nat where "AF_INET = 2"

definition htobe16 :: "16 word \<Rightarrow> 16 word" where
  "htobe16 w = push_bit 8 w OR drop_bit 8 w"

lemma htobe16_htobe16 [simp]: "htobe16 (htobe16 w) = w"
  unfolding htobe16_def
  by (rule bit_word_eqI) (auto simp: bit_or_iff bit_push_bit_iff bit_drop_bit_eq)

definition InetAddress_default :: InetAddress where
  "InetAddress_default = \<lparr>sin_family = 0, sin_port = 0, sin_addr = 0\<rparr>"

text \<open>
  \<open>pton\<close> is \<^verbatim>\<open>inet_pton\<close>, \<open>None\<close> where it returns 0 because the string is no address; the
  constructor looks only for a negative result and keeps the address 0.0.0.0.
\<close>

definition InetAddress_new :: "(string \<Rightarrow> 32 word option) \<Rightarrow> string \<Rightarrow> 16 word \<Rightarrow> InetAddress" where
  "InetAddress_new pton ip port =
     \<lparr>sin_family = AF_INET, sin_port = htobe16 port,
      sin_addr = (case pton ip of None \<Rightarrow> 0 | Some a \<Rightarrow> a)\<rparr>"

definition InetAddress_any :: "16 word \<Rightarrow> InetAddress" where
  "InetAddress_any port = \<lparr>sin_family = AF_INET, sin_port = htobe16 port, sin_addr = 0\<rparr>"

text \<open>The bytes of the address as they lie in memory.\<close>

definition octet :: "nat \<Rightarrow> 32 word \<Rightarrow> nat" where
  "octet i a = unat a div 256 ^ i mod 256"

definition inet_ntop :: "32 word \<Rightarrow> string" where
  "inet_ntop a = nat_digits (octet 0 a) @ ''.'' @ nat_digits (octet 1 a) @ ''.'' @
     nat_digits (octet 2 a) @ ''.'' @ nat_digits (octet 3 a)"

text \<open>\<^verbatim>\<open>buf\<close> has 32 bytes; \<^verbatim>\<open>snprintf\<close> gets what \<^verbatim>\<open>inet_ntop\<close> left of it.\<close>

definition ToString :: "bool \<Rightarrow> InetAddress \<Rightarrow> string" where
  "ToString printPort a =
     (let ip = inet_ntop (sin_addr a) in
      if printPort
      then ip @ snprintf (32 - length ip) (CHR 0x3A # nat_digits (unat (htobe16 (sin_port a))))
      else ip)"

text \<open>\<^verbatim>\<open>getaddrinfo\<close> is an argument: \<open>None\<close> for an error, otherwise the first address of its list.\<close>

definition NameToAddress :: "(string option \<Rightarrow> string option \<Rightarrow> InetAddress option) \<Rightarrow> string option \<Rightarrow> string option \<Rightarrow>
    InetAddress \<Rightarrow> (bool \<times> InetAddress) res" where
  "NameToAddress getaddrinfo hostname service result =
     (case getaddrinfo hostname service of
        None \<Rightarrow> Inr (False, result)
      | Some r \<Rightarrow> ensure (sin_family r = AF_INET)
          (Inr (True, result\<lparr>sin_family := AF_INET, sin_addr := sin_addr r, sin_port := sin_port r\<rparr>)))"

section \<open>Text of an address\<close>

lemma nat_digits_chars: "c \<in> set (nat_digits n) \<Longrightarrow> \<exists>d < 10. c = digit_char d"
proof (induction n rule: nat_digits.induct)
  case (1 n)
  have m: "\<exists>d < 10. digit_char (n mod 10) = digit_char d" by (intro exI [of _ "n mod 10"]) simp
  show ?case
  proof (cases "n < 10")
    case True
    with 1(2) show ?thesis by (auto simp: nat_digits.simps [of n])
  next
    case False
    with 1(2) have "c \<in> set (nat_digits (n div 10)) \<or> c = digit_char (n mod 10)"
      by (auto simp: nat_digits.simps [of n])
    then show ?thesis using 1(1) [OF False] m by auto
  qed
qed

lemma digit_char_separators: "d < 10 \<Longrightarrow> CHR 0x2E \<noteq> digit_char d \<and> CHR 0x3A \<noteq> digit_char d \<and> CHR 0x23 \<noteq> digit_char d"
  by (drule less_10_cases) (auto simp: digit_char_def)

lemma nat_digits_separators [simp]:
  "CHR 0x2E \<notin> set (nat_digits n)" "CHR 0x3A \<notin> set (nat_digits n)" "CHR 0x23 \<notin> set (nat_digits n)"
  using digit_char_separators by (auto dest!: nat_digits_chars)

text \<open>What stands before the first separator is determined.\<close>

lemma split_at:
  assumes "c \<notin> set xs" "c \<notin> set ys" "xs @ c # us = ys @ c # vs"
  shows "xs = ys \<and> us = vs"
proof -
  have t: "takeWhile (\<lambda>x. x \<noteq> c) (zs @ c # ws) = zs" if "c \<notin> set zs" for zs ws
    using that by (subst takeWhile_append2) auto
  have "xs = ys" using t [OF assms(1), of us] t [OF assms(2), of vs] assms(3) by simp
  with assms(3) show ?thesis by simp
qed

lemma split_digits:
  assumes "nat_digits m @ c # us = nat_digits n @ c # vs" "c = CHR 0x2E \<or> c = CHR 0x3A \<or> c = CHR 0x23"
  shows "m = n \<and> us = vs"
  using split_at [OF _ _ assms(1)] assms(2) nat_digits_inject by auto

lemma octets_inject:
  assumes "octet 0 a = octet 0 b" "octet 1 a = octet 1 b" "octet 2 a = octet 2 b" "octet 3 a = octet 3 b"
  shows "a = b"
proof -
  have s: "unat w = octet 0 w + 256 * octet 1 w + 65536 * octet 2 w + 16777216 * octet 3 w" for w :: "32 word"
  proof -
    define n where "n = unat w"
    define q1 q2 q3 where "q1 = n div 256" and "q2 = q1 div 256" and "q3 = q2 div 256"
    have "n < 4294967296" using unsigned_less [of w, where ?'a = nat] by (simp add: n_def)
    then have "q3 mod 256 = q3" by (simp add: q1_def q2_def q3_def div_mult2_eq [symmetric] less_mult_imp_div_less)
    moreover have "octet 0 w = n mod 256" "octet 1 w = q1 mod 256" "octet 2 w = q2 mod 256" "octet 3 w = q3 mod 256"
      by (simp_all add: octet_def n_def q1_def q2_def q3_def div_mult2_eq [symmetric])
    moreover have "n = 256 * q1 + n mod 256" "q1 = 256 * q2 + q1 mod 256" "q2 = 256 * q3 + q2 mod 256"
      by (simp_all add: q1_def q2_def q3_def)
    ultimately show ?thesis unfolding n_def [symmetric] by linarith
  qed
  show ?thesis using s [of a] s [of b] assms by (simp add: word_unat_eq_iff)
qed

lemma octet_digits: "length (nat_digits (octet i a)) \<le> 3"
  by (rule length_nat_digits) (simp_all add: octet_def less_imp_le)

lemma inet_ntop_length: "length (inet_ntop a) \<le> 15"
  using octet_digits [of 0 a] octet_digits [of 1 a] octet_digits [of 2 a] octet_digits [of 3 a]
  by (simp add: inet_ntop_def)

lemma port_digits: "length (nat_digits (unat (p :: 16 word))) \<le> 5"
  using unsigned_less [of p, where ?'a = nat] by (intro length_nat_digits) simp_all

lemma ToString_port:
  "ToString True a = inet_ntop (sin_addr a) @ CHR 0x3A # nat_digits (unat (htobe16 (sin_port a)))"
  using inet_ntop_length [of "sin_addr a"] port_digits [of "htobe16 (sin_port a)"]
  by (simp add: ToString_def snprintf_def Let_def)

lemma inet_ntop_no_colon [simp]: "CHR 0x3A \<notin> set (inet_ntop a)" "CHR 0x23 \<notin> set (inet_ntop a)"
  by (simp_all add: inet_ntop_def)

lemma inet_ntop_inject: "inet_ntop a = inet_ntop b \<Longrightarrow> a = b"
  unfolding inet_ntop_def
  by (rule octets_inject) (auto dest!: split_digits nat_digits_inject simp: append_assoc)

text \<open>Servers and clients name a connection after its peer and a number.\<close>

lemma hash_name_inject:
  assumes "ToString True a @ CHR 0x23 # nat_digits m = ToString True b @ CHR 0x23 # nat_digits n"
  shows "m = n \<and> ToString True a = ToString True b"
proof -
  have nohash: "CHR 0x23 \<notin> set (ToString True x)" for x by (simp add: ToString_port)
  show ?thesis using split_at [OF nohash nohash assms] nat_digits_inject by blast
qed

definition connection_name :: "InetAddress \<Rightarrow> nat \<Rightarrow> string" where
  "connection_name peer n = ToString True peer @ CHR 0x23 # nat_digits n"

lemma connection_name_inject: "connection_name a m = connection_name b n \<Longrightarrow> m = n"
  unfolding connection_name_def by (drule hash_name_inject) simp

section \<open>System calls\<close>

datatype connect_errno = ConnectOk | ConnINPROGRESS | ConnINTR | ConnISCONN | ConnAGAIN | ConnNETUNREACH
  | ConnADDRINUSE | ConnADDRNOTAVAIL | ConnREFUSED | ConnOther

datatype accept_errno = AcceptOk | AccAGAIN | AccCONNABORTED | AccPROTO | AccINTR | AccMFILE | AccOther

datatype sockopt = TcpNoDelay | ReuseAddr | ReusePort | KeepAlive

text \<open>
  The kernel, with state \<open>'k\<close>.  A call returns what the C function returns and the new state;
  \<open>sys_connect\<close> returns \<^verbatim>\<open>errno\<close>, \<open>ConnectOk\<close> for a result of 0, \<open>sys_accept\<close> the descriptor, the
  peer and \<^verbatim>\<open>errno\<close>; \<open>sys_getsockname\<close> and its like return \<open>None\<close> for an error.
\<close>

record 'k sock_api =
  sys_socket :: "'k \<Rightarrow> int \<times> 'k"
  sys_close :: "int \<Rightarrow> 'k \<Rightarrow> int \<times> 'k"
  sys_connect :: "int \<Rightarrow> InetAddress \<Rightarrow> 'k \<Rightarrow> connect_errno \<times> 'k"
  sys_bind :: "int \<Rightarrow> InetAddress \<Rightarrow> 'k \<Rightarrow> int \<times> 'k"
  sys_listen :: "int \<Rightarrow> 'k \<Rightarrow> int \<times> 'k"
  sys_accept :: "int \<Rightarrow> 'k \<Rightarrow> (int \<times> InetAddress \<times> accept_errno) \<times> 'k"
  sys_shutdown :: "int \<Rightarrow> 'k \<Rightarrow> int \<times> 'k"
  sys_setsockopt :: "int \<Rightarrow> sockopt \<Rightarrow> int \<Rightarrow> 'k \<Rightarrow> int \<times> 'k"
  sys_getsockopt_error :: "int \<Rightarrow> 'k \<Rightarrow> int option"
  sys_getsockname :: "int \<Rightarrow> 'k \<Rightarrow> InetAddress option"
  sys_getpeername :: "int \<Rightarrow> 'k \<Rightarrow> InetAddress option"
  sys_open_null :: "'k \<Rightarrow> int \<times> 'k"

section \<open>Socket\<close>

text \<open>A \<^verbatim>\<open>Socket\<close> is its descriptor; the destructor is \<open>CloseFd\<close>.\<close>

definition CreateSocketFd :: "'k sock_api \<Rightarrow> 'k \<Rightarrow> (int \<times> 'k) res" where
  "CreateSocketFd api k = (let (fd, k1) = sys_socket api k in if fd < 0 then Inl Fatal else Inr (fd, k1))"

definition CloseFd :: "'k sock_api \<Rightarrow> int \<Rightarrow> 'k \<Rightarrow> 'k res" where
  "CloseFd api fd k = (let (ret, k1) = sys_close api fd k in if ret < 0 then Inl Fatal else Inr k1)"

text \<open>
  The destructor closes the descriptor.  \<^verbatim>\<open>Send\<close> logs an error of \<^verbatim>\<open>write\<close> and leaves it to the caller, as
  \<^verbatim>\<open>Connect\<close> does with that of \<^verbatim>\<open>connect\<close>.
\<close>

definition Socket_destroy :: "'k sock_api \<Rightarrow> int \<Rightarrow> 'k \<Rightarrow> 'k res" where
  "Socket_destroy api fd k = CloseFd api fd k"

definition Socket_Send :: "(int \<Rightarrow> string \<Rightarrow> 'k \<Rightarrow> int \<times> 'k) \<Rightarrow> int \<Rightarrow> string \<Rightarrow> 'k \<Rightarrow> int \<times> 'k" where
  "Socket_Send sys_write fd data k = sys_write fd data k"

definition Socket_Connect :: "'k sock_api \<Rightarrow> int \<Rightarrow> InetAddress \<Rightarrow> 'k \<Rightarrow> connect_errno \<times> 'k" where
  "Socket_Connect api fd a k = sys_connect api fd a k"

definition Socket_Bind :: "'k sock_api \<Rightarrow> int \<Rightarrow> InetAddress \<Rightarrow> 'k \<Rightarrow> 'k res" where
  "Socket_Bind api fd a k = (let (ret, k1) = sys_bind api fd a k in if ret < 0 then Inl Fatal else Inr k1)"

definition Socket_Listen :: "'k sock_api \<Rightarrow> int \<Rightarrow> 'k \<Rightarrow> 'k res" where
  "Socket_Listen api fd k = (let (ret, k1) = sys_listen api fd k in if ret < 0 then Inl Fatal else Inr k1)"

definition Socket_Accept :: "'k sock_api \<Rightarrow> int \<Rightarrow> 'k \<Rightarrow> ((int \<times> InetAddress \<times> accept_errno) \<times> 'k) res" where
  "Socket_Accept api fd k =
     (let ((connfd, peer, e), k1) = sys_accept api fd k in
      if connfd < 0 \<and> e \<notin> {AccAGAIN, AccCONNABORTED, AccPROTO, AccINTR, AccMFILE} then Inl Fatal
      else Inr ((connfd, peer, e), k1))"

definition LocalAddress :: "'k sock_api \<Rightarrow> int \<Rightarrow> 'k \<Rightarrow> InetAddress res" where
  "LocalAddress api fd k = (case sys_getsockname api fd k of None \<Rightarrow> Inl Fatal | Some a \<Rightarrow> Inr a)"

definition PeerAddress :: "'k sock_api \<Rightarrow> int \<Rightarrow> 'k \<Rightarrow> InetAddress res" where
  "PeerAddress api fd k = (case sys_getpeername api fd k of None \<Rightarrow> Inl Fatal | Some a \<Rightarrow> Inr a)"

definition IsSelfConnect :: "'k sock_api \<Rightarrow> int \<Rightarrow> 'k \<Rightarrow> bool res" where
  "IsSelfConnect api fd k =
     rbind (LocalAddress api fd k) (\<lambda>a. rbind (PeerAddress api fd k) (\<lambda>b.
       Inr (sin_addr a = sin_addr b \<and> sin_port a = sin_port b)))"

text \<open>The setters only log an error.\<close>

definition SetOption :: "'k sock_api \<Rightarrow> sockopt \<Rightarrow> int \<Rightarrow> bool \<Rightarrow> 'k \<Rightarrow> 'k" where
  "SetOption api opt fd on k = snd (sys_setsockopt api fd opt (if on then 1 else 0) k)"

definition ShutdownWrite :: "'k sock_api \<Rightarrow> int \<Rightarrow> 'k \<Rightarrow> 'k" where
  "ShutdownWrite api fd k = snd (sys_shutdown api fd k)"

definition ErrorCode :: "'k sock_api \<Rightarrow> int \<Rightarrow> 'k \<Rightarrow> int" where
  "ErrorCode api fd k = (case sys_getsockopt_error api fd k of None \<Rightarrow> 0 | Some e \<Rightarrow> e)"

section \<open>What the system calls promise\<close>

text \<open>
  \<open>opened\<close> is the set of open descriptors, which are not negative.  New descriptors are non-negative and were not open;
  closing an open descriptor succeeds and closing one that is not open returns -1; the other calls
  leave the descriptors alone.
\<close>

definition new_fd_spec :: "('k \<Rightarrow> int set) \<Rightarrow> ('k \<Rightarrow> int \<times> 'k) \<Rightarrow> bool" where
  "new_fd_spec opened call \<longleftrightarrow> (\<forall>k fd k1. call k = (fd, k1) \<longrightarrow>
     (if fd < 0 then opened k1 = opened k else fd \<notin> opened k \<and> opened k1 = insert fd (opened k)))"

definition close_spec :: "('k \<Rightarrow> int set) \<Rightarrow> (int \<Rightarrow> 'k \<Rightarrow> int \<times> 'k) \<Rightarrow> bool" where
  "close_spec opened call \<longleftrightarrow> (\<forall>fd k ret k1. call fd k = (ret, k1) \<longrightarrow>
     opened k1 = opened k - {fd} \<and> (ret = (if fd \<in> opened k then 0 else - 1)))"

definition same_fds :: "('k \<Rightarrow> int set) \<Rightarrow> ('k \<Rightarrow> 'b \<times> 'k) \<Rightarrow> bool" where
  "same_fds opened call \<longleftrightarrow> (\<forall>k. opened (snd (call k)) = opened k)"

definition sock_spec :: "('k \<Rightarrow> int set) \<Rightarrow> 'k sock_api \<Rightarrow> bool" where
  "sock_spec opened api \<longleftrightarrow> (\<forall>k. opened k \<subseteq> {0..}) \<and>
     new_fd_spec opened (sys_socket api) \<and> new_fd_spec opened (sys_open_null api) \<and>
     (\<forall>fd. new_fd_spec opened (\<lambda>k. let ((c, _), k1) = sys_accept api fd k in (c, k1))) \<and>
     close_spec opened (sys_close api) \<and>
     (\<forall>fd a. same_fds opened (sys_connect api fd a)) \<and> (\<forall>fd a. same_fds opened (sys_bind api fd a)) \<and>
     (\<forall>fd. same_fds opened (sys_listen api fd)) \<and> (\<forall>fd. same_fds opened (sys_shutdown api fd)) \<and>
     (\<forall>fd opt v. same_fds opened (sys_setsockopt api fd opt v))"

lemma opened_nonneg: "sock_spec opened api \<Longrightarrow> fd \<in> opened k \<Longrightarrow> 0 \<le> fd"
proof -
  assume "sock_spec opened api" "fd \<in> opened k"
  moreover from this(1) have "opened k \<subseteq> {0..}" by (simp add: sock_spec_def)
  ultimately show ?thesis by auto
qed

lemma new_fd_cases:
  "new_fd_spec opened call \<Longrightarrow> call k = (fd, k1) \<Longrightarrow>
    if fd < 0 then opened k1 = opened k else fd \<notin> opened k \<and> opened k1 = insert fd (opened k)"
  unfolding new_fd_spec_def by blast

lemma CreateSocketFd_ok:
  assumes "sock_spec opened api" "CreateSocketFd api k = Inr (fd, k1)"
  shows "0 \<le> fd" "fd \<notin> opened k" "opened k1 = insert fd (opened k)"
proof -
  have "new_fd_spec opened (sys_socket api)" using assms(1) by (simp add: sock_spec_def)
  moreover have c: "sys_socket api k = (fd, k1)" and fd: "\<not> fd < 0"
    using assms(2) by (auto simp: CreateSocketFd_def split: prod.splits if_splits)
  ultimately have "fd \<notin> opened k \<and> opened k1 = insert fd (opened k)"
    using new_fd_cases [of opened "sys_socket api" k fd k1] by simp
  with fd show "0 \<le> fd" "fd \<notin> opened k" "opened k1 = insert fd (opened k)" by simp_all
qed

lemma sys_close_cases:
  "sock_spec opened api \<Longrightarrow> sys_close api fd k = (ret, k1) \<Longrightarrow>
    opened k1 = opened k - {fd} \<and> ret = (if fd \<in> opened k then 0 else - 1)"
  unfolding sock_spec_def close_spec_def by blast

lemma CloseFd_ok:
  assumes "sock_spec opened api" "fd \<in> opened k"
  shows "\<exists>k1. CloseFd api fd k = Inr k1 \<and> sys_close api fd k = (0, k1) \<and> opened k1 = opened k - {fd}"
  using assms by (cases "sys_close api fd k") (auto simp: CloseFd_def dest: sys_close_cases)

lemma CloseFd_fatal:
  assumes "sock_spec opened api" "fd \<notin> opened k"
  shows "CloseFd api fd k = Inl Fatal"
  using assms by (cases "sys_close api fd k") (auto simp: CloseFd_def dest: sys_close_cases)

section \<open>Properties\<close>

text \<open>
  The text of an address loses nothing: \<^verbatim>\<open>ToString\<close> with the port never exceeds its block of
  32 bytes, is the dotted address, a colon and the port in host order, and two addresses with the
  same text have the same address and port; a name \<^verbatim>\<open>peer#n\<close> of a connection determines both the
  peer and the number.
\<close>

theorem ToString_inject:
  "ToString True a = inet_ntop (sin_addr a) @ CHR 0x3A # nat_digits (unat (htobe16 (sin_port a))) \<and>
    length (ToString True a) < 32 \<and>
    (ToString True a = ToString True b \<longleftrightarrow> sin_addr a = sin_addr b \<and> sin_port a = sin_port b) \<and>
    (ToString True a @ CHR 0x23 # nat_digits m = ToString True b @ CHR 0x23 # nat_digits n \<longleftrightarrow>
      sin_addr a = sin_addr b \<and> sin_port a = sin_port b \<and> m = n)"
proof -
  have inj: "sin_addr a = sin_addr b \<and> sin_port a = sin_port b" if "ToString True a = ToString True b"
  proof -
    note p = split_at [OF inet_ntop_no_colon(1) inet_ntop_no_colon(1) that [unfolded ToString_port]]
    then have "htobe16 (sin_port a) = htobe16 (sin_port b)"
      using nat_digits_inject by (auto simp: word_unat_eq_iff)
    then have "sin_port a = sin_port b" by (metis htobe16_htobe16)
    with p inet_ntop_inject show ?thesis by blast
  qed
  have eq: "ToString True a = ToString True b" if "sin_addr a = sin_addr b" "sin_port a = sin_port b"
    using that by (simp add: ToString_port)
  have "length (ToString True a) < 32"
    using inet_ntop_length [of "sin_addr a"] port_digits [of "htobe16 (sin_port a)"] by (simp add: ToString_port)
  moreover have "ToString True a = ToString True b \<longleftrightarrow> sin_addr a = sin_addr b \<and> sin_port a = sin_port b"
    using inj eq by blast
  moreover have "ToString True a @ CHR 0x23 # nat_digits m = ToString True b @ CHR 0x23 # nat_digits n \<longleftrightarrow>
      ToString True a = ToString True b \<and> m = n"
    using hash_name_inject by blast
  ultimately show ?thesis using ToString_port [of a] by simp
qed

end
