(* ===== verification/Connectors.thy ===== *)
theory Connectors
  imports Channels Sockets
begin

text \<open>
  The connector: \<^verbatim>\<open>src/net/Connector.h\<close> and \<^verbatim>\<open>src/net/Connector.cc\<close>.  It owns a socket and a
  channel in the poller of its loop (theory \<open>Channels\<close>) and waits for the socket to become writable;
  a failed attempt is repeated after a delay.
\<close>

section \<open>State\<close>

datatype connector_task = TaskStart | TaskStop

text \<open>
  \<open>cp\<close> is the poller of the loop, with the heap of channels and the kernel.  \<open>timerIdx\<close> names the timer
  of the next attempt; \<open>armed\<close> are the timers that this connector has in the loop, with their delays.
  \<open>delays\<close> logs the delays since the last (re)start, \<open>handed\<close> the sockets given to the callback,
  \<open>started\<close> says that \<^verbatim>\<open>Start\<close> was called, \<open>ctasks\<close> are the functors waiting in the loop.
\<close>

record ('cb, 'k) Connector =
  cp :: "('cb, 'k) Poller"
  csocket :: "int option"
  socketChannel :: "nat option"
  serverAddr :: InetAddress
  connecting :: bool
  retryDelay :: int
  cstop :: bool
  timerIdx :: "nat option"
  hasCallback :: bool
  armed :: "(nat \<times> int) list"
  nextTimer :: nat
  delays :: "int list"
  handed :: "int list"
  started :: bool
  ctasks :: "connector_task list"

definition kInitRetryDelay :: int where "kInitRetryDelay = 1"

definition kMaxRetryDelay :: int where "kMaxRetryDelay = 30"

definition Connector_new :: "('cb, 'k) Poller \<Rightarrow> InetAddress \<Rightarrow> bool \<Rightarrow> ('cb, 'k) Connector" where
  "Connector_new p addr cb =
     \<lparr>cp = p, csocket = None, socketChannel = None, serverAddr = addr, connecting = False,
      retryDelay = kInitRetryDelay, cstop = False, timerIdx = None, hasCallback = cb,
      armed = [], nextTimer = 0, delays = [], handed = [], started = False, ctasks = []\<rparr>"

text \<open>The system: \<^verbatim>\<open>epoll_ctl\<close>, the socket calls and the callback that the channel is given.\<close>

record ('cb, 'k) conn_sys =
  ctl :: "'k epoll_ctl"
  api :: "'k sock_api"
  on_write :: 'cb

definition set_kernel :: "'k \<Rightarrow> ('cb, 'k) Connector \<Rightarrow> ('cb, 'k) Connector" where
  "set_kernel k s = s\<lparr>cp := (cp s)\<lparr>kernel := k\<rparr>\<rparr>"

section \<open>Operations\<close>

text \<open>\<^verbatim>\<open>reset\<close> of the two unique pointers: the old object is destroyed.\<close>

definition reset_socket :: "('cb, 'k) conn_sys \<Rightarrow> int option \<Rightarrow> ('cb, 'k) Connector \<Rightarrow> ('cb, 'k) Connector res" where
  "reset_socket sys x s =
     (case csocket s of
        None \<Rightarrow> Inr (s\<lparr>csocket := x\<rparr>)
      | Some fd \<Rightarrow> rbind (CloseFd (api sys) fd (kernel (cp s))) (\<lambda>k. Inr ((set_kernel k s)\<lparr>csocket := x\<rparr>)))"

definition reset_channel :: "nat option \<Rightarrow> ('cb, 'k) Connector \<Rightarrow> ('cb, 'k) Connector res" where
  "reset_channel x s =
     (case socketChannel s of
        None \<Rightarrow> Inr (s\<lparr>socketChannel := x\<rparr>)
      | Some a \<Rightarrow> rbind (Channel_destroy a (cp s)) (\<lambda>p. Inr (s\<lparr>cp := p, socketChannel := x\<rparr>)))"

definition RegisterForConnecting :: "('cb, 'k) conn_sys \<Rightarrow> bool \<Rightarrow> ('cb, 'k) Connector \<Rightarrow> ('cb, 'k) Connector res" where
  "RegisterForConnecting sys inLoop s =
     ensure (csocket s \<noteq> None)
       (case socketChannel s of
          None \<Rightarrow> Inl Assertion
        | Some a \<Rightarrow> deref a (cp s) (\<lambda>c. ensure (\<not> registeredToPoller c)
            (rbind (SetWriteCallback a (on_write sys) (cp s)) (\<lambda>p.
             rbind (change_events (ctl sys) inLoop EnableWriting a p) (\<lambda>p.
               Inr (s\<lparr>cp := p\<rparr>))))))"

definition UnregisterForConnecting :: "('cb, 'k) conn_sys \<Rightarrow> bool \<Rightarrow> ('cb, 'k) Connector \<Rightarrow> ('cb, 'k) Connector res" where
  "UnregisterForConnecting sys inLoop s =
     (case socketChannel s of
        None \<Rightarrow> Inl Assertion
      | Some a \<Rightarrow> deref a (cp s) (\<lambda>c. ensure (registeredToPoller c)
          (rbind (change_events (ctl sys) inLoop DisableWriting a (cp s)) (\<lambda>p.
           rbind (RemoveFromPoller (ctl sys) inLoop a p) (\<lambda>p.
             Inr (s\<lparr>cp := p\<rparr>))))))"

text \<open>The common part of \<^verbatim>\<open>Restart\<close> and \<^verbatim>\<open>StopInLoop\<close>.\<close>

definition leave_connecting :: "('cb, 'k) conn_sys \<Rightarrow> bool \<Rightarrow> ('cb, 'k) Connector \<Rightarrow> ('cb, 'k) Connector res" where
  "leave_connecting sys inLoop s =
     (if connecting s
      then (case socketChannel s of
              None \<Rightarrow> Inl Assertion
            | Some a \<Rightarrow> deref a (cp s) (\<lambda>c. ensure (IsWriting c) (ensure (registeredToPoller c)
                (rbind (UnregisterForConnecting sys inLoop s) (\<lambda>s1. Inr (s1\<lparr>connecting := False\<rparr>))))))
      else Inr s)"

definition CancelRetry :: "('cb, 'k) Connector \<Rightarrow> ('cb, 'k) Connector" where
  "CancelRetry s = s\<lparr>armed := filter (\<lambda>(i, d). Some i \<noteq> timerIdx s) (armed s)\<rparr>"

definition Retry :: "('cb, 'k) Connector \<Rightarrow> ('cb, 'k) Connector" where
  "Retry s =
     (if cstop s then s
      else s\<lparr>timerIdx := Some (nextTimer s), armed := armed s @ [(nextTimer s, retryDelay s)],
             nextTimer := Suc (nextTimer s), delays := delays s @ [retryDelay s],
             retryDelay := (if retryDelay s * 2 > kMaxRetryDelay then kMaxRetryDelay else retryDelay s * 2)\<rparr>)"

text \<open>The cases of the switch over \<^verbatim>\<open>savedErrno\<close>.\<close>

datatype connect_class = Await | Again | GiveUp

fun classify :: "connect_errno \<Rightarrow> connect_class" where
  "classify ConnectOk = Await"
| "classify ConnINPROGRESS = Await"
| "classify ConnINTR = Await"
| "classify ConnISCONN = Await"
| "classify ConnAGAIN = Again"
| "classify ConnNETUNREACH = Again"
| "classify ConnADDRINUSE = Again"
| "classify ConnADDRNOTAVAIL = Again"
| "classify ConnREFUSED = Again"
| "classify ConnOther = GiveUp"

definition after_connect :: "('cb, 'k) conn_sys \<Rightarrow> bool \<Rightarrow> connect_class \<Rightarrow> ('cb, 'k) Connector \<Rightarrow>
    ('cb, 'k) Connector res" where
  "after_connect sys inLoop cl s =
     (case cl of
        Await \<Rightarrow> rbind (RegisterForConnecting sys inLoop s) (\<lambda>s1. Inr (s1\<lparr>connecting := True\<rparr>))
      | Again \<Rightarrow> Inr (Retry s)
      | GiveUp \<Rightarrow> rbind (reset_socket sys None s) (reset_channel None))"

text \<open>\<open>a\<close> is where the new channel is allocated.\<close>

definition StartInLoop :: "('cb, 'k) conn_sys \<Rightarrow> nat \<Rightarrow> bool \<Rightarrow> ('cb, 'k) Connector \<Rightarrow> ('cb, 'k) Connector res" where
  "StartInLoop sys a inLoop s =
     ensure inLoop
       (if cstop s then Inr s
        else
          rbind (CreateSocketFd (api sys) (kernel (cp s))) (\<lambda>(fd, k).
          rbind (reset_socket sys (Some fd) (set_kernel k s)) (\<lambda>s1.
          rbind (case socketChannel s1 of
                   None \<Rightarrow> Inr s1
                 | Some b \<Rightarrow> deref b (cp s1) (\<lambda>c. ensure (\<not> registeredToPoller c) (Inr s1))) (\<lambda>s2.
          rbind (reset_channel (Some a) (s2\<lparr>cp := Channel_create a (loopId (cp s2)) fd (cp s2)\<rparr>)) (\<lambda>s3.
            let (e, k3) = sys_connect (api sys) fd (serverAddr s3) (kernel (cp s3))
            in after_connect sys inLoop (classify e) (set_kernel k3 s3))))))"

definition Connector_Start :: "('cb, 'k) conn_sys \<Rightarrow> nat \<Rightarrow> bool \<Rightarrow> ('cb, 'k) Connector \<Rightarrow> ('cb, 'k) Connector res" where
  "Connector_Start sys a inLoop s =
     (let s1 = s\<lparr>started := True\<rparr> in
      if inLoop then StartInLoop sys a inLoop s1 else Inr (s1\<lparr>ctasks := ctasks s @ [TaskStart]\<rparr>))"

definition Restart :: "('cb, 'k) conn_sys \<Rightarrow> nat \<Rightarrow> bool \<Rightarrow> ('cb, 'k) Connector \<Rightarrow> ('cb, 'k) Connector res" where
  "Restart sys a inLoop s =
     ensure inLoop
       (rbind (leave_connecting sys inLoop s) (\<lambda>s1.
          StartInLoop sys a inLoop
            (CancelRetry (s1\<lparr>retryDelay := kInitRetryDelay, delays := [], cstop := False\<rparr>))))"

definition StopInLoop :: "('cb, 'k) conn_sys \<Rightarrow> bool \<Rightarrow> ('cb, 'k) Connector \<Rightarrow> ('cb, 'k) Connector res" where
  "StopInLoop sys inLoop s =
     rbind (reset_socket sys None s) (\<lambda>s1.
     rbind (leave_connecting sys inLoop s1) (\<lambda>s2.
       reset_channel None (CancelRetry s2)))"

definition Connector_Stop :: "('cb, 'k) conn_sys \<Rightarrow> bool \<Rightarrow> ('cb, 'k) Connector \<Rightarrow> ('cb, 'k) Connector res" where
  "Connector_Stop sys inLoop s =
     (let s1 = s\<lparr>cstop := True\<rparr> in
      if inLoop then StopInLoop sys inLoop s1 else Inr (s1\<lparr>ctasks := ctasks s @ [TaskStop]\<rparr>))"

definition Connector_destroy :: "('cb, 'k) conn_sys \<Rightarrow> bool \<Rightarrow> ('cb, 'k) Connector \<Rightarrow> ('cb, 'k) Connector res" where
  "Connector_destroy sys inLoop s = ensure inLoop (Connector_Stop sys inLoop s)"

text \<open>The callback of the channel: the connection is there or has failed.\<close>

definition Connector_HandleWrite :: "('cb, 'k) conn_sys \<Rightarrow> bool \<Rightarrow> ('cb, 'k) Connector \<Rightarrow> ('cb, 'k) Connector res" where
  "Connector_HandleWrite sys inLoop s =
     rbind (UnregisterForConnecting sys inLoop s) (\<lambda>s1.
       let s2 = s1\<lparr>connecting := False\<rparr> in
       case csocket s2 of
         None \<Rightarrow> Inl Undefined
       | Some fd \<Rightarrow>
           if ErrorCode (api sys) fd (kernel (cp s2)) = 0 then
             rbind (IsSelfConnect (api sys) fd (kernel (cp s2))) (\<lambda>self.
               Inr (if self then Retry s2
                    else if hasCallback s2 then s2\<lparr>csocket := None, handed := handed s2 @ [fd]\<rparr>
                    else s2))
           else Inr (Retry s2))"

text \<open>The loop runs the oldest functor, or a timer of the connector expires.\<close>

definition run_connector_task :: "('cb, 'k) conn_sys \<Rightarrow> nat \<Rightarrow> ('cb, 'k) Connector \<Rightarrow> ('cb, 'k) Connector res" where
  "run_connector_task sys a s =
     (case ctasks s of
        [] \<Rightarrow> Inr s
      | t # ts \<Rightarrow> (case t of TaskStart \<Rightarrow> StartInLoop sys a True (s\<lparr>ctasks := ts\<rparr>)
                       | TaskStop \<Rightarrow> StopInLoop sys True (s\<lparr>ctasks := ts\<rparr>)))"

definition retry_expires :: "('cb, 'k) conn_sys \<Rightarrow> nat \<Rightarrow> ('cb, 'k) Connector \<Rightarrow> ('cb, 'k) Connector res" where
  "retry_expires sys a s =
     (case armed s of [] \<Rightarrow> Inr s | x # xs \<Rightarrow> StartInLoop sys a True (s\<lparr>armed := xs\<rparr>))"

section \<open>What the kernel promises\<close>

text \<open>
  The socket calls and \<^verbatim>\<open>epoll_ctl\<close> together: only open descriptors are watched, closing a descriptor
  drops it from the interest list, and the other calls leave the list alone.
\<close>

definition kernel_spec :: "('k \<Rightarrow> int set) \<Rightarrow> ('k \<Rightarrow> int \<Rightarrow> (32 word \<times> nat) option) \<Rightarrow> ('cb, 'k) conn_sys \<Rightarrow> bool" where
  "kernel_spec opened interest sys \<longleftrightarrow>
     epoll_ctl_spec (ctl sys) interest \<and> sock_spec opened (api sys) \<and>
     (\<forall>k fd. interest k fd \<noteq> None \<longrightarrow> fd \<in> opened k) \<and>
     (\<forall>op fd ev k. opened (snd (ctl sys op fd ev k)) = opened k) \<and>
     (\<forall>fd k. interest (snd (sys_close (api sys) fd k)) = (interest k)(fd := None)) \<and>
     (\<forall>k. interest (snd (sys_socket (api sys) k)) = interest k) \<and>
     (\<forall>fd a k. interest (snd (sys_connect (api sys) fd a k)) = interest k)"

lemma kernel_specD:
  assumes "kernel_spec opened interest sys"
  shows "epoll_ctl_spec (ctl sys) interest" "sock_spec opened (api sys)"
    "interest k fd \<noteq> None \<Longrightarrow> fd \<in> opened k" "opened (snd (ctl sys op fd ev k)) = opened k"
    "interest (snd (sys_close (api sys) fd k)) = (interest k)(fd := None)"
    "interest (snd (sys_socket (api sys) k)) = interest k"
    "interest (snd (sys_connect (api sys) fd adr k)) = interest k"
  using assms unfolding kernel_spec_def by blast+

lemma connect_opened: "kernel_spec opened interest sys \<Longrightarrow> opened (snd (sys_connect (api sys) fd adr k)) = opened k"
  by (drule kernel_specD(2)) (simp add: sock_spec_def same_fds_def)

lemma registry_kernel: "registry interest p \<Longrightarrow> interest k = interest (kernel p) \<Longrightarrow> registry interest (p\<lparr>kernel := k\<rparr>)"
  by (auto simp: registry_def)

text \<open>What changing and removing a channel leave alone.\<close>

lemma change_events_frame:
  assumes "change_events cl inLoop m a p = Inr p'"
  shows "loopId p' = loopId p" "\<And>b. b \<noteq> a \<Longrightarrow> chans p' b = chans p b"
    "\<exists>op fd ev. kernel p' = snd (cl op fd ev (kernel p))"
  using assms
  by (auto simp: change_events_def deref_def RegisterToPoller_def Loop_UpdateChannel_def Poller_UpdateChannel_def
      set_chan_def res_simps Let_def split: option.splits prod.splits if_splits) (metis snd_conv)+

lemma RemoveFromPoller_frame:
  assumes "RemoveFromPoller cl inLoop a p = Inr p'"
  shows "loopId p' = loopId p" "\<And>b. b \<noteq> a \<Longrightarrow> chans p' b = chans p b"
    "\<exists>op fd ev. kernel p' = snd (cl op fd ev (kernel p))"
  using assms
  by (auto simp: RemoveFromPoller_def deref_def Loop_RemoveChannel_def Poller_RemoveChannel_def
      set_chan_def res_simps Let_def split: option.splits prod.splits if_splits) (metis snd_conv)+

section \<open>The socket and its channel\<close>

definition channel_ok :: "('cb, 'k) Connector \<Rightarrow> nat \<Rightarrow> bool" where
  "channel_ok s a \<longleftrightarrow> (\<exists>c. chans (cp s) a = Some c \<and> ownerLoop c = loopId (cp s) \<and>
     registeredToPoller c = connecting s \<and> events c = (if connecting s then kWriteEvent else kNoneEvent) \<and>
     (connecting s \<longrightarrow> csocket s = Some (chFd c)))"

definition conn_ok :: "('k \<Rightarrow> int set) \<Rightarrow> ('k \<Rightarrow> int \<Rightarrow> (32 word \<times> nat) option) \<Rightarrow> ('cb, 'k) Connector \<Rightarrow> bool" where
  "conn_ok opened interest s \<longleftrightarrow> registry interest (cp s) \<and>
     (\<forall>fd. csocket s = Some fd \<longrightarrow> fd \<in> opened (kernel (cp s)) \<and>
        (\<not> connecting s \<longrightarrow> interest (kernel (cp s)) fd = None)) \<and>
     (\<forall>a. socketChannel s = Some a \<longrightarrow> channel_ok s a) \<and>
     (connecting s \<longrightarrow> socketChannel s \<noteq> None)"

lemma conn_okD:
  assumes "conn_ok opened interest s"
  shows "registry interest (cp s)" "csocket s = Some fd \<Longrightarrow> fd \<in> opened (kernel (cp s))"
    "csocket s = Some fd \<Longrightarrow> \<not> connecting s \<Longrightarrow> interest (kernel (cp s)) fd = None"
    "socketChannel s = Some a \<Longrightarrow> channel_ok s a" "connecting s \<Longrightarrow> socketChannel s \<noteq> None"
  using assms by (auto simp: conn_ok_def)

lemma conn_okI:
  assumes "registry interest p" "opened (kernel p) = opened (kernel (cp s))" "csocket s = Some fd"
    "fd \<in> opened (kernel (cp s))" "socketChannel s = Some a" "chans p a = Some c" "ownerLoop c = loopId p"
    "registeredToPoller c = b" "events c = (if b then kWriteEvent else kNoneEvent)" "chFd c = fd"
    "\<not> b \<Longrightarrow> interest (kernel p) fd = None"
  shows "conn_ok opened interest (s\<lparr>cp := p, connecting := b\<rparr>)"
  using assms by (simp add: conn_ok_def channel_ok_def)

text \<open>Leaving the poller always succeeds: the channel is registered and asks for writability only.\<close>

lemma Unregister_ok:
  assumes spec: "kernel_spec opened interest sys" and ok: "conn_ok opened interest s" and con: "connecting s"
  shows "\<exists>p. UnregisterForConnecting sys True s = Inr (s\<lparr>cp := p\<rparr>) \<and>
    conn_ok opened interest (s\<lparr>cp := p, connecting := False\<rparr>) \<and>
    (\<forall>b. chans (cp s) b = None \<longrightarrow> chans p b = None)"
proof -
  note reg = conn_okD(1) [OF ok]
  note es = kernel_specD(1) [OF spec]
  obtain a where a: "socketChannel s = Some a" using conn_okD(5) [OF ok con] by blast
  obtain c where c: "chans (cp s) a = Some c" "ownerLoop c = loopId (cp s)" "registeredToPoller c"
    "events c = kWriteEvent" "csocket s = Some (chFd c)"
    using conn_okD(4) [OF ok a] con by (auto simp: channel_ok_def)
  have m: "apply_mask DisableWriting kWriteEvent = kNoneEvent" by (simp add: mask_defs)
  obtain k1 where ch: "change_events (ctl sys) True DisableWriting a (cp s) = Inr (after_change DisableWriting a c k1 (cp s))"
    using change_events_cases [OF es reg c(1,2), of DisableWriting] c(3) by metis
  let ?p1 = "after_change DisableWriting a c k1 (cp s)"
  let ?c1 = "changed DisableWriting c"
  note reg1 = change_events_registry [OF es reg c(1,2) ch]
  have c1: "chans ?p1 a = Some ?c1" "ownerLoop ?c1 = loopId ?p1" "registeredToPoller ?c1" "events ?c1 = kNoneEvent"
    "chFd ?c1 = chFd c"
    using c m by (simp_all add: after_change_def changed_def)
  obtain k2 where rm: "RemoveFromPoller (ctl sys) True a ?p1 = Inr (after_remove a ?c1 k2 ?p1)"
    and k2: "interest k2 = (interest (kernel ?p1))(chFd ?c1 := None)"
    using RemoveFromPoller_registered [OF es reg1 c1(1-4)] by blast
  let ?p2 = "after_remove a ?c1 k2 ?p1"
  have "opened (kernel ?p2) = opened (kernel (cp s))"
    using change_events_frame(3) [OF ch] RemoveFromPoller_frame(3) [OF rm] kernel_specD(4) [OF spec] by metis
  then have "conn_ok opened interest (s\<lparr>cp := ?p2, connecting := False\<rparr>)"
    by (intro conn_okI [where c = "?c1\<lparr>registeredToPoller := False\<rparr>" and a = a and fd = "chFd c"]
        after_remove_registry [OF reg1 c1(1,3) k2] conn_okD(2) [OF ok c(5)])
      (use a c(5) c1 k2 in \<open>simp_all add: after_remove_def\<close>)
  moreover have "UnregisterForConnecting sys True s = Inr (s\<lparr>cp := ?p2\<rparr>)"
    using a c ch rm by (simp add: UnregisterForConnecting_def deref_def)
  moreover have "\<forall>b. chans (cp s) b = None \<longrightarrow> chans ?p2 b = None"
    using c(1) by (auto simp: after_remove_def after_change_def)
  ultimately show ?thesis by blast
qed

text \<open>Asking for writability of a fresh socket: the kernel may refuse, which is fatal.\<close>

lemma Register_ok:
  assumes spec: "kernel_spec opened interest sys" and ok: "conn_ok opened interest s" and con: "\<not> connecting s"
    and sock: "csocket s = Some fd" and a: "socketChannel s = Some a"
    and fd: "\<And>c. chans (cp s) a = Some c \<Longrightarrow> chFd c = fd"
  shows "or_fatal (\<lambda>t. \<exists>p. t = s\<lparr>cp := p\<rparr> \<and> conn_ok opened interest (s\<lparr>cp := p, connecting := True\<rparr>))
    (RegisterForConnecting sys True s)"
proof -
  note reg = conn_okD(1) [OF ok]
  note es = kernel_specD(1) [OF spec]
  obtain c where c: "chans (cp s) a = Some c" "ownerLoop c = loopId (cp s)" "\<not> registeredToPoller c"
    "events c = kNoneEvent"
    using conn_okD(4) [OF ok a] con by (auto simp: channel_ok_def)
  let ?c0 = "c\<lparr>writeCallback := Some (on_write sys)\<rparr>"
  let ?p0 = "set_chan a ?c0 (cp s)"
  have reg0: "registry interest ?p0" by (rule registry_set_chan [OF reg c(1)]) simp_all
  have c0: "chans ?p0 a = Some ?c0" "ownerLoop ?c0 = loopId ?p0" using c by (simp_all add: set_chan_def)
  have m: "apply_mask EnableWriting kNoneEvent = kWriteEvent" by (simp add: mask_defs)
  have run: "RegisterForConnecting sys True s =
    rbind (change_events (ctl sys) True EnableWriting a ?p0) (\<lambda>p. Inr (s\<lparr>cp := p\<rparr>))"
    using a c sock by (simp add: RegisterForConnecting_def deref_def SetWriteCallback_def)
  have "change_events (ctl sys) True EnableWriting a ?p0 = Inl Fatal \<or>
      (\<exists>k. change_events (ctl sys) True EnableWriting a ?p0 = Inr (after_change EnableWriting a ?c0 k ?p0))"
    using change_events_cases [OF es reg0 c0, of EnableWriting] by metis
  then show ?thesis
  proof (elim disjE exE)
    fix k
    assume r: "change_events (ctl sys) True EnableWriting a ?p0 = Inr (after_change EnableWriting a ?c0 k ?p0)"
    let ?p1 = "after_change EnableWriting a ?c0 k ?p0"
    have "opened (kernel ?p1) = opened (kernel (cp s))"
      using change_events_frame(3) [OF r] kernel_specD(4) [OF spec] by (auto simp: set_chan_def)
    then have "conn_ok opened interest (s\<lparr>cp := ?p1, connecting := True\<rparr>)"
      by (intro conn_okI [where c = "changed EnableWriting ?c0" and a = a and fd = fd]
          change_events_registry [OF es reg0 c0 r] conn_okD(2) [OF ok sock])
        (use a c m sock fd [OF c(1)] in \<open>simp_all add: after_change_def set_chan_def changed_def\<close>)
    then show ?thesis using r by (auto simp: run)
  qed (simp add: run)
qed

lemma conn_ok_cong:
  "cp t = cp s \<Longrightarrow> csocket t = csocket s \<Longrightarrow> socketChannel t = socketChannel s \<Longrightarrow> connecting t = connecting s \<Longrightarrow>
    conn_ok opened interest t = conn_ok opened interest s"
  by (simp add: conn_ok_def channel_ok_def)

lemma conn_ok_kernel:
  assumes "conn_ok opened interest s" "interest k = interest (kernel (cp s))"
    "\<And>fd. csocket s = Some fd \<Longrightarrow> fd \<in> opened k"
  shows "conn_ok opened interest (set_kernel k s)"
  using assms registry_kernel [OF conn_okD(1) [OF assms(1)] assms(2)]
  by (auto simp: conn_ok_def channel_ok_def set_kernel_def)

lemma set_kernel_fields [simp]:
  "csocket (set_kernel k s) = csocket s" "socketChannel (set_kernel k s) = socketChannel s"
  "connecting (set_kernel k s) = connecting s" "cstop (set_kernel k s) = cstop s"
  "kernel (cp (set_kernel k s)) = k" "chans (cp (set_kernel k s)) = chans (cp s)"
  "loopId (cp (set_kernel k s)) = loopId (cp s)"
  by (simp_all add: set_kernel_def)

text \<open>Outside of an attempt the socket can be closed and the channel destroyed.\<close>

lemma reset_socket_ok:
  assumes spec: "kernel_spec opened interest sys" and ok: "conn_ok opened interest s" and con: "\<not> connecting s"
    and x: "\<And>fd. x = Some fd \<Longrightarrow> csocket s \<noteq> Some fd \<and> fd \<in> opened (kernel (cp s)) \<and> interest (kernel (cp s)) fd = None"
  shows "\<exists>k. reset_socket sys x s = Inr ((set_kernel k s)\<lparr>csocket := x\<rparr>) \<and>
    conn_ok opened interest ((set_kernel k s)\<lparr>csocket := x\<rparr>) \<and> interest k = interest (kernel (cp s))"
proof (cases "csocket s")
  case None
  then have "reset_socket sys x s = Inr ((set_kernel (kernel (cp s)) s)\<lparr>csocket := x\<rparr>)"
    by (simp add: reset_socket_def set_kernel_def)
  moreover have "conn_ok opened interest ((set_kernel (kernel (cp s)) s)\<lparr>csocket := x\<rparr>)"
    using ok x con by (auto simp: conn_ok_def channel_ok_def set_kernel_def)
  ultimately show ?thesis by blast
next
  case (Some fd)
  obtain k where k: "CloseFd (api sys) fd (kernel (cp s)) = Inr k" "sys_close (api sys) fd (kernel (cp s)) = (0, k)"
    "opened k = opened (kernel (cp s)) - {fd}"
    using CloseFd_ok [OF kernel_specD(2) [OF spec] conn_okD(2) [OF ok Some]] by blast
  have i: "interest k = interest (kernel (cp s))"
    using kernel_specD(5) [OF spec, of fd "kernel (cp s)"] k(2) conn_okD(3) [OF ok Some con] by (auto simp: fun_eq_iff)
  have "conn_ok opened interest ((set_kernel k s)\<lparr>csocket := x\<rparr>)"
    using ok x con i k(3) registry_kernel [OF conn_okD(1) [OF ok] i] Some
    by (auto simp: conn_ok_def channel_ok_def set_kernel_def)
  then show ?thesis using k i Some by (auto simp: reset_socket_def)
qed

lemma destroy_ok:
  assumes ok: "conn_ok opened interest s" and con: "\<not> connecting s" and b: "socketChannel s = Some b"
  shows "Channel_destroy b (cp s) = Inr ((cp s)\<lparr>chans := (chans (cp s))(b := None)\<rparr>)"
    "registry interest ((cp s)\<lparr>chans := (chans (cp s))(b := None)\<rparr>)"
  using conn_okD(4) [OF ok b] con registry_unregistered [OF conn_okD(1) [OF ok], of b None]
  by (auto simp: channel_ok_def Channel_destroy_def deref_def)

lemma reset_channel_ok:
  assumes ok: "conn_ok opened interest s" and con: "\<not> connecting s"
  shows "\<exists>p. reset_channel None s = Inr (s\<lparr>cp := p, socketChannel := None\<rparr>) \<and>
    conn_ok opened interest (s\<lparr>cp := p, socketChannel := None\<rparr>)"
proof (cases "socketChannel s")
  case None
  have "s\<lparr>cp := cp s, socketChannel := None\<rparr> = s" using None by simp
  then show ?thesis using None ok con by (intro exI [of _ "cp s"]) (simp add: reset_channel_def conn_ok_def)
next
  case (Some b)
  with destroy_ok [OF ok con Some] ok con show ?thesis
    by (intro exI [of _ "(cp s)\<lparr>chans := (chans (cp s))(b := None)\<rparr>"]) (simp add: reset_channel_def conn_ok_def)
qed

text \<open>Replacing the channel by a fresh one for the descriptor \<open>fd\<close>.\<close>

lemma new_channel_ok:
  assumes ok: "conn_ok opened interest s" and con: "\<not> connecting s" and fresh: "chans (cp s) a = None"
  shows "\<exists>p. reset_channel (Some a) (s\<lparr>cp := Channel_create a (loopId (cp s)) fd (cp s)\<rparr>) =
      Inr (s\<lparr>cp := p, socketChannel := Some a\<rparr>) \<and>
    conn_ok opened interest (s\<lparr>cp := p, socketChannel := Some a\<rparr>) \<and>
    kernel p = kernel (cp s) \<and> (\<exists>c. chans p a = Some c \<and> chFd c = fd)"
proof -
  let ?c = "Channel_new (loopId (cp s)) fd"
  let ?p = "(cp s)\<lparr>chans := (chans (cp s))(a := Some ?c)\<rparr>"
  have cr: "Channel_create a (loopId (cp s)) fd (cp s) = ?p" by (simp add: Channel_create_def set_chan_def)
  have reg: "registry interest ?p"
    by (rule registry_unregistered [OF conn_okD(1) [OF ok]]) (use fresh in \<open>simp_all add: Channel_new_def\<close>)
  show ?thesis
  proof (cases "socketChannel s")
    case None
    then show ?thesis using ok con reg fresh
      by (intro exI [of _ ?p]) (auto simp: reset_channel_def cr conn_ok_def channel_ok_def Channel_new_def)
  next
    case (Some b)
    obtain d where d: "chans (cp s) b = Some d" "\<not> registeredToPoller d"
      using conn_okD(4) [OF ok Some] con by (auto simp: channel_ok_def)
    then have ab: "a \<noteq> b" using fresh by auto
    let ?q = "?p\<lparr>chans := (chans ?p)(b := None)\<rparr>"
    have "registry interest ?q" by (rule registry_unregistered [OF reg]) (use d ab in simp_all)
    moreover have "Channel_destroy b ?p = Inr ?q" using d ab by (simp add: Channel_destroy_def deref_def)
    ultimately show ?thesis using ok con ab Some
      by (intro exI [of _ ?q]) (simp add: reset_channel_def cr conn_ok_def channel_ok_def Channel_new_def)
  qed
qed

section \<open>An attempt\<close>

text \<open>What the retry logic looks at.\<close>

definition retry_part :: "('cb, 'k) Connector \<Rightarrow>
    (nat \<times> int) list \<times> nat option \<times> nat \<times> int list \<times> int \<times> bool \<times> bool \<times> connector_task list" where
  "retry_part s = (armed s, timerIdx s, nextTimer s, delays s, retryDelay s, cstop s, started s, ctasks s)"

lemma retry_part_simps [simp]:
  "retry_part (s\<lparr>cp := p\<rparr>) = retry_part s" "retry_part (s\<lparr>csocket := x\<rparr>) = retry_part s"
  "retry_part (s\<lparr>socketChannel := y\<rparr>) = retry_part s" "retry_part (s\<lparr>connecting := b\<rparr>) = retry_part s"
  "retry_part (s\<lparr>handed := h\<rparr>) = retry_part s" "retry_part (set_kernel k s) = retry_part s"
  by (simp_all add: retry_part_def set_kernel_def)

lemma Retry_frame [simp]:
  "cp (Retry s) = cp s" "csocket (Retry s) = csocket s" "socketChannel (Retry s) = socketChannel s"
  "connecting (Retry s) = connecting s"
  by (simp_all add: Retry_def)

lemma Retry_cong: "retry_part s = retry_part t \<Longrightarrow> retry_part (Retry s) = retry_part (Retry t)"
  by (simp add: retry_part_def Retry_def)

lemma Retry_ok [simp]: "conn_ok opened interest (Retry s) = conn_ok opened interest s"
  by (rule conn_ok_cong) simp_all

text \<open>The three outcomes of an attempt.\<close>

definition attempted :: "('cb, 'k) Connector \<Rightarrow> ('cb, 'k) Connector \<Rightarrow> bool" where
  "attempted s t \<longleftrightarrow> (if connecting t then retry_part t = retry_part s
     else retry_part t = retry_part (Retry s) \<or>
       (retry_part t = retry_part s \<and> csocket t = None \<and> socketChannel t = None))"

lemma after_connect_ok:
  assumes spec: "kernel_spec opened interest sys" and ok: "conn_ok opened interest s" and con: "\<not> connecting s"
    and s: "csocket s = Some fd" "socketChannel s = Some a" "\<And>c. chans (cp s) a = Some c \<Longrightarrow> chFd c = fd"
  shows "or_fatal (\<lambda>t. conn_ok opened interest t \<and> attempted s t) (after_connect sys True cl s)"
proof (cases cl)
  case Await
  then show ?thesis using Register_ok [OF spec ok con s]
    by (auto simp: after_connect_def attempted_def intro!: or_fatal_rbind)
next
  case Again
  then show ?thesis using ok con by (simp add: after_connect_def attempted_def)
next
  case GiveUp
  obtain k where k: "reset_socket sys None s = Inr ((set_kernel k s)\<lparr>csocket := None\<rparr>)"
    "conn_ok opened interest ((set_kernel k s)\<lparr>csocket := None\<rparr>)"
    using reset_socket_ok [OF spec ok con, of None] by auto
  from reset_channel_ok [OF k(2)] con k(1) GiveUp show ?thesis
    by (auto simp: after_connect_def attempted_def)
qed

lemma StartInLoop_ok:
  assumes spec: "kernel_spec opened interest sys" and ok: "conn_ok opened interest s" and con: "\<not> connecting s"
    and fresh: "chans (cp s) a = None"
  shows "or_fatal (\<lambda>t. conn_ok opened interest t \<and> (if cstop s then t = s else attempted s t))
    (StartInLoop sys a True s)"
proof (cases "cstop s \<or> CreateSocketFd (api sys) (kernel (cp s)) = Inl Fatal")
  case True
  then show ?thesis using ok by (auto simp: StartInLoop_def)
next
  case False
  note api_spec = kernel_specD(2) [OF spec]
  obtain fd k where cr: "CreateSocketFd (api sys) (kernel (cp s)) = Inr (fd, k)"
    using False by (auto simp: CreateSocketFd_def Let_def split: prod.splits if_splits)
  note o = CreateSocketFd_ok [OF api_spec cr]
  have "sys_socket (api sys) (kernel (cp s)) = (fd, k)"
    using cr by (auto simp: CreateSocketFd_def Let_def split: prod.splits if_splits)
  then have i: "interest k = interest (kernel (cp s))" using kernel_specD(6) [OF spec, of "kernel (cp s)"] by simp
  have ifd: "interest (kernel (cp s)) fd = None" using kernel_specD(3) [OF spec] o(2) by blast
  have ok0: "conn_ok opened interest (set_kernel k s)"
    by (rule conn_ok_kernel [OF ok i]) (use conn_okD(2) [OF ok] o(3) in auto)
  have "csocket s \<noteq> Some fd" using conn_okD(2) [OF ok] o(2) by blast
  then obtain k1 where k1: "reset_socket sys (Some fd) (set_kernel k s) =
      Inr ((set_kernel k1 (set_kernel k s))\<lparr>csocket := Some fd\<rparr>)"
    and ok1: "conn_ok opened interest ((set_kernel k1 (set_kernel k s))\<lparr>csocket := Some fd\<rparr>)"
    using reset_socket_ok [OF spec ok0, of "Some fd"] con o(3) i ifd by auto
  define s1 where "s1 = (set_kernel k1 (set_kernel k s))\<lparr>csocket := Some fd\<rparr>"
  have s1: "conn_ok opened interest s1" "\<not> connecting s1" "chans (cp s1) a = None"
    "csocket s1 = Some fd" "retry_part s1 = retry_part s"
    using ok1 con fresh by (simp_all add: s1_def)
  have check: "(case socketChannel s1 of None \<Rightarrow> Inr s1
      | Some b \<Rightarrow> deref b (cp s1) (\<lambda>c. ensure (\<not> registeredToPoller c) (Inr s1))) = Inr s1"
    using conn_okD(4) [OF s1(1)] s1(2) by (auto simp: channel_ok_def deref_def split: option.split)
  obtain p c where p: "reset_channel (Some a) (s1\<lparr>cp := Channel_create a (loopId (cp s1)) fd (cp s1)\<rparr>) =
      Inr (s1\<lparr>cp := p, socketChannel := Some a\<rparr>)"
    "conn_ok opened interest (s1\<lparr>cp := p, socketChannel := Some a\<rparr>)"
    and c: "chans p a = Some c" "chFd c = fd"
    using new_channel_ok [OF s1(1-3), of fd] by blast
  obtain e k3 where e: "sys_connect (api sys) fd (serverAddr s1) (kernel p) = (e, k3)" by fastforce
  let ?s3 = "s1\<lparr>cp := p, socketChannel := Some a\<rparr>"
  have ok3: "conn_ok opened interest (set_kernel k3 ?s3)"
  proof (rule conn_ok_kernel [OF p(2)])
    show "interest k3 = interest (kernel (cp ?s3))"
      using kernel_specD(7) [OF spec, of fd "serverAddr s1" "kernel p"] e by simp
    show "\<And>fd. csocket ?s3 = Some fd \<Longrightarrow> fd \<in> opened k3"
      using conn_okD(2) [OF p(2)] connect_opened [OF spec, of fd "serverAddr s1" "kernel p"] e by simp
  qed
  have run: "StartInLoop sys a True s = after_connect sys True (classify e) (set_kernel k3 ?s3)"
    using False cr k1 check p(1) e by (simp add: StartInLoop_def s1_def [symmetric] Let_def)
  have "or_fatal (\<lambda>t. conn_ok opened interest t \<and> attempted (set_kernel k3 ?s3) t)
      (after_connect sys True (classify e) (set_kernel k3 ?s3))"
    by (rule after_connect_ok [OF spec ok3, of fd a]) (use s1 c in \<open>auto dest: sym\<close>)
  moreover have "retry_part (Retry (set_kernel k3 ?s3)) = retry_part (Retry s)"
    by (rule Retry_cong) (use s1(5) in simp)
  ultimately show ?thesis using False s1(5) by (auto simp: run attempted_def or_fatal_def)
qed

section \<open>Steps\<close>

text \<open>
  \<^verbatim>\<open>Start\<close> is called once, from any thread; \<^verbatim>\<open>Restart\<close> by the loop, after the connection that
  \<^verbatim>\<open>Start\<close> made was lost; \<^verbatim>\<open>Stop\<close> at any time; the loop runs the functors, the retry timers and the
  callback of the channel; the other components of the loop use the poller.  New channels are
  allocated at free addresses.
\<close>

inductive connector_step :: "('k \<Rightarrow> int set) \<Rightarrow> ('k \<Rightarrow> int \<Rightarrow> (32 word \<times> nat) option) \<Rightarrow> ('cb, 'k) conn_sys \<Rightarrow>
    ('cb, 'k) Connector \<Rightarrow> ('cb, 'k) Connector \<Rightarrow> bool" for opened interest sys where
  start: "\<not> started s \<Longrightarrow> chans (cp s) a = None \<Longrightarrow> Connector_Start sys a inLoop s = Inr t \<Longrightarrow>
    connector_step opened interest sys s t"
| restart: "started s \<Longrightarrow> TaskStart \<notin> set (ctasks s) \<Longrightarrow> chans (cp s) a = None \<Longrightarrow> Restart sys a True s = Inr t \<Longrightarrow>
    connector_step opened interest sys s t"
| stop: "Connector_Stop sys inLoop s = Inr t \<Longrightarrow> connector_step opened interest sys s t"
| task: "chans (cp s) a = None \<Longrightarrow> run_connector_task sys a s = Inr t \<Longrightarrow> connector_step opened interest sys s t"
| expire: "chans (cp s) a = None \<Longrightarrow> retry_expires sys a s = Inr t \<Longrightarrow> connector_step opened interest sys s t"
| writable: "connecting s \<Longrightarrow> Connector_HandleWrite sys True s = Inr t \<Longrightarrow> connector_step opened interest sys s t"
| others: "conn_ok opened interest (s\<lparr>cp := p\<rparr>) \<Longrightarrow> connector_step opened interest sys s (s\<lparr>cp := p\<rparr>)"

section \<open>The invariant\<close>

definition backoff :: "nat \<Rightarrow> int" where
  "backoff i = min (2 ^ i) kMaxRetryDelay"

definition quiet :: "('cb, 'k) Connector \<Rightarrow> bool" where
  "quiet s \<longleftrightarrow> armed s = [] \<and> \<not> connecting s"

definition retry_ok :: "('cb, 'k) Connector \<Rightarrow> bool" where
  "retry_ok s \<longleftrightarrow>
     (armed s = [] \<or> (\<exists>i d. armed s = [(i, d)] \<and> timerIdx s = Some i)) \<and>
     (connecting s \<longrightarrow> armed s = []) \<and>
     (\<not> started s \<longrightarrow> TaskStart \<notin> set (ctasks s)) \<and>
     (\<not> started s \<or> TaskStart \<in> set (ctasks s) \<longrightarrow> quiet s) \<and>
     count_list (ctasks s) TaskStart \<le> 1 \<and>
     (cstop s \<and> TaskStop \<notin> set (ctasks s) \<longrightarrow> quiet s \<and> csocket s = None \<and> socketChannel s = None) \<and>
     delays s = map backoff [0..<length (delays s)] \<and> retryDelay s = backoff (length (delays s))"

lemma backoff_double: "(if backoff n * 2 > kMaxRetryDelay then kMaxRetryDelay else backoff n * 2) = backoff (Suc n)"
  by (auto simp: backoff_def kMaxRetryDelay_def min_def)

lemma Retry_retry_part:
  assumes "\<not> cstop s"
  shows "armed (Retry s) = armed s @ [(nextTimer s, retryDelay s)]" "timerIdx (Retry s) = Some (nextTimer s)"
    "delays (Retry s) = delays s @ [retryDelay s]"
    "retryDelay s = backoff n \<Longrightarrow> retryDelay (Retry s) = backoff (Suc n)"
  using assms backoff_double [of n] by (auto simp: Retry_def split: if_splits)

lemma Retry_other [simp]:
  "cstop (Retry s) = cstop s" "started (Retry s) = started s" "ctasks (Retry s) = ctasks s"
  by (simp_all add: Retry_def)

lemma Retry_stopped: "cstop s \<Longrightarrow> Retry s = s"
  by (simp add: Retry_def)

text \<open>Retrying, when no timer is armed and no attempt is running.\<close>

lemma Retry_retry_ok:
  assumes ok: "retry_ok s" and q: "armed s = []" "\<not> connecting s" "started s" "TaskStart \<notin> set (ctasks s)"
  shows "retry_ok (Retry s)"
proof (cases "cstop s")
  case False
  note r = Retry_retry_part [OF False]
  have "retryDelay s = backoff (length (delays s))" "delays s = map backoff [0..<length (delays s)]"
    "count_list (ctasks s) TaskStart \<le> 1"
    using ok by (auto simp: retry_ok_def)
  then show ?thesis using q r(1-3) r(4) [of "length (delays s)"] False by (simp add: retry_ok_def)
qed (use ok in \<open>simp add: Retry_stopped\<close>)

lemma retry_ok_part:
  assumes p: "retry_part t = retry_part s" and ok: "retry_ok s"
    and "connecting t \<longrightarrow> armed s = [] \<and> started s \<and> TaskStart \<notin> set (ctasks s) \<and> (cstop s \<longrightarrow> TaskStop \<in> set (ctasks s))"
    and "cstop s \<and> TaskStop \<notin> set (ctasks s) \<longrightarrow> csocket t = None \<and> socketChannel t = None"
  shows "retry_ok t"
proof -
  have f: "armed t = armed s" "timerIdx t = timerIdx s" "delays t = delays s" "retryDelay t = retryDelay s"
    "cstop t = cstop s" "started t = started s" "ctasks t = ctasks s"
    using p by (auto simp: retry_part_def)
  show ?thesis using ok assms(3,4) unfolding retry_ok_def quiet_def f by auto
qed

lemma attempted_retry_ok:
  assumes at: "attempted s t" and ok: "retry_ok s" and q: "armed s = []" "\<not> connecting s" "started s"
    "TaskStart \<notin> set (ctasks s)" "\<not> cstop s"
  shows "retry_ok t"
proof -
  have "retry_part t = retry_part s \<or> (retry_part t = retry_part (Retry s) \<and> \<not> connecting t)"
    using at by (auto simp: attempted_def split: if_splits)
  then show ?thesis
  proof
    assume "retry_part t = retry_part s"
    then show ?thesis by (rule retry_ok_part [OF _ ok]) (use q in auto)
  next
    assume "retry_part t = retry_part (Retry s) \<and> \<not> connecting t"
    then show ?thesis by (intro retry_ok_part [OF _ Retry_retry_ok [OF ok q(1-4)]]) (use q in auto)
  qed
qed

definition connector_inv :: "('k \<Rightarrow> int set) \<Rightarrow> ('k \<Rightarrow> int \<Rightarrow> (32 word \<times> nat) option) \<Rightarrow> ('cb, 'k) Connector \<Rightarrow> bool" where
  "connector_inv opened interest s \<longleftrightarrow> conn_ok opened interest s \<and> retry_ok s"

text \<open>Attempts are made when no other is running and no timer is armed.\<close>

lemma StartInLoop_inv:
  assumes spec: "kernel_spec opened interest sys" and i: "connector_inv opened interest s"
    and q: "quiet s" "started s" "TaskStart \<notin> set (ctasks s)" and fresh: "chans (cp s) a = None"
  shows "or_fatal (connector_inv opened interest) (StartInLoop sys a True s)"
  using StartInLoop_ok [OF spec _ _ fresh] i q attempted_retry_ok [of s]
  by (auto simp: connector_inv_def quiet_def elim!: or_fatal_mono split: if_splits)

lemma leave_connecting_ok:
  assumes spec: "kernel_spec opened interest sys" and ok: "conn_ok opened interest s"
  shows "\<exists>p. leave_connecting sys True s = Inr (s\<lparr>cp := p, connecting := False\<rparr>) \<and>
    conn_ok opened interest (s\<lparr>cp := p, connecting := False\<rparr>) \<and> (\<forall>b. chans (cp s) b = None \<longrightarrow> chans p b = None)"
proof (cases "connecting s")
  case False
  then have "s\<lparr>cp := cp s, connecting := False\<rparr> = s" by simp
  moreover have "conn_ok opened interest (s\<lparr>connecting := False\<rparr>)"
    using False ok by (simp add: conn_ok_def channel_ok_def)
  ultimately show ?thesis using False by (intro exI [of _ "cp s"]) (simp add: leave_connecting_def)
next
  case True
  obtain a where a: "socketChannel s = Some a" using conn_okD(5) [OF ok True] by blast
  obtain c where "chans (cp s) a = Some c" "registeredToPoller c" "events c = kWriteEvent"
    using conn_okD(4) [OF ok a] True by (auto simp: channel_ok_def)
  with Unregister_ok [OF spec ok True] a True show ?thesis
    by (auto simp: leave_connecting_def deref_def IsWriting_def mask_defs)
qed

lemma CancelRetry_frame [simp]:
  "cp (CancelRetry s) = cp s" "csocket (CancelRetry s) = csocket s" "socketChannel (CancelRetry s) = socketChannel s"
  "connecting (CancelRetry s) = connecting s" "cstop (CancelRetry s) = cstop s" "started (CancelRetry s) = started s"
  "ctasks (CancelRetry s) = ctasks s" "delays (CancelRetry s) = delays s" "retryDelay (CancelRetry s) = retryDelay s"
  by (simp_all add: CancelRetry_def)

lemma CancelRetry_armed:
  "armed s = [] \<or> (\<exists>i d. armed s = [(i, d)] \<and> timerIdx s = Some i) \<Longrightarrow> armed (CancelRetry s) = []"
  by (auto simp: CancelRetry_def)

lemma CancelRetry_ok [simp]: "conn_ok opened interest (CancelRetry s) = conn_ok opened interest s"
  by (rule conn_ok_cong) simp_all

text \<open>
  Stopping outside of an attempt closes everything; stopping during an attempt closes the socket first,
  so that \<^verbatim>\<open>DisableWriting\<close> asks the kernel for a descriptor it has forgotten.
\<close>

lemma StopInLoop_idle:
  assumes spec: "kernel_spec opened interest sys" and ok: "conn_ok opened interest s" and con: "\<not> connecting s"
    and arm: "armed s = [] \<or> (\<exists>i d. armed s = [(i, d)] \<and> timerIdx s = Some i)"
  shows "\<exists>t. StopInLoop sys True s = Inr t \<and> conn_ok opened interest t \<and> retry_part t = retry_part (CancelRetry s) \<and>
    quiet t \<and> csocket t = None \<and> socketChannel t = None"
proof -
  obtain k where k: "reset_socket sys None s = Inr ((set_kernel k s)\<lparr>csocket := None\<rparr>)"
    "conn_ok opened interest ((set_kernel k s)\<lparr>csocket := None\<rparr>)"
    using reset_socket_ok [OF spec ok con, of None] by auto
  let ?s1 = "(set_kernel k s)\<lparr>csocket := None\<rparr>"
  have ok2: "conn_ok opened interest (CancelRetry ?s1)" using k(2) by simp
  obtain p where p: "reset_channel None (CancelRetry ?s1) = Inr ((CancelRetry ?s1)\<lparr>cp := p, socketChannel := None\<rparr>)"
    "conn_ok opened interest ((CancelRetry ?s1)\<lparr>cp := p, socketChannel := None\<rparr>)"
    using reset_channel_ok [OF ok2] con by auto
  have "StopInLoop sys True s = Inr ((CancelRetry ?s1)\<lparr>cp := p, socketChannel := None\<rparr>)"
    using k(1) p(1) con by (simp add: StopInLoop_def leave_connecting_def)
  moreover have "retry_part (CancelRetry ?s1) = retry_part (CancelRetry s)"
    by (simp add: retry_part_def CancelRetry_def set_kernel_def)
  moreover have "armed (CancelRetry ?s1) = []"
    by (rule CancelRetry_armed) (use arm in \<open>simp add: set_kernel_def\<close>)
  ultimately show ?thesis using p(2) con by (simp add: quiet_def)
qed

lemma StopInLoop_connecting:
  assumes spec: "kernel_spec opened interest sys" and ok: "conn_ok opened interest s" and con: "connecting s"
  shows "StopInLoop sys True s = Inl Fatal"
proof -
  obtain a where a: "socketChannel s = Some a" using conn_okD(5) [OF ok con] by blast
  obtain c where c: "chans (cp s) a = Some c" "ownerLoop c = loopId (cp s)" "registeredToPoller c"
    "events c = kWriteEvent" "csocket s = Some (chFd c)"
    using conn_okD(4) [OF ok a] con by (auto simp: channel_ok_def)
  obtain k where k: "CloseFd (api sys) (chFd c) (kernel (cp s)) = Inr k"
    "sys_close (api sys) (chFd c) (kernel (cp s)) = (0, k)"
    using CloseFd_ok [OF kernel_specD(2) [OF spec] conn_okD(2) [OF ok c(5)]] by blast
  have gone: "interest k (chFd c) = None"
    using kernel_specD(5) [OF spec, of "chFd c" "kernel (cp s)"] k(2) by simp
  obtain ret k' where r: "ctl sys CtlMod (chFd c) (0, a) k = (ret, k')" by fastforce
  have "ret = - 1" using ctl_cases [OF kernel_specD(1) [OF spec] r] gone by auto
  then show ?thesis
    using a c k r con
    by (simp add: StopInLoop_def reset_socket_def leave_connecting_def set_kernel_def deref_def IsWriting_def
        UnregisterForConnecting_def change_events_def RegisterToPoller_def Loop_UpdateChannel_def set_chan_def
        Poller_UpdateChannel_def mask_defs Let_def)
qed

lemma retry_ok_quiet:
  assumes ok: "retry_ok s" and t: "quiet t" "delays t = delays s" "retryDelay t = retryDelay s" "started t = started s"
    "\<And>x. x \<in> set (ctasks t) \<Longrightarrow> x = TaskStart \<Longrightarrow> x \<in> set (ctasks s)" "count_list (ctasks t) TaskStart \<le> count_list (ctasks s) TaskStart"
    "csocket t = None" "socketChannel t = None"
  shows "retry_ok t"
  using ok t by (auto simp: retry_ok_def quiet_def)

lemma StopInLoop_inv:
  assumes spec: "kernel_spec opened interest sys" and ok: "conn_ok opened interest s"
    and r: "retry_ok s0" "armed s = armed s0" "timerIdx s = timerIdx s0" "delays s = delays s0"
      "retryDelay s = retryDelay s0" "started s = started s0"
      "\<And>x. x \<in> set (ctasks s) \<Longrightarrow> x = TaskStart \<Longrightarrow> x \<in> set (ctasks s0)"
      "count_list (ctasks s) TaskStart \<le> count_list (ctasks s0) TaskStart"
  shows "or_fatal (connector_inv opened interest) (StopInLoop sys True s)"
proof (cases "connecting s")
  case True
  then show ?thesis using StopInLoop_connecting [OF spec ok] by simp
next
  case False
  have "armed s = [] \<or> (\<exists>i d. armed s = [(i, d)] \<and> timerIdx s = Some i)"
    using r(1-3) by (auto simp: retry_ok_def)
  from StopInLoop_idle [OF spec ok False this] obtain t where t: "StopInLoop sys True s = Inr t"
    "conn_ok opened interest t" "retry_part t = retry_part (CancelRetry s)" "quiet t"
    "csocket t = None" "socketChannel t = None" by blast
  have "retry_ok t"
    by (rule retry_ok_quiet [OF r(1) t(4)]) (use t(3,5,6) r(4-) in \<open>auto simp: retry_part_def\<close>)
  then show ?thesis using t(1,2) by (simp add: connector_inv_def)
qed

lemma IsSelfConnect_fatal: "or_fatal (\<lambda>b. True) (IsSelfConnect ap fd k)"
  by (auto simp: IsSelfConnect_def LocalAddress_def PeerAddress_def or_fatal_def split: option.split)

lemma Connector_HandleWrite_inv:
  assumes spec: "kernel_spec opened interest sys" and i: "connector_inv opened interest s" and con: "connecting s"
  shows "or_fatal (connector_inv opened interest) (Connector_HandleWrite sys True s)"
proof -
  have ok: "conn_ok opened interest s" and ro: "retry_ok s" using i by (auto simp: connector_inv_def)
  obtain p where p: "UnregisterForConnecting sys True s = Inr (s\<lparr>cp := p\<rparr>)"
    "conn_ok opened interest (s\<lparr>cp := p, connecting := False\<rparr>)"
    using Unregister_ok [OF spec ok con] by blast
  obtain fd where fd: "csocket s = Some fd"
    using conn_okD(4,5) [OF ok] con by (auto simp: channel_ok_def)
  let ?s2 = "s\<lparr>cp := p, connecting := False\<rparr>"
  have st: "started s" "TaskStart \<notin> set (ctasks s)" "armed s = []" "\<not> (cstop s \<and> TaskStop \<notin> set (ctasks s))"
    using ro con by (auto simp: retry_ok_def quiet_def)
  have ro2: "retry_ok ?s2" by (rule retry_ok_part [OF _ ro]) (use st in auto)
  have "retry_ok (Retry ?s2)" by (rule Retry_retry_ok [OF ro2]) (use st in auto)
  then have r: "connector_inv opened interest (Retry ?s2)" using p(2) by (simp add: connector_inv_def)
  have n: "connector_inv opened interest ?s2" using p(2) ro2 by (simp add: connector_inv_def)
  have h: "connector_inv opened interest (?s2\<lparr>csocket := None, handed := handed s @ [fd]\<rparr>)"
    using n st(4) by (auto simp: connector_inv_def conn_ok_def channel_ok_def retry_ok_def quiet_def)
  show ?thesis
    using r n h fd p(1) IsSelfConnect_fatal [of "api sys" fd "kernel p"]
    by (auto simp: Connector_HandleWrite_def Let_def intro!: or_fatal_rbind [where P = "\<lambda>b. True"])
qed

lemma Restart_inv:
  assumes spec: "kernel_spec opened interest sys" and i: "connector_inv opened interest s"
    and st: "started s" "TaskStart \<notin> set (ctasks s)" and fresh: "chans (cp s) a = None"
  shows "or_fatal (connector_inv opened interest) (Restart sys a True s)"
proof -
  have ok: "conn_ok opened interest s" and ro: "retry_ok s" using i by (auto simp: connector_inv_def)
  obtain p where p: "leave_connecting sys True s = Inr (s\<lparr>cp := p, connecting := False\<rparr>)"
    "conn_ok opened interest (s\<lparr>cp := p, connecting := False\<rparr>)" and fresh2: "chans p a = None"
    using leave_connecting_ok [OF spec ok] fresh by blast
  let ?s2 = "CancelRetry (s\<lparr>cp := p, connecting := False, retryDelay := kInitRetryDelay, delays := [], cstop := False\<rparr>)"
  have a: "armed ?s2 = []" by (rule CancelRetry_armed) (use ro in \<open>simp add: retry_ok_def\<close>)
  have "conn_ok opened interest ?s2" using p(2) by (simp add: conn_ok_def channel_ok_def)
  moreover have "retry_ok ?s2" using ro st a
    by (simp add: retry_ok_def quiet_def backoff_def kInitRetryDelay_def kMaxRetryDelay_def)
  ultimately have i2: "connector_inv opened interest ?s2" by (simp add: connector_inv_def)
  show ?thesis
    using StartInLoop_inv [OF spec i2, of a] a st p(1) fresh2 by (simp add: Restart_def quiet_def)
qed

lemma run_connector_task_inv:
  assumes spec: "kernel_spec opened interest sys" and i: "connector_inv opened interest s"
    and fresh: "chans (cp s) a = None"
  shows "or_fatal (connector_inv opened interest) (run_connector_task sys a s)"
proof (cases "ctasks s")
  case Nil
  then show ?thesis using i by (simp add: run_connector_task_def)
next
  case (Cons x xs)
  have ok: "conn_ok opened interest (s\<lparr>ctasks := xs\<rparr>)" and ro: "retry_ok s"
    using i by (auto simp: connector_inv_def conn_ok_def channel_ok_def)
  show ?thesis
  proof (cases x)
    case TaskStart
    have n: "TaskStart \<notin> set xs" and q: "quiet s" and st: "started s"
      using ro Cons TaskStart by (simp_all add: retry_ok_def count_list_0_iff)
    then have "connector_inv opened interest (s\<lparr>ctasks := xs\<rparr>)"
      using ok ro Cons TaskStart by (simp add: connector_inv_def retry_ok_def quiet_def)
    then have "or_fatal (connector_inv opened interest) (StartInLoop sys a True (s\<lparr>ctasks := xs\<rparr>))"
      by (rule StartInLoop_inv [OF spec]) (use n q st fresh in \<open>simp_all add: quiet_def\<close>)
    then show ?thesis using Cons TaskStart by (simp add: run_connector_task_def)
  next
    case TaskStop
    then show ?thesis using Cons StopInLoop_inv [OF spec ok ro] by (simp add: run_connector_task_def)
  qed
qed

lemma retry_expires_inv:
  assumes spec: "kernel_spec opened interest sys" and i: "connector_inv opened interest s"
    and fresh: "chans (cp s) a = None"
  shows "or_fatal (connector_inv opened interest) (retry_expires sys a s)"
proof (cases "armed s")
  case Nil
  then show ?thesis using i by (simp add: retry_expires_def)
next
  case (Cons x xs)
  have ro: "retry_ok s" and ok: "conn_ok opened interest (s\<lparr>armed := xs\<rparr>)"
    using i by (auto simp: connector_inv_def conn_ok_def channel_ok_def)
  then have f: "xs = []" "\<not> connecting s" "started s" "TaskStart \<notin> set (ctasks s)" "\<not> (cstop s \<and> TaskStop \<notin> set (ctasks s))"
    using Cons by (auto simp: retry_ok_def quiet_def)
  then have "connector_inv opened interest (s\<lparr>armed := xs\<rparr>)"
    using ok ro by (auto simp: connector_inv_def retry_ok_def quiet_def)
  then show ?thesis
    using StartInLoop_inv [OF spec, of "s\<lparr>armed := xs\<rparr>" a] f fresh Cons
    by (simp add: retry_expires_def quiet_def)
qed

lemma Start_inv:
  assumes spec: "kernel_spec opened interest sys" and i: "connector_inv opened interest s"
    and st: "\<not> started s" and fresh: "chans (cp s) a = None"
  shows "or_fatal (connector_inv opened interest) (Connector_Start sys a inLoop s)"
proof -
  have ok: "conn_ok opened interest s" and ro: "retry_ok s" using i by (auto simp: connector_inv_def)
  have q: "quiet s" "TaskStart \<notin> set (ctasks s)" using ro st by (auto simp: retry_ok_def)
  have 1: "connector_inv opened interest (s\<lparr>started := True\<rparr>)"
    using ok ro by (simp add: connector_inv_def conn_ok_def channel_ok_def retry_ok_def quiet_def)
  have 2: "connector_inv opened interest (s\<lparr>started := True, ctasks := ctasks s @ [TaskStart]\<rparr>)"
    using ok ro q by (auto simp: connector_inv_def conn_ok_def channel_ok_def retry_ok_def quiet_def count_list_0_iff)
  show ?thesis
    using StartInLoop_inv [OF spec 1, of a] q fresh 2 by (cases inLoop) (simp_all add: Connector_Start_def quiet_def)
qed

lemma Stop_inv:
  assumes spec: "kernel_spec opened interest sys" and i: "connector_inv opened interest s"
  shows "or_fatal (connector_inv opened interest) (Connector_Stop sys inLoop s)"
proof (cases inLoop)
  case True
  have "conn_ok opened interest (s\<lparr>cstop := True\<rparr>)" "retry_ok s"
    using i by (auto simp: connector_inv_def conn_ok_def channel_ok_def)
  from StopInLoop_inv [OF spec this] True show ?thesis by (simp add: Connector_Stop_def)
next
  case False
  then show ?thesis using i
    by (auto simp: Connector_Stop_def connector_inv_def conn_ok_def channel_ok_def retry_ok_def quiet_def)
qed

lemma connector_step_inv:
  assumes spec: "kernel_spec opened interest sys" and i: "connector_inv opened interest s"
    and st: "connector_step opened interest sys s t"
  shows "connector_inv opened interest t"
  using st
proof cases
  case (start a inLoop)
  then show ?thesis using or_fatal_Inr [OF Start_inv [OF spec i]] by blast
next
  case (restart a)
  then show ?thesis using or_fatal_Inr [OF Restart_inv [OF spec i]] by blast
next
  case (stop inLoop)
  then show ?thesis using or_fatal_Inr [OF Stop_inv [OF spec i]] by blast
next
  case (task a)
  then show ?thesis using or_fatal_Inr [OF run_connector_task_inv [OF spec i]] by blast
next
  case (expire a)
  then show ?thesis using or_fatal_Inr [OF retry_expires_inv [OF spec i]] by blast
next
  case writable
  then show ?thesis using or_fatal_Inr [OF Connector_HandleWrite_inv [OF spec i]] by blast
next
  case (others p)
  then show ?thesis using i by (simp add: connector_inv_def retry_ok_def quiet_def)
qed

definition connector_init :: "('k \<Rightarrow> int set) \<Rightarrow> ('k \<Rightarrow> int \<Rightarrow> (32 word \<times> nat) option) \<Rightarrow> ('cb, 'k) conn_sys \<Rightarrow>
    ('cb, 'k) Connector \<Rightarrow> bool" where
  "connector_init opened interest sys s \<longleftrightarrow> kernel_spec opened interest sys \<and>
     (\<exists>p addr cb. registry interest p \<and> s = Connector_new p addr cb)"

interpretation connector: invariant "connector_init opened interest sys" "connector_step opened interest sys"
  "\<lambda>s. kernel_spec opened interest sys \<and> connector_inv opened interest s" for opened interest sys
proof unfold_locales
  fix s :: "('b, 'a) Connector" assume "connector_init opened interest sys s"
  then show "kernel_spec opened interest sys \<and> connector_inv opened interest s"
    by (auto simp: connector_init_def connector_inv_def Connector_new_def conn_ok_def retry_ok_def quiet_def
        kInitRetryDelay_def backoff_def kMaxRetryDelay_def)
qed (use connector_step_inv in blast)

section \<open>An example\<close>

text \<open>A kernel with a table of watched descriptors and a list of open ones; \<open>e\<close> is the answer of \<^verbatim>\<open>connect\<close>.\<close>

type_synonym demo_kernel = "table \<times> int list"

definition demo_open :: "demo_kernel \<Rightarrow> int set" where
  "demo_open k = {fd \<in> set (snd k). 0 \<le> fd}"

definition demo_interest :: "demo_kernel \<Rightarrow> int \<Rightarrow> (32 word \<times> nat) option" where
  "demo_interest k fd = (if fd \<in> demo_open k then map_of (fst k) fd else None)"

definition demo_ctl :: "demo_kernel epoll_ctl" where
  "demo_ctl op fd ev k =
     (if fd \<in> demo_open k then let (ret, t) = table_ctl op fd ev (fst k) in (ret, (t, snd k)) else (- 1, k))"

definition demo_fresh :: "demo_kernel \<Rightarrow> int \<times> demo_kernel" where
  "demo_fresh k = (let fd = foldr max (snd k) 2 + 1 in (fd, (filter (\<lambda>p. fst p \<noteq> fd) (fst k), fd # snd k)))"

definition demo_close :: "int \<Rightarrow> demo_kernel \<Rightarrow> int \<times> demo_kernel" where
  "demo_close fd k =
     (if fd \<in> demo_open k then 0 else - 1, (filter (\<lambda>p. fst p \<noteq> fd) (fst k), filter (\<lambda>x. x \<noteq> fd) (snd k)))"

definition demo_api :: "connect_errno \<Rightarrow> demo_kernel sock_api" where
  "demo_api e = \<lparr>sys_socket = demo_fresh, sys_close = demo_close, sys_connect = (\<lambda>fd a k. (e, k)),
     sys_bind = (\<lambda>fd a k. (0, k)), sys_listen = (\<lambda>fd k. (0, k)),
     sys_accept = (\<lambda>fd k. ((- 1, InetAddress_default, AccAGAIN), k)), sys_shutdown = (\<lambda>fd k. (0, k)),
     sys_setsockopt = (\<lambda>fd opt v k. (0, k)), sys_getsockopt_error = (\<lambda>fd k. Some 0),
     sys_getsockname = (\<lambda>fd k. Some (InetAddress_any 80)), sys_getpeername = (\<lambda>fd k. Some (InetAddress_any 81)),
     sys_open_null = demo_fresh\<rparr>"

definition demo_sys :: "connect_errno \<Rightarrow> (nat, demo_kernel) conn_sys" where
  "demo_sys e = \<lparr>ctl = demo_ctl, api = demo_api e, on_write = 1\<rparr>"

lemma foldr_max: "x \<in> set xs \<Longrightarrow> x \<le> foldr max xs (y :: int)" "y \<le> foldr max xs y"
  by (induction xs) (auto simp: le_max_iff_disj)

lemma demo_fresh_spec: "new_fd_spec demo_open demo_fresh"
proof -
  have "foldr max xs 2 + 1 \<notin> set xs" for xs :: "int list" using foldr_max(1) [of _ xs 2] by force
  moreover have "\<not> foldr max xs 2 + 1 < 0" "0 \<le> foldr max xs 2 + 1" for xs :: "int list" using foldr_max(2) [of 2 xs] by linarith+
  ultimately show ?thesis
    by (auto simp: new_fd_spec_def demo_open_def demo_fresh_def Let_def)
qed

lemma demo_sock_spec: "sock_spec demo_open (demo_api e)"
proof -
  have "close_spec demo_open demo_close" by (auto simp: close_spec_def demo_close_def demo_open_def)
  moreover have "new_fd_spec demo_open (\<lambda>k. let ((c, _), k1) = sys_accept (demo_api e) fd k in (c, k1))" for fd
    by (simp add: new_fd_spec_def demo_api_def)
  moreover have "demo_open k \<subseteq> {0..}" for k by (auto simp: demo_open_def)
  ultimately show ?thesis
    using demo_fresh_spec by (simp add: sock_spec_def demo_api_def same_fds_def)
qed

lemma demo_ctl_spec: "epoll_ctl_spec demo_ctl demo_interest"
  unfolding epoll_ctl_spec_def
proof (intro allI impI)
  fix op fd ev k ret k' assume r: "demo_ctl op fd ev k = (ret, k')"
  show "ret = 0 \<and> demo_interest k' = ctl_result op fd ev (demo_interest k) \<and> (demo_interest k fd = None) = (op = CtlAdd) \<or>
      ret = - 1 \<and> demo_interest k' = demo_interest k \<and> (demo_interest k fd \<noteq> None \<longrightarrow> op = CtlAdd)"
  proof (cases "fd \<in> demo_open k")
    case True
    obtain t where t: "table_ctl op fd ev (fst k) = (ret, t)" "k' = (t, snd k)"
      using r True by (auto simp: demo_ctl_def Let_def split: prod.splits)
    show ?thesis using ctl_cases [OF table_ctl_spec t(1)] t(2) True
      by (cases op) (auto simp: demo_interest_def demo_open_def fun_eq_iff)
  qed (use r in \<open>auto simp: demo_ctl_def demo_interest_def\<close>)
qed

lemma map_of_filter_key: "map_of (filter (\<lambda>p. fst p \<noteq> x) m) = (map_of m)(x := None)"
  by (induction m) auto

lemma demo_kernel_spec: "kernel_spec demo_open demo_interest (demo_sys e)"
proof -
  have new: "foldr max xs 2 + 1 \<notin> set xs" for xs :: "int list" using foldr_max(1) [of _ xs 2] by force
  have "demo_interest (snd (demo_fresh k)) = demo_interest k" for k
    using new [of "snd k"] by (auto simp: demo_fresh_def demo_interest_def demo_open_def Let_def map_of_filter_key fun_eq_iff)
  moreover have "demo_open (snd (demo_ctl op fd ev k)) = demo_open k" for op fd ev k
    by (auto simp: demo_ctl_def demo_open_def split: prod.split)
  moreover have "demo_interest (snd (demo_close fd k)) = (demo_interest k)(fd := None)" for fd k
    by (auto simp: demo_close_def demo_interest_def demo_open_def map_of_filter_key fun_eq_iff)
  ultimately show ?thesis
    using demo_sock_spec [of e] demo_ctl_spec
    by (simp add: kernel_spec_def demo_sys_def demo_api_def demo_interest_def demo_open_def)
qed

definition demo_connector :: "(nat, demo_kernel) Connector" where
  "demo_connector = Connector_new
     \<lparr>loopId = 7, chans = (\<lambda>a. None), kernel = ([], []), channels = [], eventListSize = 16\<rparr> (InetAddress_any 80) True"

lemma demo_reach:
  "reach (connector_init demo_open demo_interest (demo_sys e)) (connector_step demo_open demo_interest (demo_sys e)) demo_connector"
  by (rule reach_init)
    (auto simp: connector_init_def demo_kernel_spec demo_connector_def registry_def demo_interest_def map_wf_def
      intro!: exI [of _ "\<lparr>loopId = 7, chans = (\<lambda>a. None), kernel = ([], []), channels = [], eventListSize = 16\<rparr>"])

definition inr_of :: "'a \<Rightarrow> 'a res \<Rightarrow> 'a" where
  "inr_of d m = (case m of Inl e \<Rightarrow> d | Inr x \<Rightarrow> x)"

lemmas connector_eval = Connector_Start_def StartInLoop_def CreateSocketFd_def demo_sys_def demo_api_def demo_fresh_def
  demo_close_def demo_connector_def Connector_new_def set_kernel_def reset_socket_def reset_channel_def
  Channel_create_def Channel_new_def set_chan_def after_connect_def Retry_def kMaxRetryDelay_def
  kInitRetryDelay_def RegisterForConnecting_def SetWriteCallback_def change_events_def deref_def
  RegisterToPoller_def Loop_UpdateChannel_def Poller_UpdateChannel_def demo_ctl_def mask_defs map_set_def
  retry_expires_def CloseFd_def Channel_destroy_def demo_open_def

text \<open>The server refuses twice; an attempt under way.\<close>

definition demo_refused :: "(nat, demo_kernel) Connector" where
  "demo_refused = inr_of demo_connector (rbind (Connector_Start (demo_sys ConnREFUSED) 0 True demo_connector)
     (retry_expires (demo_sys ConnREFUSED) 1))"

definition demo_connecting :: "(nat, demo_kernel) Connector" where
  "demo_connecting = inr_of demo_connector (Connector_Start (demo_sys ConnINPROGRESS) 0 True demo_connector)"

lemma demo_connecting_eq:
  "Connector_Start (demo_sys ConnINPROGRESS) 0 True demo_connector = Inr demo_connecting"
  "connecting demo_connecting" "csocket demo_connecting = Some 3" "armed demo_connecting = []"
  "kernel (cp demo_connecting) = ([(3, (4, 0))], [3])"
  by (simp_all add: demo_connecting_def inr_of_def connector_eval)

lemma demo_refused_eq:
  "rbind (Connector_Start (demo_sys ConnREFUSED) 0 True demo_connector) (retry_expires (demo_sys ConnREFUSED) 1) =
    Inr demo_refused"
  "delays demo_refused = [1, 2]" "armed demo_refused = [(1, 2)]" "\<not> connecting demo_refused"
  by (simp_all add: demo_refused_def inr_of_def connector_eval)

section \<open>Properties\<close>


lemma demo_connecting_reach:
  "reach (connector_init demo_open demo_interest (demo_sys ConnINPROGRESS))
    (connector_step demo_open demo_interest (demo_sys ConnINPROGRESS)) demo_connecting"
  by (rule reach_step [OF demo_reach], rule connector_step.start [OF _ _ demo_connecting_eq(1)])
    (simp_all add: demo_connector_def Connector_new_def)

lemma demo_refused_reach:
  "reach (connector_init demo_open demo_interest (demo_sys ConnREFUSED))
    (connector_step demo_open demo_interest (demo_sys ConnREFUSED)) demo_refused"
proof -
  obtain t where t: "Connector_Start (demo_sys ConnREFUSED) 0 True demo_connector = Inr t"
    "retry_expires (demo_sys ConnREFUSED) 1 t = Inr demo_refused"
    using demo_refused_eq(1) by (auto simp: res_simps)
  have "connector_step demo_open demo_interest (demo_sys ConnREFUSED) demo_connector t"
    by (rule connector_step.start [OF _ _ t(1)]) (simp_all add: demo_connector_def Connector_new_def)
  note r = reach_step [OF demo_reach this]
  have "chans (cp t) 1 = None" using t(1) by (auto simp: connector_eval)
  then have "connector_step demo_open demo_interest (demo_sys ConnREFUSED) t demo_refused"
    by (rule connector_step.expire [OF _ t(2)])
  then show ?thesis by (rule reach_step [OF r])
qed


text \<open>
  Backoff: the delays between the attempts since the last start are 1, 2, 4, 8 and 16 seconds and
  then 30 seconds for ever, in every interleaving; the next one follows the same rule, so that it is
  never above 30 seconds and never below the one before.
\<close>

theorem connector_backoff:
  assumes "reach (connector_init opened interest sys) (connector_step opened interest sys) s"
  shows "delays s = map (\<lambda>i. if i < 5 then 2 ^ i else 30) [0..<length (delays s)] \<and>
    retryDelay s = (if length (delays s) < 5 then 2 ^ length (delays s) else 30) \<and> sorted (delays s)"
proof -
  have b: "backoff i = (if i < 5 then 2 ^ i else 30)" for i
  proof (cases "i < 5")
    case True
    then have "i = 0 \<or> i = 1 \<or> i = 2 \<or> i = 3 \<or> i = 4" by arith
    then show ?thesis by (auto simp: backoff_def kMaxRetryDelay_def)
  next
    case False
    then have "(2::int) ^ 5 \<le> 2 ^ i" by (intro power_increasing) auto
    then show ?thesis using False by (simp add: backoff_def kMaxRetryDelay_def)
  qed
  have d: "delays s = map backoff [0..<length (delays s)]" "retryDelay s = backoff (length (delays s))"
    using connector.reach_inv [OF assms] by (auto simp: connector_inv_def retry_ok_def)
  have "mono backoff" by (intro monoI) (auto simp: backoff_def min_def intro: order_trans [OF power_increasing])
  then have "sorted (map backoff [0..<n])" for n by (simp add: sorted_map sorted_wrt_iff_nth_less monoD)
  then have "sorted (delays s)" using d(1) by metis
  then show ?thesis using d unfolding b by auto
qed

theorem connector_backoff_witness:
  "delays demo_refused = [1, 2] \<and> armed demo_refused = [(1, 2)] \<and> retryDelay demo_refused = 4"
  using connector_backoff [OF demo_refused_reach] demo_refused_eq by simp



end
