(* ===== verification/Servers.thy ===== *)
theory Servers
  imports Sockets Tcp EventLoops "HOL-Library.List_Lexorder" "HOL-Library.Char_ord"
begin

text \<open>
  The passive side: \<^verbatim>\<open>src/net/Acceptor.h\<close>, \<^verbatim>\<open>src/net/Acceptor.cc\<close>, \<^verbatim>\<open>src/net/TcpServer.h\<close> and
  \<^verbatim>\<open>src/net/TcpServer.cc\<close>.  The acceptor owns the listening socket and a channel in the poller; the
  server owns the pool of I/O loops and the list of connections (theory \<open>Tcp\<close>).
\<close>

section \<open>Acceptor\<close>

text \<open>\<open>ap\<close> is the poller of the loop; \<open>given\<close> logs the connections handed to the callback.\<close>

record ('cb, 'k) Acceptor =
  ap :: "('cb, 'k) Poller"
  listening :: bool
  listenFd :: int
  listenChannel :: nat
  placeholderFd :: int
  acceptCallback :: bool
  given :: "(int \<times> InetAddress) list"

definition on_kernel :: "('k \<Rightarrow> 'k res) \<Rightarrow> ('cb, 'k) Poller \<Rightarrow> ('cb, 'k) Poller res" where
  "on_kernel f p = rbind (f (kernel p)) (\<lambda>k. Inr (p\<lparr>kernel := k\<rparr>))"

text \<open>The parameter \<open>reusePort\<close> is not used.  \<open>a\<close> is the address of the channel, \<open>cb\<close> its read callback.\<close>

definition Acceptor_new :: "'k sock_api \<Rightarrow> nat \<Rightarrow> 'cb \<Rightarrow> InetAddress \<Rightarrow> bool \<Rightarrow> ('cb, 'k) Poller \<Rightarrow>
    ('cb, 'k) Acceptor res" where
  "Acceptor_new api a cb addr reusePort p =
     rbind (CreateSocketFd api (kernel p)) (\<lambda>(fd, k1).
       let p1 = Channel_create a (loopId p) fd (p\<lparr>kernel := k1\<rparr>);
           (nullFd, k2) = sys_open_null api (kernel p1);
           k3 = SetOption api ReusePort fd True (SetOption api ReuseAddr fd True k2)
       in rbind (Socket_Bind api fd addr k3) (\<lambda>k4.
          rbind (SetReadCallback a cb (p1\<lparr>kernel := k4\<rparr>)) (\<lambda>p2.
            Inr \<lparr>ap = p2, listening = False, listenFd = fd, listenChannel = a, placeholderFd = nullFd,
                 acceptCallback = False, given = []\<rparr>)))"

definition Acceptor_Listen :: "'k sock_api \<Rightarrow> 'k epoll_ctl \<Rightarrow> bool \<Rightarrow> ('cb, 'k) Acceptor \<Rightarrow> ('cb, 'k) Acceptor res" where
  "Acceptor_Listen api ctl inLoop s =
     ensure inLoop
       (rbind (on_kernel (Socket_Listen api (listenFd s)) (ap s)) (\<lambda>p.
        rbind (change_events ctl inLoop EnableReading (listenChannel s) p) (\<lambda>p.
          Inr (s\<lparr>ap := p, listening := True\<rparr>))))"

definition Acceptor_HandleRead :: "'k sock_api \<Rightarrow> bool \<Rightarrow> ('cb, 'k) Acceptor \<Rightarrow> ('cb, 'k) Acceptor res" where
  "Acceptor_HandleRead api inLoop s =
     ensure inLoop
       (rbind (Socket_Accept api (listenFd s) (kernel (ap s))) (\<lambda>((connfd, peer, e), k).
          let s1 = s\<lparr>ap := (ap s)\<lparr>kernel := k\<rparr>\<rparr> in
          if connfd \<ge> 0 then
            if acceptCallback s1 then Inr (s1\<lparr>given := given s1 @ [(connfd, peer)]\<rparr>)
            else rbind (on_kernel (CloseFd api connfd) (ap s1)) (\<lambda>p. Inr (s1\<lparr>ap := p\<rparr>))
          else if e = AccMFILE then
            rbind (CloseFd api (placeholderFd s1) k) (\<lambda>k2.
              let ((fd, _, _), k3) = sys_accept api (listenFd s1) k2 in
              rbind (CloseFd api fd k3) (\<lambda>k4.
                let (nullFd, k5) = sys_open_null api k4 in
                Inr (s1\<lparr>ap := (ap s1)\<lparr>kernel := k5\<rparr>, placeholderFd := nullFd\<rparr>)))
          else Inr s1))"

text \<open>The destructor, with those of its members.\<close>

definition Acceptor_destroy :: "'k sock_api \<Rightarrow> 'k epoll_ctl \<Rightarrow> bool \<Rightarrow> ('cb, 'k) Acceptor \<Rightarrow> ('cb, 'k) Poller res" where
  "Acceptor_destroy api ctl inLoop s =
     rbind (change_events ctl inLoop DisableAll (listenChannel s) (ap s)) (\<lambda>p.
     rbind (RemoveFromPoller ctl inLoop (listenChannel s) p) (\<lambda>p.
     rbind (on_kernel (CloseFd api (placeholderFd s)) p) (\<lambda>p.
     rbind (Channel_destroy (listenChannel s) p) (on_kernel (CloseFd api (listenFd s))))))"

lemma accept_cases:
  assumes "sock_spec opened api" "sys_accept api fd k = ((c, peer, e), k1)"
  shows "if c < 0 then opened k1 = opened k else c \<notin> opened k \<and> opened k1 = insert c (opened k)"
proof -
  have "new_fd_spec opened (\<lambda>k. let ((c, _), k1) = sys_accept api fd k in (c, k1))"
    using assms(1) by (simp add: sock_spec_def)
  from new_fd_cases [OF this, of k c k1] assms(2) show ?thesis by simp
qed

lemma open_null_cases:
  assumes "sock_spec opened api" "sys_open_null api k = (c, k1)"
  shows "if c < 0 then opened k1 = opened k else c \<notin> opened k \<and> opened k1 = insert c (opened k)"
proof -
  have "new_fd_spec opened (sys_open_null api)" using assms(1) by (simp add: sock_spec_def)
  from new_fd_cases [OF this assms(2)] show ?thesis .
qed

section \<open>'c TcpServer\<close>

text \<open>
  \<open>srvPool\<close> is the pool of I/O loops; \<open>conns\<close> holds the connection objects, numbered by their creation,
  with their name, the index of their I/O loop and their state; \<open>connections\<close> is the server's map.
  \<open>establishing\<close> lists the connections whose \<^verbatim>\<open>ConnectionEstablished\<close> waits in an I/O loop, \<open>removed\<close>
  those that \<^verbatim>\<open>RemoveConnectionInLoop\<close> has taken off the map.
\<close>

record 'c TcpServer =
  srvName :: string
  srvPool :: "nat EventLoopThreadPool"
  srvStarted :: bool
  srvListening :: bool
  connCount :: nat
  connections :: "(string, nat) std_map"
  conns :: "nat \<Rightarrow> (string \<times> nat \<times> 'c TcpConnection) option"
  establishing :: "nat list"
  removed :: "nat set"

text \<open>The main loop is number 0, the I/O loop of thread \<open>i\<close> is number \<open>i + 1\<close>.\<close>

definition TcpServer_new :: "string \<Rightarrow> 'c TcpServer" where
  "TcpServer_new name =
     \<lparr>srvName = name, srvPool = EventLoopThreadPool_new 0, srvStarted = False, srvListening = False,
      connCount = 0, connections = [], conns = (\<lambda>i. None), establishing = [], removed = {}\<rparr>"

text \<open>\<^verbatim>\<open>started_\<close> is tested but never set.\<close>

definition TcpServer_Start :: "bool \<Rightarrow> int \<Rightarrow> bool \<Rightarrow> 'c TcpServer \<Rightarrow> 'c TcpServer res" where
  "TcpServer_Start inLoop numThreads hasCb s =
     ensure inLoop (ensure (numThreads \<ge> 0)
       (if srvStarted s then Inr s
        else rbind (LoopPool_Start Suc inLoop numThreads hasCb (srvPool s)) (\<lambda>p.
          Inr (s\<lparr>srvPool := p, srvListening := True\<rparr>))))"

text \<open>
  A new connection; its callbacks are set and \<^verbatim>\<open>ConnectionEstablished\<close> is queued in its I/O loop.
  The counter is an \<^verbatim>\<open>int\<close>, whose overflow is undefined.
\<close>

definition Server_NewConnection :: "bool \<Rightarrow> InetAddress \<Rightarrow> bool \<Rightarrow> bool \<Rightarrow> 'c TcpServer \<Rightarrow> 'c TcpServer res" where
  "Server_NewConnection inLoop peer wc msg s =
     ensure inLoop
       (rbind (NextLoop inLoop (srvPool s)) (\<lambda>(ioLoop, p).
        require (Suc (connCount s) < 2 ^ 31)
          (let i = connCount s; name = connection_name peer (Suc i) in
           rbind (TcpConnection_new wc msg False) (\<lambda>c.
             Inr (s\<lparr>srvPool := p, connCount := Suc i, connections := map_set name i (connections s),
                    conns := (conns s)(i := Some (name, ioLoop, c)),
                    establishing := establishing s @ [i]\<rparr>)))))"

definition set_conn :: "nat \<Rightarrow> 'c TcpConnection \<Rightarrow> 'c TcpServer \<Rightarrow> 'c TcpServer" where
  "set_conn i c s =
     (case conns s i of None \<Rightarrow> s | Some (name, l, _) \<Rightarrow> s\<lparr>conns := (conns s)(i := Some (name, l, c))\<rparr>)"

text \<open>
  \<^verbatim>\<open>RemoveConnection\<close> posts to the main loop (\<open>closes\<close> counts these functors), which erases the name and
  posts \<^verbatim>\<open>ConnectionDestroyed\<close> to the I/O loop.
\<close>

definition RemoveConnectionInLoop :: "bool \<Rightarrow> nat \<Rightarrow> 'c TcpServer \<Rightarrow> 'c TcpServer res" where
  "RemoveConnectionInLoop inLoop i s =
     ensure inLoop
       (case conns s i of
          None \<Rightarrow> Inl Undefined
        | Some (name, l, c) \<Rightarrow>
            Inr (set_conn i (enqueue TaskDestroy (c\<lparr>closes := closes c - 1\<rparr>))
              (s\<lparr>connections := map_erase name (connections s), removed := insert i (removed s)\<rparr>)))"

text \<open>
  The destructor runs \<^verbatim>\<open>ConnectionDestroyed\<close> of every connection on the map, at once for those of the
  destructor's loop; \<open>env\<close> is theirs.
\<close>

definition TcpServer_destroy :: "'c conn_env \<Rightarrow> bool \<Rightarrow> 'c TcpServer \<Rightarrow> 'c TcpServer res" where
  "TcpServer_destroy env inLoop s =
     ensure inLoop
       (rfold (\<lambda>(name, i) s1.
          case conns s1 i of
            None \<Rightarrow> Inl Undefined
          | Some (nm, l, c) \<Rightarrow>
              if l = baseLoop (srvPool s1)
              then rbind (ConnectionDestroyed env True c) (\<lambda>c1. Inr (set_conn i c1 s1))
              else Inr (set_conn i (enqueue TaskDestroy c) s1))
          (connections s) s)"

section \<open>Steps of a server with I/O threads\<close>

text \<open>What happens to a connection in its I/O loop.\<close>

inductive io_step :: "'c conn_env \<Rightarrow> 'c TcpConnection \<Rightarrow> 'c TcpConnection \<Rightarrow> bool" for env where
  io_call: "op_fits c \<Longrightarrow> run_op env inLoop c s = Inr t \<Longrightarrow> io_step env s t"
| io_event: "readv_spec readv \<Longrightarrow> length (buffer (inputBuffer s)) + extrabufSize \<le> vector_max \<Longrightarrow>
    conn_HandleEvent env evs readv s = Inr t \<Longrightarrow> io_step env s t"
| io_task: "run_task env s = Inr t \<Longrightarrow> io_step env s t"

lemma io_conn_step: "io_step env s t \<Longrightarrow> conn_step env s t"
  by (induction rule: io_step.induct) (auto intro: conn_step.intros)

inductive server_step :: "'c conn_env \<Rightarrow> 'c TcpServer \<Rightarrow> 'c TcpServer \<Rightarrow> bool" for env where
  accept: "Server_NewConnection True peer wc msg s = Inr t \<Longrightarrow> server_step env s t"
| established: "i \<in> set (establishing s) \<Longrightarrow> conns s i = Some (name, l, c) \<Longrightarrow>
    ConnectionEstablished env True c = Inr c' \<Longrightarrow>
    server_step env s (set_conn i c' (s\<lparr>establishing := remove1 i (establishing s)\<rparr>))"
| io: "conns s i = Some (name, l, c) \<Longrightarrow> io_step env c c' \<Longrightarrow> server_step env s (set_conn i c' s)"
| removal: "conns s i = Some (name, l, c) \<Longrightarrow> 0 < closes c \<Longrightarrow> RemoveConnectionInLoop True i s = Inr t \<Longrightarrow>
    server_step env s t"

definition server_init :: "(nat \<Rightarrow> string \<Rightarrow> write_result) \<Rightarrow> (conn_event \<Rightarrow> 'c TcpConnection \<Rightarrow> 'c conn_op list) \<Rightarrow> nat \<Rightarrow>
    'c TcpServer \<Rightarrow> bool" where
  "server_init sw script n s \<longleftrightarrow> write_spec sw \<and> script_fits script \<and> 0 < n \<and>
     (\<exists>name hasCb. TcpServer_Start True (int n) hasCb (TcpServer_new name) = Inr s)"

section \<open>The invariant\<close>

definition pool_ok :: "nat \<Rightarrow> 'c TcpServer \<Rightarrow> bool" where
  "pool_ok n s \<longleftrightarrow> 0 < n \<and> poolStarted (srvPool s) \<and> loops (srvPool s) = map Suc [0..<n] \<and>
     nextLoop (srvPool s) \<le> n \<and> connCount s mod n = nextLoop (srvPool s) mod n"

definition conns_ok :: "nat \<Rightarrow> 'c TcpServer \<Rightarrow> bool" where
  "conns_ok n s \<longleftrightarrow> (\<forall>i. conns s i = None \<longleftrightarrow> connCount s \<le> i) \<and>
     (\<forall>i name l c. conns s i = Some (name, l, c) \<longrightarrow>
        (\<exists>peer. name = connection_name peer (Suc i)) \<and> l = Suc (i mod n) \<and> conn_inv 0 c)"

definition names_ok :: "'c TcpServer \<Rightarrow> bool" where
  "names_ok s \<longleftrightarrow> map_wf (connections s) \<and> removed s \<subseteq> {..<connCount s} \<and>
     (\<forall>name i. map_find name (connections s) = Some i \<longleftrightarrow>
        i \<notin> removed s \<and> (\<exists>l c. conns s i = Some (name, l, c)))"

definition server_inv :: "nat \<Rightarrow> 'c TcpServer \<Rightarrow> bool" where
  "server_inv n s \<longleftrightarrow> pool_ok n s \<and> conns_ok n s \<and> names_ok s"

lemma names_okD:
  "names_ok s \<Longrightarrow> map_find name (connections s) = Some i \<longleftrightarrow>
    i \<notin> removed s \<and> (\<exists>l c. conns s i = Some (name, l, c))"
  unfolding names_ok_def by blast

lemma conns_name_inject:
  assumes "conns_ok n s" "conns s i = Some (name, l, c)" "conns s j = Some (name, l', c')"
  shows "i = j"
proof -
  obtain p where "name = connection_name p (Suc i)" using assms unfolding conns_ok_def by blast
  moreover obtain q where "name = connection_name q (Suc j)" using assms unfolding conns_ok_def by blast
  ultimately show ?thesis using connection_name_inject by blast
qed

text \<open>Changing the state of one connection.\<close>

lemma set_conn_inv:
  assumes i: "server_inv n s" and c: "conns s i = Some (name, l, c)" and c': "conn_inv 0 c'"
  shows "server_inv n (set_conn i c' s)"
proof -
  have f: "set_conn i c' s = s\<lparr>conns := (conns s)(i := Some (name, l, c'))\<rparr>" using c by (simp add: set_conn_def)
  have k: "conns_ok n s" "names_ok s" using i by (simp_all add: server_inv_def)
  have "i < connCount s" using k(1) c unfolding conns_ok_def by (metis not_le option.distinct(1))
  then have "conns_ok n (set_conn i c' s)" using k(1) c c' unfolding f conns_ok_def by auto
  moreover have "names_ok (set_conn i c' s)" using k(2) c unfolding f names_ok_def by auto
  ultimately show ?thesis using i by (simp add: server_inv_def pool_ok_def f)
qed

lemma NewConnection_ok:
  assumes "pool_ok n s" "Suc (connCount s) < 2 ^ 31"
  shows "\<exists>t c. Server_NewConnection True peer wc msg s = Inr t \<and> connCount t = Suc (connCount s) \<and>
    conns t (connCount s) = Some (connection_name peer (Suc (connCount s)), Suc (connCount s mod n), c) \<and>
    removed t = removed s"
proof -
  have p: "0 < n" "poolStarted (srvPool s)" "loops (srvPool s) = map Suc [0..<n]" "nextLoop (srvPool s) \<le> n"
    "connCount s mod n = nextLoop (srvPool s) mod n"
    using assms(1) by (auto simp: pool_ok_def)
  then obtain q where "NextLoop True (srvPool s) = Inr (Suc (connCount s mod n), q)"
    using NextLoop_ok [of "srvPool s" "connCount s"] by auto
  then show ?thesis using assms(2) by (simp add: Server_NewConnection_def TcpConnection_new_eq Let_def)
qed

lemma NewConnection_inv:
  assumes i: "server_inv n s" and r: "Server_NewConnection True peer wc msg s = Inr t"
  shows "server_inv n t"
proof -
  have p: "0 < n" "poolStarted (srvPool s)" "loops (srvPool s) = map Suc [0..<n]" "nextLoop (srvPool s) \<le> n"
    "connCount s mod n = nextLoop (srvPool s) mod n"
    using i by (auto simp: server_inv_def pool_ok_def)
  then obtain q where q: "NextLoop True (srvPool s) = Inr (Suc (connCount s mod n), q)" "poolStarted q"
    "loops q = map Suc [0..<n]" "nextLoop q \<le> n" "Suc (connCount s) mod n = nextLoop q mod n"
    using NextLoop_ok [of "srvPool s" "connCount s"] by auto
  let ?i = "connCount s" and ?name = "connection_name peer (Suc (connCount s))"
  let ?c = "conn_fresh fresh_buffer wc msg False"
  have ci: "conn_inv 0 ?c" by (simp add: conn_inv_defs conn_fresh_def)
  have t: "t = s\<lparr>srvPool := q, connCount := Suc ?i, connections := map_set ?name ?i (connections s),
      conns := (conns s)(?i := Some (?name, Suc (?i mod n), conn_fresh fresh_buffer wc msg False)),
      establishing := establishing s @ [?i]\<rparr>"
    using r q(1) by (simp add: Server_NewConnection_def TcpConnection_new_eq res_simps Let_def)
  have k: "conns_ok n s" "names_ok s" using i by (simp_all add: server_inv_def)
  have ck: "conns_ok n t" using k(1) ci unfolding t conns_ok_def by (auto simp: le_Suc_eq)
  have none: "conns s ?i = None" and new: "?i \<notin> removed s"
    using k unfolding conns_ok_def names_ok_def by auto
  have ti: "conns t ?i = Some (?name, Suc (?i mod n), conn_fresh fresh_buffer wc msg False)" by (simp add: t)
  have rem: "removed t = removed s" by (simp add: t)
  have wf: "map_wf (connections s)" using k(2) by (simp add: names_ok_def)
  have "map_wf (connections t)" using smap.assign_wf [OF wf] by (simp add: t)
  moreover have "map_find name (connections t) = Some j \<longleftrightarrow>
      j \<notin> removed t \<and> (\<exists>l c. conns t j = Some (name, l, c))" for name j
  proof (cases "name = ?name")
    case True
    have "j = ?i" if "conns t j = Some (name, l, c)" for l c
      using conns_name_inject [OF ck _ ti] that True by blast
    then have "j \<notin> removed t \<and> (\<exists>l c. conns t j = Some (name, l, c)) \<longleftrightarrow> j = ?i"
      unfolding rem using True new ti by blast
    moreover have "map_find name (connections t) = Some ?i"
      using True by (simp add: t smap.find_assign [OF wf])
    ultimately show ?thesis by auto
  next
    case False
    have "map_find name (connections t) = map_find name (connections s)"
      using False by (simp add: t smap.find_assign [OF wf])
    moreover have "(\<exists>l c. conns t j = Some (name, l, c)) \<longleftrightarrow> (\<exists>l c. conns s j = Some (name, l, c))"
      using False none unfolding t by auto
    ultimately show ?thesis using names_okD [OF k(2), of name j] unfolding rem by simp
  qed
  ultimately have "names_ok t" using k(2) unfolding names_ok_def by (auto simp: t)
  moreover have "pool_ok n t" using p(1) q by (simp add: pool_ok_def t)
  ultimately show ?thesis using ck by (simp add: server_inv_def)
qed

lemma RemoveConnection_inv:
  assumes i: "server_inv n s" and c: "conns s i = Some (name, l, c)" and cl: "0 < closes c"
    and r: "RemoveConnectionInLoop True i s = Inr t"
  shows "server_inv n t"
proof -
  let ?c = "enqueue TaskDestroy (c\<lparr>closes := closes c - 1\<rparr>)"
  let ?s = "s\<lparr>connections := map_erase name (connections s), removed := insert i (removed s)\<rparr>"
  have t: "t = set_conn i ?c ?s" using r c by (simp add: RemoveConnectionInLoop_def)
  have k: "conns_ok n s" "names_ok s" "pool_ok n s" using i by (simp_all add: server_inv_def)
  have "conn_inv 0 c" using k(1) c unfolding conns_ok_def by blast
  then have "conn_inv 0 ?c" using cl by (simp add: conn_inv_defs enqueue_def)
  moreover have "server_inv n ?s"
  proof -
    have "i < connCount s" using k(1) c unfolding conns_ok_def by (metis not_le option.distinct(1))
    moreover have wf: "map_wf (connections s)" using k(2) by (simp add: names_ok_def)
    moreover have "map_find nm (map_erase name (connections s)) = Some j \<longleftrightarrow>
        j \<notin> insert i (removed s) \<and> (\<exists>l c. conns s j = Some (nm, l, c))" for nm j
    proof (cases "nm = name")
      case True
      have "j = i" if "conns s j = Some (nm, l', c')" for l' c'
        using conns_name_inject [OF k(1) that] c True by simp
      then show ?thesis using True wf by (auto simp: smap.find_erase)
    next
      case False
      then show ?thesis using k(2) wf c unfolding names_ok_def by (auto simp: smap.find_erase)
    qed
    ultimately have "names_ok ?s" using k(2) smap.erase_wf [OF wf] by (auto simp: names_ok_def)
    then show ?thesis using k by (simp add: server_inv_def conns_ok_def pool_ok_def)
  qed
  ultimately show ?thesis using set_conn_inv [of n ?s i name l c ?c] c by (simp add: t)
qed

lemma server_step_inv:
  assumes k: "keeps env" and i: "server_inv n s" and st: "server_step env s t"
  shows "server_inv n t"
  using st
proof cases
  case (accept peer wc msg)
  then show ?thesis by (intro NewConnection_inv [OF i])
next
  case (established i name l c c')
  have "server_inv n (s\<lparr>establishing := remove1 i (establishing s)\<rparr>)" and "conn_inv 0 c"
    using i established(3) unfolding server_inv_def conns_ok_def names_ok_def pool_ok_def by simp_all
  with ConnectionEstablished_inv [OF k _ established(4)] established(1,3) show ?thesis
    using set_conn_inv [of n "s\<lparr>establishing := remove1 i (establishing s)\<rparr>" i name l c c'] by simp
next
  case (io i name l c c')
  have "conn_inv 0 c" using i io(2) unfolding server_inv_def conns_ok_def by blast
  then have "conn_inv 0 c'" using conn_step_inv [OF k _ io_conn_step [OF io(3)]] by blast
  then show ?thesis using set_conn_inv [OF i io(2)] io(1) by simp
next
  case (removal i name l c)
  then show ?thesis by (intro RemoveConnection_inv [OF i])
qed

interpretation server: invariant "server_init sw script n" "server_step (the_env sw script OtherLoop depth)"
  "\<lambda>s. write_spec sw \<and> script_fits script \<and> server_inv n s" for sw script n depth
proof unfold_locales
  fix s assume "server_init sw script n s"
  then show "write_spec sw \<and> script_fits script \<and> server_inv n s"
    by (auto simp: server_init_def TcpServer_Start_def TcpServer_new_def EventLoopThreadPool_new_def
        LoopPool_Start_def Let_def res_simps server_inv_def pool_ok_def conns_ok_def names_ok_def map_wf_def
        map_find_def)
qed (use server_step_inv [OF call_back_keeps] in blast)

section \<open>Properties\<close>

text \<open>
  C19. The server's list of connections.  In every reachable state of a server with \<open>n\<close> I/O threads,
  whatever the peers, the users and the threads do: connections have different names; looking up a
  name finds exactly the connection with that name, as long as \<^verbatim>\<open>RemoveConnectionInLoop\<close> has not run
  for it, and nothing otherwise; the \<open>i\<close>-th connection lives in the loop of thread \<open>i mod n\<close>; and for
  each of them no byte is lost, duplicated or reordered.
\<close>

theorem server_connections:
  assumes "reach (server_init sw script n) (server_step (the_env sw script OtherLoop depth)) s"
    and "conns s i = Some (name, l, c)"
  shows "map_find name (connections s) = (if i \<in> removed s then None else Some i) \<and>
    (\<forall>j l' c'. conns s j = Some (name, l', c') \<longrightarrow> j = i) \<and>
    l = Suc (i mod n) \<and> i < connCount s \<and>
    accepted c = wire c @ content (outputBuffer c) \<and> received c = consumed c @ content (inputBuffer c)"
proof -
  have k: "conns_ok n s" "names_ok s" using server.reach_inv [OF assms(1)] by (simp_all add: server_inv_def)
  have inj: "\<forall>j l' c'. conns s j = Some (name, l', c') \<longrightarrow> j = i"
    using conns_name_inject [OF k(1) _ assms(2)] by blast
  have find: "map_find name (connections s) = Some j \<longleftrightarrow> j = i \<and> i \<notin> removed s" for j
    unfolding names_okD [OF k(2)] using inj assms(2) by metis
  have "i < connCount s" using k(1) assms(2) unfolding conns_ok_def by (metis not_le option.distinct(1))
  moreover have "l = Suc (i mod n)" "conn_inv 0 c" using k(1) assms(2) unfolding conns_ok_def by blast+
  ultimately show ?thesis using inj find by (cases "map_find name (connections s)") (auto simp: conn_inv_defs)
qed

text \<open>Two peers connect to a server with two threads.\<close>

definition demo_peer :: InetAddress where
  "demo_peer = InetAddress_any 80"

lemma server_started:
  "TcpServer_Start True (int n) hasCb (TcpServer_new nm) =
    Inr ((TcpServer_new nm)\<lparr>srvListening := True, srvPool := (EventLoopThreadPool_new 0)
      \<lparr>poolStarted := True, loops := map Suc [0..<n],
       threadNames := map (\<lambda>i. ''EventLoopThread'' @ show_int (int i + 1)) [0..<n],
       initRuns := (if n = 0 \<and> hasCb then 1 else 0)\<rparr>\<rparr>)"
  by (simp add: TcpServer_Start_def TcpServer_new_def LoopPool_Start_def EventLoopThreadPool_new_def Let_def)

theorem server_connections_witness:
  "\<exists>s c. reach (server_init one_byte no_calls 2) (server_step (the_env one_byte no_calls OtherLoop 1)) s \<and>
    conns s 1 = Some (connection_name demo_peer 2, 2, c) \<and>
    map_find (connection_name demo_peer 2) (connections s) = Some 1"
proof -
  let ?R = "reach (server_init one_byte no_calls 2) (server_step (the_env one_byte no_calls OtherLoop 1))"
  obtain s0 :: "unit TcpServer" where s0: "TcpServer_Start True (int 2) False (TcpServer_new ''echo'') = Inr s0"
    "connCount s0 = 0" "removed s0 = {}"
    unfolding server_started by (simp add: TcpServer_new_def)
  have r0: "?R s0" by (rule reach_init) (use s0(1) one_byte_spec in \<open>auto simp: server_init_def\<close>)
  have "pool_ok 2 s0" using server.reach_inv [OF r0] by (simp add: server_inv_def)
  from NewConnection_ok [OF this, of demo_peer False True] s0
  obtain s1 where s1: "Server_NewConnection True demo_peer False True s0 = Inr s1" "connCount s1 = 1"
    "removed s1 = {}" by auto
  have r1: "?R s1" by (rule reach_step [OF r0]) (rule server_step.accept [OF s1(1)])
  have "pool_ok 2 s1" using server.reach_inv [OF r1] by (simp add: server_inv_def)
  from NewConnection_ok [OF this, of demo_peer False True] s1(2,3)
  obtain s2 c where s2: "Server_NewConnection True demo_peer False True s1 = Inr s2" "removed s2 = {}"
    "conns s2 1 = Some (connection_name demo_peer 2, 2, c)" by (auto simp: Suc_1 simp del: One_nat_def)
  have r2: "?R s2" by (rule reach_step [OF r1]) (rule server_step.accept [OF s2(1)])
  from server_connections [OF r2 s2(3)] s2(2,3) r2 show ?thesis by auto
qed

text \<open>
  A server starts once.  \<^verbatim>\<open>Start\<close> with any number of threads starts the loops of the pool and listens;
  a second \<^verbatim>\<open>Start\<close>, which the header allows (\<open>only the first call takes effect\<close>), fails the assertion of
  the thread pool, because \<^verbatim>\<open>started_\<close> is never set.
\<close>

theorem server_start_twice:
  "\<exists>t :: 'c TcpServer. TcpServer_Start True (int n) hasCb (TcpServer_new nm) = Inr t \<and>
    srvListening t \<and> loops (srvPool t) = map Suc [0..<n] \<and> \<not> srvStarted t \<and>
    TcpServer_Start True (int m) hasCb' t = Inl Assertion"
proof -
  obtain t :: "'c TcpServer" where "TcpServer_Start True (int n) hasCb (TcpServer_new nm) = Inr t" "srvListening t"
    "loops (srvPool t) = map Suc [0..<n]" "\<not> srvStarted t" "poolStarted (srvPool t)"
    unfolding server_started by (simp add: TcpServer_new_def)
  moreover from this(4,5) have "TcpServer_Start True (int m) hasCb' t = Inl Assertion"
    by (simp add: TcpServer_Start_def LoopPool_Start_def)
  ultimately show ?thesis by blast
qed

text \<open>When the descriptors are used up: the placeholder is given up and opened again.\<close>

lemma HandleRead_full:
  assumes spec: "sock_spec opened api" and ph: "placeholderFd s \<in> opened (kernel (ap s))"
    and first: "sys_accept api (listenFd s) (kernel (ap s)) = ((c, peer, AccMFILE), k)" and neg: "c < 0"
    and second: "fst (fst (sys_accept api (listenFd s) (snd (sys_close api (placeholderFd s) k)))) = c2"
  shows "if 0 \<le> c2
    then \<exists>t. Acceptor_HandleRead api True s = Inr t \<and> given t = given s \<and>
      opened (kernel (ap t)) = opened (kernel (ap s)) - {placeholderFd s} \<union> ({0..} \<inter> {placeholderFd t})
    else Acceptor_HandleRead api True s = Inl Fatal"
proof -
  have o: "opened k = opened (kernel (ap s))" using accept_cases [OF spec first] neg by auto
  obtain k1 where k1: "CloseFd api (placeholderFd s) k = Inr k1" "sys_close api (placeholderFd s) k = (0, k1)"
    "opened k1 = opened k - {placeholderFd s}"
    using CloseFd_ok [OF spec, of "placeholderFd s" k] ph o by auto
  obtain p2 e2 k2 where k2: "sys_accept api (listenFd s) k1 = ((c2, p2, e2), k2)"
    using second k1(2) by (cases "sys_accept api (listenFd s) k1") auto
  show ?thesis
  proof (cases "0 \<le> c2")
    case False
    then have "CloseFd api c2 k2 = Inl Fatal"
      using opened_nonneg [OF spec] by (intro CloseFd_fatal [OF spec]) fastforce
    then show ?thesis using False neg first k1 k2
      by (simp add: Acceptor_HandleRead_def Socket_Accept_def)
  next
    case c2: True
    have o2: "c2 \<notin> opened k1" "opened k2 = insert c2 (opened k1)"
      using accept_cases [OF spec k2] c2 by auto
    obtain k3 where k3: "CloseFd api c2 k2 = Inr k3" "opened k3 = opened k2 - {c2}"
      using CloseFd_ok [OF spec, of c2 k2] o2 by auto
    obtain n k4 where k4: "sys_open_null api k3 = (n, k4)" by fastforce
    have "opened k4 = opened k1 \<union> ({0..} \<inter> {n})"
      using open_null_cases [OF spec k4] o2 k3(2) by (auto split: if_splits)
    then show ?thesis using c2 neg first k1 k2 k3(1) k4 o
      by (simp add: Acceptor_HandleRead_def Socket_Accept_def)
  qed
qed

text \<open>
  Accepting: on a readable listening socket, a new connection is handed to the callback, or closed if
  there is none; when the descriptors are used up, the placeholder is given up, the pending connection
  is accepted and closed, and the placeholder is opened again, so that the set of open descriptors is
  as before up to the number of the placeholder; other errors that the socket layer tolerates change
  nothing.  If in between no connection is left to accept, the attempt to close descriptor -1 ends the
  process.
\<close>

theorem Acceptor_HandleRead_descriptors:
  assumes spec: "sock_spec opened api" and ph: "placeholderFd s \<in> opened (kernel (ap s))"
    and first: "sys_accept api (listenFd s) (kernel (ap s)) = ((c, peer, e), k)"
    and second: "fst (fst (sys_accept api (listenFd s) (snd (sys_close api (placeholderFd s) k)))) = c2"
  shows "case Acceptor_HandleRead api True s of
      Inl flt \<Rightarrow> flt = Fatal \<and> c < 0 \<and>
        (e = AccMFILE \<and> c2 < 0 \<or> e \<notin> {AccAGAIN, AccCONNABORTED, AccPROTO, AccINTR, AccMFILE})
    | Inr t \<Rightarrow>
        if 0 \<le> c \<and> acceptCallback s
        then given t = given s @ [(c, peer)] \<and> opened (kernel (ap t)) = insert c (opened (kernel (ap s)))
        else given t = given s \<and>
          (if c < 0 \<and> e = AccMFILE
           then 0 \<le> c2 \<and> opened (kernel (ap t)) = opened (kernel (ap s)) - {placeholderFd s} \<union> ({0..} \<inter> {placeholderFd t})
           else opened (kernel (ap t)) = opened (kernel (ap s)) \<and> placeholderFd t = placeholderFd s)"
proof (cases "0 \<le> c")
  case True
  have o: "c \<notin> opened (kernel (ap s))" "opened k = insert c (opened (kernel (ap s)))"
    using accept_cases [OF spec first] True by auto
  show ?thesis
  proof (cases "acceptCallback s")
    case cb: True
    then show ?thesis using True first o by (simp add: Acceptor_HandleRead_def Socket_Accept_def)
  next
    case False
    obtain k1 where "CloseFd api c k = Inr k1" "opened k1 = opened k - {c}"
      using CloseFd_ok [OF spec, of c k] o(2) by auto
    then show ?thesis using False True first o
      by (simp add: Acceptor_HandleRead_def Socket_Accept_def on_kernel_def)
  qed
next
  case neg: False
  then have o: "opened k = opened (kernel (ap s))" using accept_cases [OF spec first] by auto
  show ?thesis
  proof (cases "e = AccMFILE")
    case False
    then show ?thesis using neg first o by (auto simp: Acceptor_HandleRead_def Socket_Accept_def)
  next
    case True
    then show ?thesis
      using HandleRead_full [OF spec ph first [unfolded True] _ second] neg by (auto split: if_splits)
  qed
qed

text \<open>A kernel that has used up its descriptors at every other \<^verbatim>\<open>accept\<close>.\<close>

definition busy_open :: "nat \<times> int list \<Rightarrow> int set" where
  "busy_open k = {fd \<in> set (snd k). 0 \<le> fd}"

definition busy_new :: "nat \<times> int list \<Rightarrow> int \<times> nat \<times> int list" where
  "busy_new k = (if 9 \<in> set (snd k) then (- 1, k) else (9, (fst k, 9 # snd k)))"

definition busy_accept :: "nat \<times> int list \<Rightarrow> (int \<times> InetAddress \<times> accept_errno) \<times> nat \<times> int list" where
  "busy_accept k =
     (if even (fst k) \<or> 9 \<in> set (snd k) then ((- 1, demo_peer, AccMFILE), (Suc (fst k), snd k))
      else ((9, demo_peer, AcceptOk), (Suc (fst k), 9 # snd k)))"

definition busy_api :: "(nat \<times> int list) sock_api" where
  "busy_api = \<lparr>sys_socket = busy_new,
     sys_close = (\<lambda>fd k. (if fd \<in> busy_open k then 0 else - 1, (fst k, filter (\<lambda>x. x \<noteq> fd) (snd k)))),
     sys_connect = (\<lambda>fd a k. (ConnREFUSED, k)), sys_bind = (\<lambda>fd a k. (0, k)), sys_listen = (\<lambda>fd k. (0, k)),
     sys_accept = (\<lambda>fd. busy_accept), sys_shutdown = (\<lambda>fd k. (0, k)), sys_setsockopt = (\<lambda>fd opt v k. (0, k)),
     sys_getsockopt_error = (\<lambda>fd k. Some 0), sys_getsockname = (\<lambda>fd k. None), sys_getpeername = (\<lambda>fd k. None),
     sys_open_null = busy_new\<rparr>"

lemma busy_spec: "sock_spec busy_open busy_api"
proof -
  have "new_fd_spec busy_open busy_new" by (auto simp: new_fd_spec_def busy_new_def busy_open_def)
  moreover have "new_fd_spec busy_open (\<lambda>k. let ((c, _), k1) = busy_accept k in (c, k1))"
    by (auto simp: new_fd_spec_def busy_accept_def busy_open_def)
  ultimately show ?thesis
    by (auto simp: sock_spec_def busy_api_def close_spec_def same_fds_def busy_open_def)
qed

definition busy_acceptor :: "(nat, nat \<times> int list) Acceptor" where
  "busy_acceptor = \<lparr>ap = \<lparr>loopId = 7, chans = (\<lambda>a. None), kernel = (0, [3, 5]), channels = [], eventListSize = 16\<rparr>,
     listening = True, listenFd = 3, listenChannel = 0, placeholderFd = 5, acceptCallback = True, given = []\<rparr>"

theorem Acceptor_HandleRead_descriptors_witness:
  "\<exists>t. Acceptor_HandleRead busy_api True busy_acceptor = Inr t \<and> placeholderFd t = 9 \<and>
    busy_open (kernel (ap t)) = {3, 9}"
proof -
  have "placeholderFd busy_acceptor \<in> busy_open (kernel (ap busy_acceptor))"
    by (simp add: busy_acceptor_def busy_open_def)
  moreover have "sys_accept busy_api (listenFd busy_acceptor) (kernel (ap busy_acceptor)) = ((- 1, demo_peer, AccMFILE), (1, [3, 5]))"
    by (simp add: busy_api_def busy_acceptor_def busy_accept_def)
  moreover have "fst (fst (sys_accept busy_api (listenFd busy_acceptor)
      (snd (sys_close busy_api (placeholderFd busy_acceptor) (1, [3, 5]))))) = 9"
    by (simp add: busy_api_def busy_acceptor_def busy_accept_def)
  ultimately have c: "case Acceptor_HandleRead busy_api True busy_acceptor of
      Inl flt \<Rightarrow> flt = Fatal \<and> - 1 < (0 :: int) \<and> (AccMFILE = AccMFILE \<and> 9 < (0 :: int) \<or>
        AccMFILE \<notin> {AccAGAIN, AccCONNABORTED, AccPROTO, AccINTR, AccMFILE})
    | Inr t \<Rightarrow>
        if 0 \<le> (- 1 :: int) \<and> acceptCallback busy_acceptor
        then given t = given busy_acceptor @ [(- 1, demo_peer)] \<and>
          busy_open (kernel (ap t)) = insert (- 1) (busy_open (kernel (ap busy_acceptor)))
        else given t = given busy_acceptor \<and>
          (if (- 1 :: int) < 0 \<and> AccMFILE = AccMFILE
           then 0 \<le> (9 :: int) \<and> busy_open (kernel (ap t)) =
             busy_open (kernel (ap busy_acceptor)) - {placeholderFd busy_acceptor} \<union> ({0..} \<inter> {placeholderFd t})
           else busy_open (kernel (ap t)) = busy_open (kernel (ap busy_acceptor)) \<and>
             placeholderFd t = placeholderFd busy_acceptor)"
    by (rule Acceptor_HandleRead_descriptors [OF busy_spec])
  have e: "Acceptor_HandleRead busy_api True busy_acceptor =
      Inr (busy_acceptor\<lparr>ap := (ap busy_acceptor)\<lparr>kernel := (2, [9, 3])\<rparr>, placeholderFd := 9\<rparr>)"
    by (simp add: Acceptor_HandleRead_def Socket_Accept_def busy_api_def busy_acceptor_def busy_accept_def
        CloseFd_def busy_open_def busy_new_def)
  have b: "busy_open (kernel (ap busy_acceptor)) - {placeholderFd busy_acceptor} = {3}"
    by (auto simp: busy_acceptor_def busy_open_def)
  from c show ?thesis unfolding e b by auto
qed

end
