(* ===== verification/Descriptors.thy ===== *)
theory Descriptors
  imports Servers Growth
begin

text \<open>
  The descriptors of a server: the acceptor and the \<^verbatim>\<open>TcpServer\<close> (theory \<open>Servers\<close>) as they are put together by
  \<^verbatim>\<open>src/net/TcpServer.cc\<close>, with the \<^verbatim>\<open>Socket\<close> that each connection owns (\<^verbatim>\<open>src/net/TcpConnection.h\<close>,
  \<^verbatim>\<open>src/net/Socket.cc\<close>).  The acceptor's callback is \<^verbatim>\<open>NewConnection\<close>, which moves the accepted socket into the
  connection; the connection's destructor closes it.
\<close>

section \<open>Who holds a descriptor\<close>

text \<open>
  \<open>m\<close> tells which descriptor a holder has: the descriptors of the process are those in \<open>base\<close> and the holders', each
  with one holder.
\<close>

definition exclusive :: "int set \<Rightarrow> ('h \<Rightarrow> int option) \<Rightarrow> int set \<Rightarrow> bool" where
  "exclusive base m fds \<longleftrightarrow> fds = base \<union> ran m \<and> base \<inter> ran m = {} \<and> inj_on m (dom m)"

lemma exclusive_empty: "exclusive base (\<lambda>h. None) base"
  by (simp add: exclusive_def ran_def)

lemma exclusive_new:
  assumes "exclusive base m fds" "fd \<notin> fds" "m h = None"
  shows "exclusive base (m(h \<mapsto> fd)) (insert fd fds)"
proof -
  have e: "fds = base \<union> ran m" "base \<inter> ran m = {}" "inj_on m (dom m)" using assms(1) by (simp_all add: exclusive_def)
  have "fd \<notin> ran m" "fd \<notin> base" using e(1) assms(2) by auto
  then have "Some fd \<notin> m ` dom m" by (auto simp: ran_def)
  then have "inj_on (m(h \<mapsto> fd)) (insert h (dom m))"
    using e(3) assms(3) by (simp add: inj_on_def domIff image_iff) metis
  then show ?thesis using e \<open>fd \<notin> base\<close> assms(3) by (auto simp: exclusive_def)
qed

lemma exclusive_close:
  assumes "exclusive base m fds" "m h = Some fd"
  shows "fd \<in> fds" "exclusive base (m(h := None)) (fds - {fd})"
proof -
  have e: "fds = base \<union> ran m" "base \<inter> ran m = {}" "inj_on m (dom m)" using assms(1) by (simp_all add: exclusive_def)
  show "fd \<in> fds" using e(1) assms(2) by (auto intro: ranI)
  have "fd \<notin> base" using e(2) assms(2) by (auto intro: ranI)
  have "ran (m(h := None)) = ran m - {fd}"
  proof
    show "ran (m(h := None)) \<subseteq> ran m - {fd}"
      using e(3) assms(2) by (auto simp: ran_def inj_on_def dom_def split: if_splits)
    show "ran m - {fd} \<subseteq> ran (m(h := None))"
    proof
      fix x assume "x \<in> ran m - {fd}"
      then obtain g where "m g = Some x" "x \<noteq> fd" by (auto simp: ran_def)
      then show "x \<in> ran (m(h := None))" using assms(2) by (intro ranI [of _ g]) auto
    qed
  qed
  moreover have "inj_on (m(h := None)) (dom m - {h})" using e(3) by (auto simp: inj_on_def)
  ultimately show "exclusive base (m(h := None)) (fds - {fd})" using e \<open>fd \<notin> base\<close> by (auto simp: exclusive_def)
qed

section \<open>The server with its acceptor\<close>

text \<open>\<open>sockFd\<close> is the descriptor of each connection object that exists.\<close>

record ('k, 'c) Listener =
  acc :: "(unit, 'k) Acceptor"
  srv :: "'c TcpServer"
  sockFd :: "nat \<Rightarrow> int option"

definition set_kernel :: "'k \<Rightarrow> ('k, 'c) Listener \<Rightarrow> ('k, 'c) Listener" where
  "set_kernel k s = s\<lparr>acc := (acc s)\<lparr>ap := (ap (acc s))\<lparr>kernel := k\<rparr>\<rparr>\<rparr>"

definition the_kernel :: "('k, 'c) Listener \<Rightarrow> 'k" where
  "the_kernel s = kernel (ap (acc s))"

text \<open>The constructor of \<^verbatim>\<open>TcpServer\<close>, with the acceptor that it makes; \<open>a\<close> is the address of the acceptor's channel.\<close>

definition Listener_new :: "'k sock_api \<Rightarrow> nat \<Rightarrow> InetAddress \<Rightarrow> bool \<Rightarrow> string \<Rightarrow> (unit, 'k) Poller \<Rightarrow>
    ('k, 'c) Listener res" where
  "Listener_new api a addr reusePort name p =
     rbind (Acceptor_new api a () addr reusePort p) (\<lambda>ac.
       Inr \<lparr>acc = ac\<lparr>acceptCallback := True\<rparr>, srv = TcpServer_new name, sockFd = (\<lambda>i. None)\<rparr>)"

definition Listener_Start :: "'k sock_api \<Rightarrow> 'k epoll_ctl \<Rightarrow> bool \<Rightarrow> int \<Rightarrow> bool \<Rightarrow> ('k, 'c) Listener \<Rightarrow> ('k, 'c) Listener res" where
  "Listener_Start api ctl inLoop numThreads hasCb s =
     rbind (TcpServer_Start inLoop numThreads hasCb (srv s)) (\<lambda>t.
       if srvStarted (srv s) then Inr (s\<lparr>srv := t\<rparr>)
       else rbind (Acceptor_Listen api ctl inLoop (acc s)) (\<lambda>ac. Inr (s\<lparr>acc := ac, srv := t\<rparr>)))"

text \<open>\<^verbatim>\<open>NewConnection\<close> asks for the local address and gives the socket to the connection, whose constructor sets an option.\<close>

definition NewConnection_socket :: "'k sock_api \<Rightarrow> bool \<Rightarrow> int \<Rightarrow> InetAddress \<Rightarrow> bool \<Rightarrow> bool \<Rightarrow> ('k, 'c) Listener \<Rightarrow>
    ('k, 'c) Listener res" where
  "NewConnection_socket api inLoop fd peer wc msg s =
     rbind (LocalAddress api fd (the_kernel s)) (\<lambda>localAddr.
     rbind (Server_NewConnection inLoop peer wc msg (srv s)) (\<lambda>t.
       Inr (set_kernel (SetOption api KeepAlive fd True (the_kernel s))
         (s\<lparr>srv := t, sockFd := (sockFd s)(connCount (srv s) \<mapsto> fd)\<rparr>))))"

text \<open>The listening socket is readable.\<close>

definition Listener_HandleRead :: "'k sock_api \<Rightarrow> bool \<Rightarrow> bool \<Rightarrow> bool \<Rightarrow> ('k, 'c) Listener \<Rightarrow> ('k, 'c) Listener res" where
  "Listener_HandleRead api inLoop wc msg s =
     rbind (Acceptor_HandleRead api inLoop (acc s)) (\<lambda>ac.
       if length (given ac) = length (given (acc s)) then Inr (s\<lparr>acc := ac\<rparr>)
       else let (fd, peer) = last (given ac) in NewConnection_socket api inLoop fd peer wc msg (s\<lparr>acc := ac\<rparr>))"

text \<open>The last pointer to a connection goes: its destructor, then that of its socket.\<close>

definition Connection_delete :: "'k sock_api \<Rightarrow> nat \<Rightarrow> ('k, 'c) Listener \<Rightarrow> ('k, 'c) Listener res" where
  "Connection_delete api i s =
     (case (conns (srv s) i, sockFd s i) of
        (Some (name, l, c), Some fd) \<Rightarrow>
          rbind (TcpConnection_destroy c) (\<lambda>u.
          rbind (Socket_destroy api fd (the_kernel s)) (\<lambda>k.
            Inr (set_kernel k (s\<lparr>sockFd := (sockFd s)(i := None)\<rparr>))))
      | _ \<Rightarrow> Inl Undefined)"

text \<open>
  The pointers to a connection: the map of the server, the functors \<^verbatim>\<open>ConnectionEstablished\<close>,
  \<^verbatim>\<open>RemoveConnectionInLoop\<close> and those waiting in the I/O loop.
\<close>

definition unreferenced :: "nat \<Rightarrow> ('k, 'c) Listener \<Rightarrow> bool" where
  "unreferenced i s \<longleftrightarrow> i \<in> removed (srv s) \<and> i \<notin> set (establishing (srv s)) \<and>
     (case conns (srv s) i of None \<Rightarrow> False | Some (name, l, c) \<Rightarrow> closes c = 0 \<and> tasks c = [])"

text \<open>
  The steps: the listening socket, the steps of theory \<open>Servers\<close> on connections that exist, the end of a connection
  when no pointer is left (a user may keep one for longer), and the system calls that open and close nothing.
\<close>

inductive listener_step :: "('k \<Rightarrow> int set) \<Rightarrow> 'k sock_api \<Rightarrow> 'c conn_env \<Rightarrow> ('k, 'c) Listener \<Rightarrow> ('k, 'c) Listener \<Rightarrow> bool"
  for opened api env where
  readable: "Listener_HandleRead api True wc msg s = Inr t \<Longrightarrow> listener_step opened api env s t"
| serve: "server_step env (srv s) u \<Longrightarrow> connCount u = connCount (srv s) \<Longrightarrow>
    (\<And>i. sockFd s i = None \<Longrightarrow> conns u i = conns (srv s) i) \<Longrightarrow> listener_step opened api env s (s\<lparr>srv := u\<rparr>)"
| delete: "unreferenced i s \<Longrightarrow> Connection_delete api i s = Inr t \<Longrightarrow> listener_step opened api env s t"
| other_calls: "opened k = opened (the_kernel s) \<Longrightarrow> listener_step opened api env s (set_kernel k s)"

definition listener_init :: "('k \<Rightarrow> int set) \<Rightarrow> 'k sock_api \<Rightarrow> 'k epoll_ctl \<Rightarrow> int set \<Rightarrow>
    (nat \<Rightarrow> string \<Rightarrow> write_result) \<Rightarrow> (conn_event \<Rightarrow> 'c TcpConnection \<Rightarrow> 'c conn_op list) \<Rightarrow> nat \<Rightarrow> ('k, 'c) Listener \<Rightarrow> bool" where
  "listener_init opened api ctl base sw script n s \<longleftrightarrow>
     sock_spec opened api \<and> (\<forall>op fd ev. same_fds opened (ctl op fd ev)) \<and> write_spec sw \<and> script_fits script \<and> 0 < n \<and>
     (\<exists>a addr reusePort name hasCb p s0. opened (kernel p) = base \<and> Listener_new api a addr reusePort name p = Inr s0 \<and>
        Listener_Start api ctl True (int n) hasCb s0 = Inr s)"

section \<open>The acceptor's part\<close>

datatype holder = Listening | Placeholder | Connection nat

fun acceptor_fd :: "('cb, 'k) Acceptor \<Rightarrow> (nat \<Rightarrow> int option) \<Rightarrow> holder \<Rightarrow> int option" where
  "acceptor_fd a m Listening = Some (listenFd a)"
| "acceptor_fd a m Placeholder = (if 0 \<le> placeholderFd a then Some (placeholderFd a) else None)"
| "acceptor_fd a m (Connection i) = m i"

definition descriptor :: "('k, 'c) Listener \<Rightarrow> holder \<Rightarrow> int option" where
  "descriptor s = acceptor_fd (acc s) (sockFd s)"

lemma acceptor_fd_upd:
  "acceptor_fd a (m(i := x)) = (acceptor_fd a m)(Connection i := x)"
proof
  show "acceptor_fd a (m(i := x)) h = ((acceptor_fd a m)(Connection i := x)) h" for h by (cases h) simp_all
qed

lemma acceptor_fd_eq:
  "listenFd a = listenFd b \<Longrightarrow> acceptor_fd a m = (acceptor_fd b m)(Placeholder := acceptor_fd a m Placeholder)"
proof
  show "acceptor_fd a m h = ((acceptor_fd b m)(Placeholder := acceptor_fd a m Placeholder)) h" if "listenFd a = listenFd b" for h
    using that by (cases h) simp_all
qed

lemma acceptor_fd_cong:
  assumes "listenFd a = listenFd b" "placeholderFd a = placeholderFd b"
  shows "acceptor_fd a m = acceptor_fd b m"
proof
  show "acceptor_fd a m h = acceptor_fd b m h" for h using assms by (cases h) simp_all
qed

lemma same_fdsD: "same_fds opened f \<Longrightarrow> opened (snd (f k)) = opened k"
  by (simp add: same_fds_def)

lemma sock_spec_same:
  assumes "sock_spec opened api"
  shows "opened (SetOption api opt fd on k) = opened k" "Socket_Bind api fd addr k = Inr k1 \<Longrightarrow> opened k1 = opened k"
    "Socket_Listen api fd k = Inr k1 \<Longrightarrow> opened k1 = opened k"
proof -
  show "opened (SetOption api opt fd on k) = opened k"
    using assms by (simp add: sock_spec_def SetOption_def same_fdsD)
  show "opened k1 = opened k" if "Socket_Bind api fd addr k = Inr k1"
    using that assms same_fdsD [of opened "sys_bind api fd addr" k]
    by (auto simp: sock_spec_def Socket_Bind_def split: prod.splits if_splits)
  show "opened k1 = opened k" if "Socket_Listen api fd k = Inr k1"
    using that assms same_fdsD [of opened "sys_listen api fd" k]
    by (auto simp: sock_spec_def Socket_Listen_def split: prod.splits if_splits)
qed

text \<open>A close that succeeds was of an open descriptor.\<close>

lemma CloseFd_cases:
  assumes "sock_spec opened api" "CloseFd api fd k = Inr k1"
  shows "fd \<in> opened k" "opened k1 = opened k - {fd}"
proof -
  show fd: "fd \<in> opened k" using CloseFd_fatal [OF assms(1), of fd k] assms(2) by auto
  show "opened k1 = opened k - {fd}" using CloseFd_ok [OF assms(1) fd] assms(2) by auto
qed

text \<open>What an accept leaves: the callback has got a new descriptor, or the holders are as many as before.\<close>

lemma HandleRead_exclusive:
  assumes spec: "sock_spec opened api" and x: "exclusive base (acceptor_fd a m) (opened (kernel (ap a)))"
    and r: "Acceptor_HandleRead api True a = Inr b" and cb: "acceptCallback a"
  shows "acceptCallback b \<and> listenFd b = listenFd a \<and>
    (given b = given a \<and> exclusive base (acceptor_fd b m) (opened (kernel (ap b))) \<or>
     (\<exists>fd peer. given b = given a @ [(fd, peer)] \<and> placeholderFd b = placeholderFd a \<and> fd \<notin> opened (kernel (ap a)) \<and>
        opened (kernel (ap b)) = insert fd (opened (kernel (ap a)))))"
proof -
  obtain c peer e k where acc: "sys_accept api (listenFd a) (kernel (ap a)) = ((c, peer, e), k)"
    by (cases "sys_accept api (listenFd a) (kernel (ap a))") auto
  note o = accept_cases [OF spec acc]
  show ?thesis
  proof (cases "0 \<le> c")
    case True
    then show ?thesis using r acc o cb by (auto simp: Acceptor_HandleRead_def Socket_Accept_def Let_def)
  next
    case neg: False
    then have k: "opened k = opened (kernel (ap a))" using o by auto
    show ?thesis
    proof (cases "e = AccMFILE")
      case False
      have "acceptor_fd (a\<lparr>ap := (ap a)\<lparr>kernel := k\<rparr>\<rparr>) m = acceptor_fd a m"
        by (rule acceptor_fd_cong) simp_all
      then show ?thesis using r acc cb neg False k x
        by (auto simp: Acceptor_HandleRead_def Socket_Accept_def Let_def split: if_splits)
    next
      case True
      then obtain k2 where s1: "CloseFd api (placeholderFd a) k = Inr k2"
        using r acc neg by (auto simp: Acceptor_HandleRead_def Socket_Accept_def Let_def res_simps)
      obtain fd p2 e2 k3 where s2: "sys_accept api (listenFd a) k2 = ((fd, p2, e2), k3)"
        by (cases "sys_accept api (listenFd a) k2") auto
      obtain k4 where s3: "CloseFd api fd k3 = Inr k4"
        using r acc neg True s1 s2 by (auto simp: Acceptor_HandleRead_def Socket_Accept_def Let_def res_simps)
      obtain null k5 where s4: "sys_open_null api k4 = (null, k5)" by fastforce
      note s = s1 s2 s3 s4
      have b: "b = a\<lparr>ap := (ap a)\<lparr>kernel := k5\<rparr>, placeholderFd := null\<rparr>"
        using r acc neg True s by (simp add: Acceptor_HandleRead_def Socket_Accept_def Let_def)
      have p: "placeholderFd a \<in> opened k" "opened k2 = opened k - {placeholderFd a}" using CloseFd_cases [OF spec s(1)] .
      then have "acceptor_fd a m Placeholder = Some (placeholderFd a)" using opened_nonneg [OF spec p(1)] by simp
      from exclusive_close(2) [OF x this] have x2: "exclusive base ((acceptor_fd a m)(Placeholder := None)) (opened k2)"
        using p k by simp
      have fd: "fd \<in> opened k3" "opened k4 = opened k3 - {fd}" using CloseFd_cases [OF spec s(3)] .
      have "opened k4 = opened k2"
        using accept_cases [OF spec s(2)] fd opened_nonneg [OF spec fd(1)] by auto
      with x2 have x4: "exclusive base ((acceptor_fd a m)(Placeholder := None)) (opened k4)" by simp
      have "exclusive base ((acceptor_fd a m)(Placeholder := (if 0 \<le> null then Some null else None))) (opened k5)"
        using open_null_cases [OF spec s(4)] x4 exclusive_new [OF x4, of null Placeholder] by (auto split: if_splits)
      moreover have "(acceptor_fd a m)(Placeholder := (if 0 \<le> null then Some null else None)) = acceptor_fd b m"
        unfolding b by (subst (2) acceptor_fd_eq [of _ a]) simp_all
      ultimately show ?thesis using b cb by simp
    qed
  qed
qed


section \<open>The beginning\<close>

lemma change_events_opened:
  assumes "\<forall>op fd ev. same_fds opened (ctl op fd ev)" "change_events ctl inLoop m a p = Inr q"
  shows "opened (kernel q) = opened (kernel p)"
proof -
  have "\<exists>op fd ev. kernel q = snd (ctl op fd ev (kernel p))"
    using assms(2) by (auto simp: change_events_def RegisterToPoller_def Loop_UpdateChannel_def Poller_UpdateChannel_def
        deref_def set_chan_def res_simps Let_def split: option.splits prod.splits if_splits intro: sndI) (metis sndI)+
  then obtain op fd ev where q: "kernel q = snd (ctl op fd ev (kernel p))" by blast
  have "same_fds opened (ctl op fd ev)" using assms(1) by blast
  from same_fdsD [OF this] q show ?thesis by simp
qed

lemma Acceptor_new_exclusive:
  assumes spec: "sock_spec opened api" and r: "Acceptor_new api a cb addr reusePort p = Inr ac"
  shows "exclusive (opened (kernel p)) (acceptor_fd ac (\<lambda>i. None)) (opened (kernel (ap ac)))"
proof -
  obtain fd k1 where s1: "CreateSocketFd api (kernel p) = Inr (fd, k1)"
    using r by (auto simp: Acceptor_new_def res_simps)
  obtain null k2 where s2: "sys_open_null api k1 = (null, k2)" by fastforce
  let ?k3 = "SetOption api ReusePort fd True (SetOption api ReuseAddr fd True k2)"
  obtain k4 where s4: "Socket_Bind api fd addr ?k3 = Inr k4"
    and ac: "kernel (ap ac) = k4" "listenFd ac = fd" "placeholderFd ac = null"
    using r s1 s2 by (auto simp: Acceptor_new_def res_simps Let_def Channel_create_def set_chan_def SetReadCallback_def
        deref_def split: option.splits)
  have k: "opened k4 = opened k2" using sock_spec_same [OF spec] s4 by simp
  note fd = CreateSocketFd_ok [OF spec s1]
  have x1: "exclusive (opened (kernel p)) ((\<lambda>h. None)(Listening \<mapsto> fd)) (opened k1)"
    using exclusive_new [OF exclusive_empty fd(2), of Listening] fd(3) by simp
  have "exclusive (opened (kernel p)) ((\<lambda>h. None)(Listening \<mapsto> fd, Placeholder := (if 0 \<le> null then Some null else None)))
      (opened k2)"
  proof (cases "0 \<le> null")
    case True
    then show ?thesis using open_null_cases [OF spec s2] exclusive_new [OF x1, of null Placeholder] by simp
  next
    case False
    then have "(\<lambda>h. None)(Listening \<mapsto> fd, Placeholder := (if 0 \<le> null then Some null else None)) = (\<lambda>h. None)(Listening \<mapsto> fd)"
      by (simp add: fun_eq_iff)
    then show ?thesis using False open_null_cases [OF spec s2] x1 by simp
  qed
  moreover have "acceptor_fd ac (\<lambda>i. None) h =
      ((\<lambda>h. None)(Listening \<mapsto> fd, Placeholder := (if 0 \<le> null then Some null else None))) h" for h
    using ac by (cases h) simp_all
  then have "acceptor_fd ac (\<lambda>i. None) =
      (\<lambda>h. None)(Listening \<mapsto> fd, Placeholder := (if 0 \<le> null then Some null else None))" by blast
  ultimately show ?thesis using ac(1) k by simp
qed

lemma Acceptor_Listen_opened:
  assumes "sock_spec opened api" "\<forall>op fd ev. same_fds opened (ctl op fd ev)" "Acceptor_Listen api ctl inLoop a = Inr b"
  shows "opened (kernel (ap b)) = opened (kernel (ap a))"
proof -
  obtain k p where "Socket_Listen api (listenFd a) (kernel (ap a)) = Inr k"
    "change_events ctl inLoop EnableReading (listenChannel a) ((ap a)\<lparr>kernel := k\<rparr>) = Inr p" "ap b = p"
    using assms(3) by (auto simp: Acceptor_Listen_def on_kernel_def res_simps)
  then show ?thesis using sock_spec_same(3) [OF assms(1)] change_events_opened [OF assms(2)] by fastforce
qed

section \<open>The invariant\<close>

text \<open>A connection that was taken off the map has had its close callback.\<close>

definition removed_closed :: "'c TcpServer \<Rightarrow> bool" where
  "removed_closed s \<longleftrightarrow> (\<forall>i name l c. i \<in> removed s \<longrightarrow> conns s i = Some (name, l, c) \<longrightarrow> EvClose \<in> set (calls c))"

definition listener_inv :: "('k \<Rightarrow> int set) \<Rightarrow> 'k sock_api \<Rightarrow> int set \<Rightarrow> nat \<Rightarrow> ('k, 'c) Listener \<Rightarrow> bool" where
  "listener_inv opened api base n s \<longleftrightarrow> sock_spec opened api \<and> acceptCallback (acc s) \<and> server_inv n (srv s) \<and>
     removed_closed (srv s) \<and> exclusive base (descriptor s) (opened (the_kernel s)) \<and>
     (\<forall>i. sockFd s i \<noteq> None \<longrightarrow> i < connCount (srv s)) \<and>
     (\<forall>i < connCount (srv s). sockFd s i = None \<longrightarrow> i \<in> removed (srv s))"

lemma set_conn_closed:
  assumes "removed_closed s" and "conns s i = Some (name, l, c)" and "EvClose \<in> set (calls c) \<longrightarrow> EvClose \<in> set (calls c')"
  shows "removed_closed (set_conn i c' s)"
  using assms by (auto simp: removed_closed_def set_conn_def)

lemma server_step_closed:
  assumes g: "grows_env env" and i: "server_inv n s" and c: "removed_closed s" and st: "server_step env s t"
  shows "removed_closed t \<and> removed s \<subseteq> removed t"
  using st
proof cases
  case (accept peer wc msg)
  then obtain c0 where "conns t = (conns s)(connCount s \<mapsto> c0)" "removed t = removed s"
    by (auto simp: Server_NewConnection_def res_simps Let_def)
  moreover have "connCount s \<notin> removed s" using i by (auto simp: server_inv_def names_ok_def)
  ultimately show ?thesis using c by (auto simp: removed_closed_def)
next
  case (established j name l c0 c')
  have "removed_closed (s\<lparr>establishing := remove1 j (establishing s)\<rparr>)" using c by (simp add: removed_closed_def)
  from set_conn_closed [OF this, of j name l c0 c'] show ?thesis
    using established ConnectionEstablished_grows [OF g established(4)] by (auto simp: grows_def set_conn_def)
next
  case (io j name l c0 c')
  from conn_step_ages [OF g io_conn_step [OF io(3)]] show ?thesis
    unfolding io(1) using set_conn_closed [OF c io(2), of c'] io(2) by (simp add: ages_def set_conn_def)
next
  case (removal j name l c0)
  have "conn_inv 0 c0" using i removal(1) unfolding server_inv_def conns_ok_def by blast
  then have "count_list (calls c0) EvClose \<noteq> 0" using removal(2) by (simp add: conn_inv_def closing_ok_def)
  then have "EvClose \<in> set (calls c0)" by (metis count_notin)
  then show ?thesis using removal(1,3) c
    by (auto simp: RemoveConnectionInLoop_def set_conn_def removed_closed_def split: if_splits)
qed


lemma descriptor_kernel [simp]:
  "descriptor (set_kernel k s) = descriptor s" "the_kernel (set_kernel k s) = k"
  "descriptor (s\<lparr>srv := u\<rparr>) = descriptor s" "the_kernel (s\<lparr>srv := u\<rparr>) = the_kernel s"
  "srv (set_kernel k s) = srv s" "sockFd (set_kernel k s) = sockFd s" "acceptCallback (acc (set_kernel k s)) = acceptCallback (acc s)"
  by (simp_all add: descriptor_def set_kernel_def the_kernel_def acceptor_fd_cong [of "acc s\<lparr>ap := p\<rparr>" "acc s" for p])

lemma descriptor_socket: "descriptor (s\<lparr>sockFd := (sockFd s)(i := x)\<rparr>) = (descriptor s)(Connection i := x)"
  by (simp add: descriptor_def acceptor_fd_upd)

lemma listener_init_inv:
  assumes "listener_init opened api ctl base sw script n s"
  shows "listener_inv opened api base n s"
proof -
  obtain a addr reusePort name hasCb p s0 where spec: "sock_spec opened api" and ctl: "\<forall>op fd ev. same_fds opened (ctl op fd ev)"
    and n: "write_spec sw" "script_fits script" "0 < n" and base: "base = opened (kernel p)"
    and s0: "Listener_new api a addr reusePort name p = Inr s0"
    and s: "Listener_Start api ctl True (int n) hasCb s0 = Inr s"
    using assms unfolding listener_init_def by blast
  obtain ac where ac: "Acceptor_new api a () addr reusePort p = Inr ac"
    and s0': "s0 = \<lparr>acc = ac\<lparr>acceptCallback := True\<rparr>, srv = TcpServer_new name, sockFd = (\<lambda>i. None)\<rparr>"
    using s0 by (auto simp: Listener_new_def res_simps)
  obtain t al where t: "TcpServer_Start True (int n) hasCb (TcpServer_new name) = Inr t"
    and al: "Acceptor_Listen api ctl True (ac\<lparr>acceptCallback := True\<rparr>) = Inr al" and s': "s = s0\<lparr>acc := al, srv := t\<rparr>"
    using s s0' by (auto simp: Listener_Start_def res_simps TcpServer_new_def split: if_splits)
  have al': "listenFd al = listenFd ac" "placeholderFd al = placeholderFd ac" "acceptCallback al"
    "opened (kernel (ap al)) = opened (kernel (ap ac))"
    using al Acceptor_Listen_opened [OF spec ctl al] by (auto simp: Acceptor_Listen_def on_kernel_def res_simps)
  have "exclusive base (descriptor s) (opened (the_kernel s))"
    using Acceptor_new_exclusive [OF spec ac] al' acceptor_fd_cong [of al ac "\<lambda>i. None"]
    by (simp add: base descriptor_def the_kernel_def s' s0')
  moreover have "server_init sw script n t" using n t by (auto simp: server_init_def)
  then have "server_inv n t" using server.inv_init by blast
  moreover have "removed t = {}" "connCount t = 0"
    using t unfolding server_started by (auto simp: TcpServer_new_def)
  ultimately show ?thesis using spec al'(3) by (simp add: listener_inv_def removed_closed_def s' s0')
qed

lemma LocalAddress_res: "LocalAddress api fd k = Inr a \<Longrightarrow> sys_getsockname api fd k = Some a"
  by (auto simp: LocalAddress_def split: option.splits)

text \<open>A readable listening socket.\<close>

lemma Listener_HandleRead_inv:
  fixes s :: "('k, 'c) Listener" and env :: "'c conn_env"
  assumes i: "listener_inv opened api base n s" and k: "keeps env" and g: "grows_env env"
    and r: "Listener_HandleRead api True wc msg s = Inr t"
  shows "listener_inv opened api base n t"
proof -
  have h: "sock_spec opened api" "acceptCallback (acc s)" "server_inv n (srv s)" "removed_closed (srv s)"
    "exclusive base (descriptor s) (opened (the_kernel s))"
    "\<forall>i. sockFd s i \<noteq> None \<longrightarrow> i < connCount (srv s)"
    "\<forall>i < connCount (srv s). sockFd s i = None \<longrightarrow> i \<in> removed (srv s)"
    using i by (simp_all add: listener_inv_def)
  obtain ac where ac: "Acceptor_HandleRead api True (acc s) = Inr ac"
    using r by (auto simp: Listener_HandleRead_def res_simps)
  note e = HandleRead_exclusive [OF h(1) h(5) [unfolded descriptor_def the_kernel_def] ac h(2)]
  show ?thesis
  proof (cases "given ac = given (acc s)")
    case True
    then have "t = s\<lparr>acc := ac\<rparr>" using r ac by (simp add: Listener_HandleRead_def)
    with e True h show ?thesis by (auto simp: listener_inv_def descriptor_def the_kernel_def)
  next
    case False
    with e obtain fd peer where fd: "given ac = given (acc s) @ [(fd, peer)]" "placeholderFd ac = placeholderFd (acc s)"
      "listenFd ac = listenFd (acc s)" "acceptCallback ac" "fd \<notin> opened (the_kernel s)"
      "opened (kernel (ap ac)) = insert fd (opened (the_kernel s))"
      by (auto simp: the_kernel_def)
    let ?s = "s\<lparr>acc := ac\<rparr>"
    have "NewConnection_socket api True fd peer wc msg ?s = Inr t"
      using r ac fd(1) by (simp add: Listener_HandleRead_def)
    then obtain u where u: "Server_NewConnection True peer wc msg (srv s) = Inr u"
      and t: "t = set_kernel (SetOption api KeepAlive fd True (the_kernel ?s))
        (?s\<lparr>srv := u, sockFd := (sockFd s)(connCount (srv s) \<mapsto> fd)\<rparr>)"
      by (auto simp: NewConnection_socket_def res_simps)
    have st: "server_step env (srv s) u" using u by (rule server_step.accept)
    have n: "sockFd s (connCount (srv s)) = None" using h(6) by blast
    have d: "descriptor ?s = descriptor s"
      using fd(2,3) by (simp add: descriptor_def acceptor_fd_cong [of ac "acc s"])
    have "descriptor t = (descriptor s)(Connection (connCount (srv s)) \<mapsto> fd)"
      unfolding t descriptor_kernel using d by (simp add: descriptor_def acceptor_fd_upd)
    moreover have "opened (the_kernel t) = insert fd (opened (the_kernel s))"
      unfolding t descriptor_kernel using fd(6) sock_spec_same(1) [OF h(1)] by (simp add: the_kernel_def)
    ultimately have "exclusive base (descriptor t) (opened (the_kernel t))"
      using exclusive_new [OF h(5) fd(5), of "Connection (connCount (srv s))"] n by (simp add: descriptor_def)
    moreover have "connCount u = Suc (connCount (srv s))" "removed u = removed (srv s)"
      using u by (auto simp: Server_NewConnection_def res_simps Let_def)
    ultimately show ?thesis
      using h server_step_inv [OF k h(3) st] server_step_closed [OF g h(3,4) st] fd(4)
      by (auto simp: listener_inv_def t less_Suc_eq)
  qed
qed

lemma Connection_delete_cases:
  assumes "Connection_delete api i s = Inr t"
  obtains name l c fd k where "conns (srv s) i = Some (name, l, c)" "sockFd s i = Some fd" "TcpConnection_destroy c = Inr ()"
    "CloseFd api fd (the_kernel s) = Inr k" "t = set_kernel k (s\<lparr>sockFd := (sockFd s)(i := None)\<rparr>)"
  using assms by (auto simp: Connection_delete_def Socket_destroy_def res_simps split: option.splits prod.splits)

lemma listener_step_inv:
  fixes s :: "('k, 'c) Listener" and env :: "'c conn_env"
  assumes i: "listener_inv opened api base n s" and k: "keeps env" and g: "grows_env env"
    and st: "listener_step opened api env s t"
  shows "listener_inv opened api base n t"
  using st
proof cases
  case (readable wc msg)
  show ?thesis by (rule Listener_HandleRead_inv [OF i k g readable])
next
  case (serve u)
  have h: "server_inv n (srv s)" "removed_closed (srv s)" using i by (simp_all add: listener_inv_def)
  from server_step_inv [OF k h(1) serve(2)] server_step_closed [OF g h serve(2)] i serve(1,3) show ?thesis
    by (auto simp: listener_inv_def)
next
  case (delete j)
  obtain name l c fd k1 where d: "sockFd s j = Some fd" "CloseFd api fd (the_kernel s) = Inr k1"
    "t = set_kernel k1 (s\<lparr>sockFd := (sockFd s)(j := None)\<rparr>)"
    using Connection_delete_cases [OF delete(2)] by metis
  have spec: "sock_spec opened api" and x: "exclusive base (descriptor s) (opened (the_kernel s))"
    using i by (simp_all add: listener_inv_def)
  have "descriptor s (Connection j) = Some fd" using d(1) by (simp add: descriptor_def)
  from exclusive_close(2) [OF x this] CloseFd_cases(2) [OF spec d(2)]
  have "exclusive base (descriptor t) (opened (the_kernel t))" by (simp add: d(3) descriptor_socket)
  with i delete(1) show ?thesis by (auto simp: listener_inv_def d(3) unreferenced_def)
next
  case (other_calls k1)
  with i show ?thesis by (simp add: listener_inv_def)
qed

interpretation listener: invariant "listener_init opened api ctl base sw script n"
  "listener_step opened api (the_env sw script OtherLoop depth)"
  "\<lambda>s. write_spec sw \<and> script_fits script \<and> listener_inv opened api base n s" for opened api ctl base sw script n depth
proof unfold_locales
  fix s assume "listener_init opened api ctl base sw script n s"
  then show "write_spec sw \<and> script_fits script \<and> listener_inv opened api base n s"
    using listener_init_inv [of opened api ctl base sw script n s] unfolding listener_init_def by blast
qed (use listener_step_inv [OF _ call_back_keeps the_env_grows] in blast)


section \<open>The end of the server\<close>

text \<open>
  The destructor of \<^verbatim>\<open>TcpServer\<close> and then that of its member \<^verbatim>\<open>acceptor_\<close>; the poller is what is left of the acceptor.
\<close>

definition Listener_destroy :: "'k sock_api \<Rightarrow> 'k epoll_ctl \<Rightarrow> 'c conn_env \<Rightarrow> bool \<Rightarrow> ('k, 'c) Listener \<Rightarrow>
    ((unit, 'k) Poller \<times> 'c TcpServer) res" where
  "Listener_destroy api ctl env inLoop s =
     rbind (TcpServer_destroy env inLoop (srv s)) (\<lambda>t.
     rbind (Acceptor_destroy api ctl inLoop (acc s)) (\<lambda>p. Inr (p, t)))"

lemma RemoveFromPoller_opened:
  assumes "\<forall>op fd ev. same_fds opened (ctl op fd ev)" "RemoveFromPoller ctl inLoop a p = Inr q"
  shows "opened (kernel q) = opened (kernel p)"
proof -
  have "\<exists>op fd ev. kernel q = snd (ctl op fd ev (kernel p))"
    using assms(2) by (auto simp: RemoveFromPoller_def Loop_RemoveChannel_def Poller_RemoveChannel_def
        deref_def set_chan_def res_simps Let_def split: option.splits prod.splits if_splits) (metis sndI)+
  then obtain op fd ev where q: "kernel q = snd (ctl op fd ev (kernel p))" by blast
  have "same_fds opened (ctl op fd ev)" using assms(1) by blast
  from same_fdsD [OF this] q show ?thesis by simp
qed

lemma Acceptor_destroy_exclusive:
  assumes spec: "sock_spec opened api" and ctl: "\<forall>op fd ev. same_fds opened (ctl op fd ev)"
    and x: "exclusive base (acceptor_fd a m) (opened (kernel (ap a)))" and r: "Acceptor_destroy api ctl inLoop a = Inr p"
  shows "opened (kernel p) = base \<union> ran m"
proof -
  obtain p1 p2 k3 p4 k5 where s: "change_events ctl inLoop DisableAll (listenChannel a) (ap a) = Inr p1"
    "RemoveFromPoller ctl inLoop (listenChannel a) p1 = Inr p2" "CloseFd api (placeholderFd a) (kernel p2) = Inr k3"
    "Channel_destroy (listenChannel a) (p2\<lparr>kernel := k3\<rparr>) = Inr p4" "CloseFd api (listenFd a) (kernel p4) = Inr k5"
    "p = p4\<lparr>kernel := k5\<rparr>"
    using r by (auto simp: Acceptor_destroy_def on_kernel_def res_simps)
  have "kernel p4 = k3" using s(4) by (auto simp: Channel_destroy_def deref_def res_simps split: option.splits)
  then have c: "placeholderFd a \<in> opened (kernel p2)" "opened k3 = opened (kernel p2) - {placeholderFd a}"
    "listenFd a \<in> opened k3" "opened k5 = opened k3 - {listenFd a}"
    using CloseFd_cases [OF spec s(3)] CloseFd_cases [OF spec s(5)] by simp_all
  have k: "opened (kernel p2) = opened (kernel (ap a))"
    using change_events_opened [OF ctl s(1)] RemoveFromPoller_opened [OF ctl s(2)] by simp
  have "acceptor_fd a m Placeholder = Some (placeholderFd a)" using opened_nonneg [OF spec c(1)] by simp
  from exclusive_close(2) [OF x this] c(2) k
  have "exclusive base ((acceptor_fd a m)(Placeholder := None)) (opened k3)" by simp
  from exclusive_close(2) [OF this, of Listening "listenFd a"] c(4)
  have "exclusive base ((acceptor_fd a m)(Placeholder := None, Listening := None)) (opened k5)" by simp
  moreover have "ran ((acceptor_fd a m)(Placeholder := None, Listening := None)) = ran m" (is "ran ?m = _")
  proof
    show "ran ?m \<subseteq> ran m"
    proof
      fix fd assume "fd \<in> ran ?m"
      then obtain h where "?m h = Some fd" by (auto simp: ran_def)
      then show "fd \<in> ran m" by (cases h) (auto intro: ranI)
    qed
    show "ran m \<subseteq> ran ?m"
    proof
      fix fd assume "fd \<in> ran m"
      then obtain i where "?m (Connection i) = Some fd" by (auto simp: ran_def)
      then show "fd \<in> ran ?m" by (rule ranI)
    qed
  qed
  ultimately show ?thesis by (simp add: exclusive_def s(6))
qed

text \<open>After the server only the connections that a user or a functor still holds have their descriptors.\<close>

lemma Listener_destroy_descriptors:
  assumes "reach (listener_init opened api ctl base sw script n)
      (listener_step opened api (the_env sw script OtherLoop depth)) s"
    and "\<forall>op fd ev. same_fds opened (ctl op fd ev)" and "Listener_destroy api ctl env True s = Inr (p, t)"
  shows "opened (kernel p) = base \<union> ran (sockFd s)"
proof -
  have "listener_inv opened api base n s" using listener.reach_inv [OF assms(1)] by blast
  then have spec: "sock_spec opened api" and "exclusive base (acceptor_fd (acc s) (sockFd s)) (opened (kernel (ap (acc s))))"
    by (simp_all add: listener_inv_def descriptor_def the_kernel_def)
  moreover have "Acceptor_destroy api ctl True (acc s) = Inr p"
    using assms(3) by (auto simp: Listener_destroy_def res_simps)
  ultimately show ?thesis using Acceptor_destroy_exclusive [OF spec assms(2)] by blast
qed

section \<open>The property\<close>


text \<open>
  A kernel that numbers its descriptors: its state is the next number and the numbers given out and not closed.  A server
  with two threads is made and started on it, and a peer connects.
\<close>

definition count_open :: "nat \<times> int list \<Rightarrow> int set" where
  "count_open k = {fd \<in> set (snd k). 0 \<le> fd \<and> fd < int (fst k)}"

definition count_new :: "nat \<times> int list \<Rightarrow> int \<times> nat \<times> int list" where
  "count_new k = (int (fst k), Suc (fst k), int (fst k) # snd k)"

definition count_api :: "(nat \<times> int list) sock_api" where
  "count_api = \<lparr>sys_socket = count_new,
     sys_close = (\<lambda>fd k. (if fd \<in> count_open k then 0 else - 1, (fst k, filter (\<lambda>x. x \<noteq> fd) (snd k)))),
     sys_connect = (\<lambda>fd a k. (ConnREFUSED, k)), sys_bind = (\<lambda>fd a k. (0, k)), sys_listen = (\<lambda>fd k. (0, k)),
     sys_accept = (\<lambda>fd k. let (c, k1) = count_new k in ((c, demo_peer, AcceptOk), k1)),
     sys_shutdown = (\<lambda>fd k. (0, k)), sys_setsockopt = (\<lambda>fd opt v k. (0, k)),
     sys_getsockopt_error = (\<lambda>fd k. Some 0), sys_getsockname = (\<lambda>fd k. Some demo_peer),
     sys_getpeername = (\<lambda>fd k. Some demo_peer), sys_open_null = count_new\<rparr>"

lemma count_spec: "sock_spec count_open count_api"
proof -
  have "new_fd_spec count_open count_new" by (auto simp: new_fd_spec_def count_new_def count_open_def)
  then show ?thesis
    by (auto simp: sock_spec_def count_api_def close_spec_def same_fds_def count_open_def new_fd_spec_def count_new_def)
qed


definition count_ctl :: "(nat \<times> int list) epoll_ctl" where
  "count_ctl op fd ev k = (0, k)"

lemma reach_serve:
  assumes "reach I (listener_step opened api env) s" "server_step env (srv s) u" "connCount u = connCount (srv s)"
    and "\<And>i. sockFd s i = None \<Longrightarrow> conns u i = conns (srv s) i"
  shows "reach I (listener_step opened api env) (s\<lparr>srv := u\<rparr>)"
  using assms by (blast intro: reach_step listener_step.serve)

text \<open>A connection is established, the peer closes it, the main loop removes it and the I/O loop destroys it.\<close>

lemma connection_life:
  assumes r: "reach I (listener_step opened api (the_env one_byte no_calls OtherLoop 1)) s"
    and c: "conns (srv s) i = Some (name, l, conn_fresh fresh_buffer wc msg False)" "establishing (srv s) = [i]"
      "sockFd s i = Some fd"
  shows "\<exists>u c. reach I (listener_step opened api (the_env one_byte no_calls OtherLoop 1)) (s\<lparr>srv := u\<rparr>) \<and>
    unreferenced i (s\<lparr>srv := u\<rparr>) \<and> conns u i = Some (name, l, c) \<and> \<not> lateForce c"
proof -
  let ?env = "the_env one_byte no_calls OtherLoop 1"
  let ?R = "reach I (listener_step opened api ?env)"
  let ?c0 = "conn_fresh fresh_buffer wc msg False :: unit TcpConnection"
  obtain b where b: "ReadFd (\<lambda>_. Some []) fresh_buffer = Inr (0, b)" using eof_read [of fresh_buffer] by auto
  let ?c1 = "?c0\<lparr>tstate := kConnected, chEvents := 1, chInPoller := True, calls := [EvConnection]\<rparr>"
  let ?c2 = "?c1\<lparr>tstate := kDisconnected, chEvents := 0, inputBuffer := b, calls := [EvConnection, EvClose], closes := 1\<rparr>"
  let ?c3 = "enqueue TaskDestroy (?c2\<lparr>closes := closes ?c2 - 1\<rparr>)"
  let ?c4 = "?c2\<lparr>closes := 0, chInPoller := False, destroyed := 1, calls := [EvConnection, EvClose, EvConnection]\<rparr>"
  define u1 where "u1 = set_conn i ?c1 ((srv s)\<lparr>establishing := []\<rparr>)"
  define u2 where "u2 = set_conn i ?c2 u1"
  define u3 where "u3 = set_conn i ?c3 (u2\<lparr>connections := map_erase name (connections u2), removed := insert i (removed u2)\<rparr>)"
  define u4 where "u4 = set_conn i ?c4 u3"
  have l: "conns u1 i = Some (name, l, ?c1)" "conns u2 i = Some (name, l, ?c2)" "conns u3 i = Some (name, l, ?c3)"
    "conns u4 i = Some (name, l, ?c4)" using c(1) by (simp_all add: u1_def u2_def u3_def u4_def set_conn_def)
  have n: "connCount u1 = connCount (srv s)" "connCount u2 = connCount u1" "connCount u3 = connCount u2" "connCount u4 = connCount u3"
    using c(1) l by (simp_all add: u1_def u2_def u3_def u4_def set_conn_def)
  have o: "conns u1 j = conns (srv s) j" "conns u2 j = conns u1 j" "conns u3 j = conns u2 j" "conns u4 j = conns u3 j" if "j \<noteq> i" for j
    using that c(1) l by (simp_all add: u1_def u2_def u3_def u4_def set_conn_def split: option.split)
  have "ConnectionEstablished ?env True ?c0 = Inr ?c1" by (simp add: conn_eval)
  from server_step.established [of i "srv s" name l ?c0, OF _ c(1) this] c(2)
  have s1: "server_step ?env (srv s) u1" by (simp add: u1_def)
  have "conn_HandleEvent ?env EPOLLIN (\<lambda>_. Some []) ?c1 = Inr ?c2"
    using b by (simp add: conn_HandleEvent_def Tcp.HandleRead_def HandleError_def conn_eval)
  then have "io_step ?env ?c1 ?c2"
    by (rule io_event [rotated 2]) (simp_all add: readv_spec_def conn_fresh_def extrabufSize_def vector_max_def)
  from server_step.io [OF l(1) this] have s2: "server_step ?env u1 u2" by (simp add: u2_def)
  have s3: "server_step ?env u2 u3"
    by (rule server_step.removal [OF l(2)]) (use l(2) in \<open>simp_all add: RemoveConnectionInLoop_def u3_def\<close>)
  have "run_task ?env ?c3 = Inr ?c4" by (simp add: run_task_def conn_eval)
  then have "io_step ?env ?c3 ?c4" by (rule io_task)
  from server_step.io [OF l(3) this] have s4: "server_step ?env u3 u4" by (simp add: u4_def)
  have ne: "sockFd s j = None \<Longrightarrow> j \<noteq> i" for j using c(3) by auto
  have "?R (s\<lparr>srv := u1\<rparr>)" using reach_serve [OF r s1 n(1)] o(1) ne by blast
  then have "?R (s\<lparr>srv := u2\<rparr>)" using reach_serve [of I opened api ?env "s\<lparr>srv := u1\<rparr>" u2] s2 n(2) o(2) ne by simp
  then have "?R (s\<lparr>srv := u3\<rparr>)" using reach_serve [of I opened api ?env "s\<lparr>srv := u2\<rparr>" u3] s3 n(3) o(3) ne by simp
  then have "?R (s\<lparr>srv := u4\<rparr>)" using reach_serve [of I opened api ?env "s\<lparr>srv := u3\<rparr>" u4] s4 n(4) o(4) ne by simp
  moreover have "i \<in> removed u4" "establishing u4 = []"
    using l c(1) by (simp_all add: u1_def u2_def u3_def u4_def set_conn_def)
  ultimately show ?thesis using l(4) by (intro exI [of _ u4] exI [of _ ?c4]) (auto simp: unreferenced_def conn_fresh_def)
qed


definition count_acceptor :: "(unit, nat \<times> int list) Acceptor" where
  "count_acceptor =
     \<lparr>ap = \<lparr>loopId = 7, chans = (\<lambda>a. None)(0 \<mapsto> \<lparr>ownerLoop = 7, registeredToPoller = True, chFd = 0, events = 1, revents = 0,
          readCallback = Some (), writeCallback = None, closeCallback = None, errorCallback = None\<rparr>),
        kernel = (2, [1, 0]), channels = [(0, 0)], eventListSize = 16\<rparr>,
      listening = True, listenFd = 0, listenChannel = 0, placeholderFd = 1, acceptCallback = True, given = []\<rparr>"

lemma count_start:
  "\<exists>s :: (nat \<times> int list, unit) Listener. listener_init count_open count_api count_ctl {} one_byte no_calls 2 s \<and>
    acc s = count_acceptor \<and> sockFd s = (\<lambda>i. None) \<and> establishing (srv s) = [] \<and> connCount (srv s) = 0"
proof -
  let ?p = "\<lparr>loopId = 7, chans = (\<lambda>a. None), kernel = (0, []), channels = [], eventListSize = 16\<rparr> :: (unit, nat \<times> int list) Poller"
  obtain t :: "unit TcpServer" where t: "TcpServer_Start True (int 2) False (TcpServer_new ''echo'') = Inr t"
    "establishing t = []" "connCount t = 0"
    unfolding server_started by (simp add: TcpServer_new_def)
  obtain s0 :: "(nat \<times> int list, unit) Listener" where s0: "Listener_new count_api 0 demo_peer True ''echo'' ?p = Inr s0"
    "srv s0 = TcpServer_new ''echo''" "sockFd s0 = (\<lambda>i. None)"
    "Acceptor_Listen count_api count_ctl True (acc s0) = Inr count_acceptor"
    by (simp add: Listener_new_def Acceptor_new_def CreateSocketFd_def Channel_create_def Channel_new_def set_chan_def Socket_Bind_def
        SetOption_def SetReadCallback_def deref_def Acceptor_Listen_def on_kernel_def Socket_Listen_def change_events_def
        RegisterToPoller_def Loop_UpdateChannel_def Poller_UpdateChannel_def count_api_def count_new_def count_ctl_def
        count_acceptor_def map_set_def mask_defs)
  have "Listener_Start count_api count_ctl True (int 2) False s0 = Inr (s0\<lparr>acc := count_acceptor, srv := t\<rparr>)"
    using s0 t(1) by (simp add: Listener_Start_def TcpServer_new_def)
  then have "listener_init count_open count_api count_ctl {} one_byte no_calls 2 (s0\<lparr>acc := count_acceptor, srv := t\<rparr>)"
    unfolding listener_init_def using s0(1) count_spec one_byte_spec
    by (intro conjI exI [of _ 0] exI [of _ demo_peer] exI [of _ True] exI [of _ "''echo''"] exI [of _ False] exI [of _ ?p] exI [of _ s0])
      (auto simp: same_fds_def count_ctl_def count_open_def)
  with s0(3) t(2,3) show ?thesis by (intro exI conjI) (assumption | simp)+
qed


end
