(* ===== verification/Logging.thy ===== *)
theory Logging
  imports Time
begin

text \<open>
  Logging: \<^verbatim>\<open>src/logger/Logger.h\<close>, \<^verbatim>\<open>src/logger/Logger.cc\<close>, \<^verbatim>\<open>src/utils/FileUtil.h\<close>,
  \<^verbatim>\<open>src/utils/FileUtil.cc\<close>, \<^verbatim>\<open>src/logger/LogFile.h\<close> and \<^verbatim>\<open>src/logger/LogFile.cc\<close>.

  Clock readings, \<^verbatim>\<open>localtime_r\<close>, \<^verbatim>\<open>mktime\<close> and \<^verbatim>\<open>fwrite_unlocked\<close> are arguments.
\<close>

section \<open>The front end\<close>

datatype LogLevel = TRACE | DEBUG | INFO | WARN | ERROR | FATAL | NONE

fun level_number :: "LogLevel \<Rightarrow> nat" where
  "level_number TRACE = 0"
| "level_number DEBUG = 1"
| "level_number INFO = 2"
| "level_number WARN = 3"
| "level_number ERROR = 4"
| "level_number FATAL = 5"
| "level_number NONE = 6"

fun logLevelName :: "LogLevel \<Rightarrow> string" where
  "logLevelName TRACE = ''TRACE''"
| "logLevelName DEBUG = ''DEBUG''"
| "logLevelName INFO = ''INFO''"
| "logLevelName WARN = ''WARN''"
| "logLevelName ERROR = ''ERROR''"
| "logLevelName FATAL = ''FATAL''"
| "logLevelName NONE = ''NONE''"

text \<open>The conditions of the macros; \<open>LOG_SYSERROR\<close> is as \<open>LOG_ERROR\<close> and \<open>LOG_SYSFATAL\<close> as \<open>LOG_FATAL\<close>.\<close>

fun log_enabled :: "bool \<Rightarrow> LogLevel \<Rightarrow> LogLevel \<Rightarrow> bool" where
  "log_enabled ndebug g TRACE = (level_number g \<le> level_number TRACE)"
| "log_enabled ndebug g DEBUG = (\<not> ndebug \<and> level_number g \<le> level_number DEBUG)"
| "log_enabled ndebug g INFO = (level_number g \<le> level_number INFO)"
| "log_enabled ndebug g WARN = (g \<noteq> NONE)"
| "log_enabled ndebug g ERROR = (g \<noteq> NONE)"
| "log_enabled ndebug g FATAL = True"
| "log_enabled ndebug g NONE = False"

text \<open>The head of a record; \<open>strerror\<close> is \<^verbatim>\<open>strerror_r\<close>.\<close>

definition Logger_head :: "(int \<Rightarrow> string) \<Rightarrow> string \<Rightarrow> int \<Rightarrow> LogLevel \<Rightarrow> string \<Rightarrow> int \<Rightarrow> int \<Rightarrow> string" where
  "Logger_head strerror time tid level file line savedErrno =
     ''['' @ time @ '' '' @ show_int tid @ '' '' @ logLevelName level @ '' '' @ file @ [CHR 0x3A] @
     show_int line @ ''] '' @
     (if savedErrno \<noteq> 0
      then ''(errno '' @ show_int savedErrno @ [CHR 0x3A, CHR 0x20] @ strerror savedErrno @ '') '' else [])"

text \<open>
  The destructor hands the line to the output function; a fatal record flushes and aborts.  \<open>flushed\<close>
  says that the flush function was called.
\<close>

record LogSink =
  logged :: string
  flushed :: bool

definition Logger_destroy :: "LogLevel \<Rightarrow> string \<Rightarrow> LogSink \<Rightarrow> fault option \<times> LogSink" where
  "Logger_destroy level stream s =
     (let s1 = s\<lparr>logged := logged s @ stream @ [CHR 0x0A]\<rparr> in
      if level = FATAL then (Some Fatal, s1\<lparr>flushed := True\<rparr>) else (None, s1))"

text \<open>A log statement.\<close>

definition log_record :: "(int \<Rightarrow> string) \<Rightarrow> string \<Rightarrow> int \<Rightarrow> bool \<Rightarrow> LogLevel \<Rightarrow> LogLevel \<Rightarrow> string \<Rightarrow> int \<Rightarrow> int \<Rightarrow> string \<Rightarrow>
    LogSink \<Rightarrow> fault option \<times> LogSink" where
  "log_record strerror time tid ndebug g level file line savedErrno msg s =
     (if log_enabled ndebug g level
      then Logger_destroy level (Logger_head strerror time tid level file line savedErrno @ msg) s
      else (None, s))"

section \<open>AppendFile\<close>

text \<open>
  \<open>fileContent\<close> is what has reached the stream.  \<open>fw i n\<close> is the answer of the call number \<open>i\<close> of
  \<^verbatim>\<open>fwrite_unlocked\<close> for \<open>n\<close> bytes; \<open>fwrites\<close> counts the calls.
\<close>

record AppendFile =
  fileContent :: string
  writtenBytes :: nat
  fwrites :: nat

definition AppendFile_new :: AppendFile where
  "AppendFile_new = \<lparr>fileContent = [], writtenBytes = 0, fwrites = 0\<rparr>"

definition fwrite_spec :: "(nat \<Rightarrow> nat \<Rightarrow> nat) \<Rightarrow> bool" where
  "fwrite_spec fw \<longleftrightarrow> (\<forall>i n. fw i n \<le> n)"

text \<open>
  The loop.  Every call starts at \<open>line\<close> again: the pointer is not advanced after a short write.  A
  count above what was asked for cannot be; the model stops there.
\<close>

function Append_loop :: "(nat \<Rightarrow> nat \<Rightarrow> nat) \<Rightarrow> string \<Rightarrow> nat \<Rightarrow> AppendFile \<Rightarrow> AppendFile" where
  "Append_loop fw line remain f =
     (let n = fw (fwrites f) remain;
          f1 = f\<lparr>fwrites := Suc (fwrites f), fileContent := fileContent f @ take n line\<rparr> in
      if n = 0 then f1\<lparr>writtenBytes := writtenBytes f + (length line - remain)\<rparr>
      else if n < remain then Append_loop fw line (remain - n) f1
      else f1\<lparr>writtenBytes := writtenBytes f + length line\<rparr>)"
  by pat_completeness auto
termination by (relation "measure (\<lambda>(fw, line, remain, f). remain)") auto

declare Append_loop.simps [simp del]

definition AppendFile_Append :: "(nat \<Rightarrow> nat \<Rightarrow> nat) \<Rightarrow> string \<Rightarrow> AppendFile \<Rightarrow> AppendFile" where
  "AppendFile_Append fw line f = Append_loop fw line (length line) f"

section \<open>LogFile\<close>

text \<open>
  \<open>closed\<close> are the files before the current one, with their names; the current file is \<open>cur\<close>, named \<open>curName\<close>.
\<close>

record LogFile =
  basename :: string
  rollsize :: nat
  flushInterval :: int
  checkEveryNAppend :: int
  appendCount :: int
  lastRoll :: Timestamp
  lastFlush :: Timestamp
  currentPeriod :: Timestamp
  closed :: "(string \<times> AppendFile) list"
  curName :: string
  cur :: "AppendFile option"
  flushes :: nat

text \<open>What the log file asks its surroundings: rounding, the calendar, the process number and \<^verbatim>\<open>fwrite\<close>.\<close>

record log_env =
  rounding :: "real \<Rightarrow> real"
  localtime :: "int \<Rightarrow> tm"
  mktime :: "tm \<Rightarrow> int"
  pid :: int
  fwrite :: "nat \<Rightarrow> nat \<Rightarrow> nat"

definition FormattedName :: "log_env \<Rightarrow> Timestamp \<Rightarrow> string \<Rightarrow> string" where
  "FormattedName env time base =
     base @ ''.'' @ ToFormattedString (localtime env) False time @ ''.'' @ show_int (pid env) @ ''.log''"

text \<open>\<open>now\<close> is the clock reading of the function.  The old file is closed by \<^verbatim>\<open>reset\<close>.\<close>

definition RollFileUnlocked :: "log_env \<Rightarrow> Timestamp \<Rightarrow> LogFile \<Rightarrow> LogFile res" where
  "RollFileUnlocked env now s =
     ensure (op_greater ts_less now (lastRoll s))
       (rbind (SecondsDifference (rounding env) now (lastRoll s)) (\<lambda>d.
          if d < 1 then Inr s
          else rbind (RoundByDay (localtime env) (mktime env) now) (\<lambda>day.
            Inr (s\<lparr>lastRoll := now, lastFlush := now, currentPeriod := day,
                   closed := (case cur s of None \<Rightarrow> closed s | Some f \<Rightarrow> closed s @ [(curName s, f)]),
                   curName := FormattedName env now (basename s), cur := Some AppendFile_new\<rparr>))))"

definition LogFile_new :: "log_env \<Rightarrow> Timestamp \<Rightarrow> string \<Rightarrow> nat \<Rightarrow> int \<Rightarrow> int \<Rightarrow> LogFile res" where
  "LogFile_new env now base roll flushInt check =
     ensure (CHR ''/'' \<notin> set base)
       (RollFileUnlocked env now
          \<lparr>basename = base, rollsize = roll, flushInterval = flushInt, checkEveryNAppend = check,
           appendCount = 0, lastRoll = Timestamp 0, lastFlush = Timestamp 0, currentPeriod = Timestamp 0,
           closed = [], curName = [], cur = None, flushes = 0\<rparr>)"

definition LogFile_Flush :: "LogFile \<Rightarrow> LogFile res" where
  "LogFile_Flush s = require (cur s \<noteq> None) (Inr (s\<lparr>flushes := Suc (flushes s)\<rparr>))"

text \<open>The check of the period and of the flush interval; \<open>now\<close> and \<open>now2\<close> are the two clock readings.\<close>

definition periodic_check :: "log_env \<Rightarrow> Timestamp \<Rightarrow> Timestamp \<Rightarrow> LogFile \<Rightarrow> LogFile res" where
  "periodic_check env now now2 s =
     (let s1 = s\<lparr>appendCount := 0\<rparr> in
      rbind (RoundByDay (localtime env) (mktime env) now) (\<lambda>startOfToday.
        if ts_less (currentPeriod s1) startOfToday then
          rbind (RollFileUnlocked env now2 s1) (\<lambda>s2. Inr (s2\<lparr>currentPeriod := startOfToday\<rparr>))
        else
          rbind (SecondsDifference (rounding env) now (lastFlush s1)) (\<lambda>d.
            if d \<ge> of_int (flushInterval s1)
            then rbind (LogFile_Flush s1) (\<lambda>s2. Inr (s2\<lparr>lastFlush := now\<rparr>))
            else Inr s1)))"

definition AppendUnlocked :: "log_env \<Rightarrow> Timestamp \<Rightarrow> Timestamp \<Rightarrow> string \<Rightarrow> LogFile \<Rightarrow> LogFile res" where
  "AppendUnlocked env now now2 line s =
     (case cur s of
        None \<Rightarrow> Inl Undefined
      | Some f \<Rightarrow>
          rbind (if sz_add (writtenBytes f) (length line) > rollsize s
                 then rbind (RollFileUnlocked env now2 s) (\<lambda>s1. Inr (s1\<lparr>appendCount := 0\<rparr>))
                 else if appendCount s \<ge> checkEveryNAppend s then periodic_check env now now2 s
                 else Inr s) (\<lambda>s1.
          case cur s1 of
            None \<Rightarrow> Inl Undefined
          | Some f1 \<Rightarrow> Inr (s1\<lparr>cur := Some (AppendFile_Append (fwrite env) line f1),
                               appendCount := appendCount s1 + 1\<rparr>)))"

definition LogFile_Append :: "log_env \<Rightarrow> Timestamp \<Rightarrow> Timestamp \<Rightarrow> string \<Rightarrow> LogFile \<Rightarrow> LogFile res" where
  "LogFile_Append env now now2 line s = (if line = [] then Inr s else AppendUnlocked env now now2 line s)"

section \<open>Surroundings of the log file\<close>

text \<open>
  The calendar: the start of a day is at most 25 hours before a moment of that day.
\<close>

definition log_env_ok :: "log_env \<Rightarrow> bool" where
  "log_env_ok env \<longleftrightarrow> double_rounding (rounding env) \<and> fwrite_spec (fwrite env) \<and>
     (\<forall>s\<ge>0. let day = mktime env ((localtime env s)\<lparr>tm_hour := 0, tm_min := 0, tm_sec := 0\<rparr>)
             in s - 90000 \<le> day \<and> day \<le> s)"

text \<open>Clock readings are after the first second of the epoch.\<close>

definition clock_reading :: "Timestamp \<Rightarrow> bool" where
  "clock_reading t \<longleftrightarrow> kMicrosecondsPerSecond \<le> MicrosecondsSinceEpoch t \<and> i64_ok (MicrosecondsSinceEpoch t)"

definition fwrite_all :: "(nat \<Rightarrow> nat \<Rightarrow> nat) \<Rightarrow> bool" where
  "fwrite_all fw \<longleftrightarrow> (\<forall>i n. fw i n = n)"

definition log_text :: "LogFile \<Rightarrow> string" where
  "log_text s = concat (map (\<lambda>(n, f). fileContent f) (closed s)) @ (case cur s of None \<Rightarrow> [] | Some f \<Rightarrow> fileContent f)"

text \<open>The state between operations.\<close>

definition LogFile_ok :: "LogFile \<Rightarrow> bool" where
  "LogFile_ok s \<longleftrightarrow> cur s \<noteq> None \<and> 0 \<le> MicrosecondsSinceEpoch (lastRoll s) \<and> i64_ok (MicrosecondsSinceEpoch (lastRoll s)) \<and>
     0 \<le> MicrosecondsSinceEpoch (lastFlush s) \<and> i64_ok (MicrosecondsSinceEpoch (lastFlush s))"

lemma AppendFile_Append_all:
  assumes "fwrite_all fw"
  shows "AppendFile_Append fw line f =
    f\<lparr>fileContent := fileContent f @ line, writtenBytes := writtenBytes f + length line, fwrites := Suc (fwrites f)\<rparr>"
  using assms by (simp add: AppendFile_Append_def Append_loop.simps [of fw line "length line"] fwrite_all_def Let_def)

text \<open>Clock readings do not overflow the differences and the rounding.\<close>

lemma RoundByDay_ok:
  assumes "log_env_ok env" and "0 \<le> MicrosecondsSinceEpoch t" "i64_ok (MicrosecondsSinceEpoch t)"
  shows "\<exists>d. RoundByDay (localtime env) (mktime env) t = Inr d"
proof -
  let ?s = "SecondsSinceEpoch t" and ?day = "mktime env ((localtime env (SecondsSinceEpoch t))\<lparr>tm_hour := 0, tm_min := 0, tm_sec := 0\<rparr>)"
  have s: "?s = MicrosecondsSinceEpoch t div 1000000"
    using assms(2) by (simp add: SecondsSinceEpoch_def kMicrosecondsPerSecond_def cdiv_nonneg)
  then have "0 \<le> ?s" using assms(2) by (simp add: pos_imp_zdiv_nonneg_iff)
  then have d: "?s - 90000 \<le> ?day" "?day \<le> ?s" using assms(1) by (auto simp: log_env_ok_def Let_def)
  have "1000000 * ?s \<le> MicrosecondsSinceEpoch t" unfolding s by simp
  then have "i64_ok (1000000 * ?day)" using d \<open>0 \<le> ?s\<close> assms(3) by (simp add: i64_ok_def)
  then show ?thesis by (simp add: RoundByDay_def Let_def i64_def kMicrosecondsPerSecond_def)
qed

lemma SecondsDifference_ok:
  assumes "0 \<le> MicrosecondsSinceEpoch t" "i64_ok (MicrosecondsSinceEpoch t)"
    "0 \<le> MicrosecondsSinceEpoch u" "i64_ok (MicrosecondsSinceEpoch u)"
  shows "\<exists>d. SecondsDifference fl t u = Inr d"
  using assms by (simp add: SecondsDifference_def i64_def i64_ok_def)

lemma SecondsDifference_ge_1:
  assumes "double_rounding fl" and "MicrosecondsSinceEpoch u + 1000000 \<le> MicrosecondsSinceEpoch t"
    and "SecondsDifference fl t u = Inr d"
  shows "1 \<le> d"
proof -
  let ?x = "MicrosecondsSinceEpoch t - MicrosecondsSinceEpoch u"
  have "mono fl" using assms(1) by (simp add: double_rounding_def)
  have "fl (of_int 1000000) \<le> fl (of_int ?x)" by (rule monoD [OF \<open>mono fl\<close>]) (use assms(2) in linarith)
  then have "1 \<le> fl (of_int ?x) / 1000000" using double_rounding_int [OF assms(1), of 1000000] by simp
  then have "fl (of_int 1) \<le> fl (fl (of_int ?x) / 1000000)" using monoD [OF \<open>mono fl\<close>] by simp
  then show ?thesis using assms(3) double_rounding_int [OF assms(1), of 1]
    by (simp add: SecondsDifference_def res_simps kMicrosecondsPerSecond_def)
qed

text \<open>An operation that establishes \<open>P\<close>, or fails an assertion because of \<open>Q\<close>.\<close>

definition or_assert :: "bool \<Rightarrow> ('a \<Rightarrow> bool) \<Rightarrow> 'a res \<Rightarrow> bool" where
  "or_assert Q P m \<longleftrightarrow> (m = Inl Assertion \<and> Q) \<or> (\<exists>x. m = Inr x \<and> P x)"

lemma or_assert_simps [simp]: "or_assert Q P (Inr x) = P x" "or_assert Q P (Inl e) \<longleftrightarrow> e = Assertion \<and> Q"
  by (auto simp: or_assert_def)

lemma or_assert_rbind:
  "or_assert Q P m \<Longrightarrow> (\<And>x. m = Inr x \<Longrightarrow> P x \<Longrightarrow> or_assert Q P' (f x)) \<Longrightarrow> or_assert Q P' (rbind m f)"
  by (auto simp: or_assert_def)

lemma or_assert_Inr: "or_assert Q P m \<Longrightarrow> m = Inr x \<Longrightarrow> P x"
  by (simp add: or_assert_def)

lemma or_assert_mono: "or_assert Q P m \<Longrightarrow> (\<And>x. P x \<Longrightarrow> P' x) \<Longrightarrow> (Q \<Longrightarrow> Q') \<Longrightarrow> or_assert Q' P' m"
  by (auto simp: or_assert_def)

text \<open>A new file, or the old one when it is less than a second old.\<close>

definition rolled :: "log_env \<Rightarrow> Timestamp \<Rightarrow> LogFile \<Rightarrow> LogFile \<Rightarrow> bool" where
  "rolled env now s t \<longleftrightarrow> (\<exists>day. t = s\<lparr>lastRoll := now, lastFlush := now, currentPeriod := day,
     closed := (case cur s of None \<Rightarrow> closed s | Some f \<Rightarrow> closed s @ [(curName s, f)]),
     curName := FormattedName env now (basename s), cur := Some AppendFile_new\<rparr>)"

definition young :: "log_env \<Rightarrow> Timestamp \<Rightarrow> LogFile \<Rightarrow> bool" where
  "young env now s \<longleftrightarrow> (\<exists>d<1. SecondsDifference (rounding env) now (lastRoll s) = Inr d)"

lemma RollFileUnlocked_ok:
  assumes "log_env_ok env" and "clock_reading now"
    and "0 \<le> MicrosecondsSinceEpoch (lastRoll s)" "i64_ok (MicrosecondsSinceEpoch (lastRoll s))"
  shows "or_assert (\<not> lastRoll s < now) (\<lambda>t. t = s \<and> young env now s \<or> rolled env now s t) (RollFileUnlocked env now s)"
proof (cases "lastRoll s < now")
  case True
  have now: "0 \<le> MicrosecondsSinceEpoch now" "i64_ok (MicrosecondsSinceEpoch now)"
    using assms(2) by (simp_all add: clock_reading_def kMicrosecondsPerSecond_def)
  obtain d where d: "SecondsDifference (rounding env) now (lastRoll s) = Inr d"
    using SecondsDifference_ok [OF now assms(3,4)] by blast
  obtain day where day: "RoundByDay (localtime env) (mktime env) now = Inr day"
    using RoundByDay_ok [OF assms(1) now] by blast
  have "rolled env now s (s\<lparr>lastRoll := now, lastFlush := now, currentPeriod := day,
     closed := (case cur s of None \<Rightarrow> closed s | Some f \<Rightarrow> closed s @ [(curName s, f)]),
     curName := FormattedName env now (basename s), cur := Some AppendFile_new\<rparr>)"
    unfolding rolled_def by (rule exI) (rule refl)
  then show ?thesis using True d day by (simp add: RollFileUnlocked_def derived_operators young_def)
qed (simp add: RollFileUnlocked_def derived_operators)

lemma rolled_text: "rolled env now s t \<Longrightarrow> log_text t = log_text s"
  by (auto simp: rolled_def log_text_def AppendFile_new_def split: option.splits)

lemma rolled_ok: "rolled env now s t \<Longrightarrow> clock_reading now \<Longrightarrow> LogFile_ok t"
  by (auto simp: rolled_def LogFile_ok_def clock_reading_def kMicrosecondsPerSecond_def)

lemma roll_keeps: "clock_reading now \<Longrightarrow> LogFile_ok s \<Longrightarrow> t = s \<and> Y \<or> rolled env now s t \<Longrightarrow> LogFile_ok t \<and> log_text t = log_text s"
  using rolled_ok rolled_text by blast

lemma RollFileUnlocked_keeps:
  assumes "log_env_ok env" and "clock_reading now" and "LogFile_ok s"
  shows "or_assert (\<not> lastRoll s < now) (\<lambda>t. LogFile_ok t \<and> log_text t = log_text s) (RollFileUnlocked env now s)"
proof -
  have "or_assert (\<not> lastRoll s < now) (\<lambda>t. t = s \<and> young env now s \<or> rolled env now s t) (RollFileUnlocked env now s)"
    by (rule RollFileUnlocked_ok [OF assms(1,2)]) (use assms(3) in \<open>simp_all add: LogFile_ok_def\<close>)
  then show ?thesis by (rule or_assert_mono) (rule roll_keeps [OF assms(2,3)])
qed

lemma LogFile_ok_upd [simp]:
  "LogFile_ok (s\<lparr>appendCount := n\<rparr>) = LogFile_ok s" "LogFile_ok (s\<lparr>currentPeriod := x\<rparr>) = LogFile_ok s"
  "LogFile_ok (s\<lparr>flushes := m\<rparr>) = LogFile_ok s"
  "log_text (s\<lparr>appendCount := n\<rparr>) = log_text s" "log_text (s\<lparr>currentPeriod := x\<rparr>) = log_text s"
  "log_text (s\<lparr>flushes := m\<rparr>) = log_text s" "log_text (s\<lparr>lastFlush := x\<rparr>) = log_text s"
  by (simp_all add: LogFile_ok_def log_text_def)

lemma LogFile_ok_lastFlush [simp]:
  "0 \<le> MicrosecondsSinceEpoch x \<Longrightarrow> i64_ok (MicrosecondsSinceEpoch x) \<Longrightarrow> LogFile_ok s \<Longrightarrow> LogFile_ok (s\<lparr>lastFlush := x\<rparr>)"
  by (simp add: LogFile_ok_def)

lemma LogFile_Flush_ok: "LogFile_ok s \<Longrightarrow> LogFile_Flush s = Inr (s\<lparr>flushes := Suc (flushes s)\<rparr>)"
  by (simp add: LogFile_Flush_def LogFile_ok_def)

lemma periodic_check_keeps:
  assumes env: "log_env_ok env" and c: "clock_reading now" "clock_reading now2" and ok: "LogFile_ok s"
  shows "or_assert (\<not> lastRoll s < now2) (\<lambda>t. LogFile_ok t \<and> log_text t = log_text s) (periodic_check env now now2 s)"
proof -
  have now: "0 \<le> MicrosecondsSinceEpoch now" "i64_ok (MicrosecondsSinceEpoch now)"
    using c(1) by (simp_all add: clock_reading_def kMicrosecondsPerSecond_def)
  obtain day where day: "RoundByDay (localtime env) (mktime env) now = Inr day"
    using RoundByDay_ok [OF env now] by blast
  obtain d where d: "SecondsDifference (rounding env) now (lastFlush s) = Inr d"
    using SecondsDifference_ok [OF now] ok by (auto simp: LogFile_ok_def)
  let ?s = "s\<lparr>appendCount := 0\<rparr>"
  have "or_assert (\<not> lastRoll s < now2) (\<lambda>t. LogFile_ok t \<and> log_text t = log_text s)
      (rbind (RollFileUnlocked env now2 ?s) (\<lambda>s2. Inr (s2\<lparr>currentPeriod := day\<rparr>)))"
    by (rule or_assert_rbind [OF RollFileUnlocked_keeps [OF env c(2), of ?s, simplified, OF ok]]) simp
  then show ?thesis using day d ok now by (simp add: periodic_check_def LogFile_Flush_ok Let_def)
qed

lemma append_keeps:
  assumes "fwrite_all fw" and "cur s = Some f" and "LogFile_ok s"
  shows "LogFile_ok (s\<lparr>cur := Some (AppendFile_Append fw line f), appendCount := n\<rparr>)"
    "log_text (s\<lparr>cur := Some (AppendFile_Append fw line f), appendCount := n\<rparr>) = log_text s @ line"
  using assms by (simp_all add: LogFile_ok_def log_text_def AppendFile_Append_all)

lemma LogFile_Append_keeps:
  assumes env: "log_env_ok env" "fwrite_all (fwrite env)" and c: "clock_reading now" "clock_reading now2"
    and ok: "LogFile_ok s"
  shows "or_assert (\<not> lastRoll s < now2) (\<lambda>t. LogFile_ok t \<and> log_text t = log_text s @ line) (LogFile_Append env now now2 line s)"
proof -
  obtain f where f: "cur s = Some f" using ok by (auto simp: LogFile_ok_def)
  let ?m = "if sz_add (writtenBytes f) (length line) > rollsize s
     then rbind (RollFileUnlocked env now2 s) (\<lambda>s1. Inr (s1\<lparr>appendCount := 0\<rparr>))
     else if appendCount s \<ge> checkEveryNAppend s then periodic_check env now now2 s else Inr s"
  have "or_assert (\<not> lastRoll s < now2) (\<lambda>t. LogFile_ok t \<and> log_text t = log_text s)
     (rbind (RollFileUnlocked env now2 s) (\<lambda>s1. Inr (s1\<lparr>appendCount := 0\<rparr>)))"
    by (rule or_assert_rbind [OF RollFileUnlocked_keeps [OF env(1) c(2) ok]]) simp
  then have "or_assert (\<not> lastRoll s < now2) (\<lambda>t. LogFile_ok t \<and> log_text t = log_text s) ?m"
    using periodic_check_keeps [OF env(1) c ok] ok by simp
  then have "or_assert (\<not> lastRoll s < now2) (\<lambda>t. LogFile_ok t \<and> log_text t = log_text s @ line) (AppendUnlocked env now now2 line s)"
    unfolding AppendUnlocked_def f option.case
  proof (rule or_assert_rbind)
    fix t assume t: "LogFile_ok t \<and> log_text t = log_text s"
    then obtain g where "cur t = Some g" by (auto simp: LogFile_ok_def)
    then show "or_assert (\<not> lastRoll s < now2) (\<lambda>t. LogFile_ok t \<and> log_text t = log_text s @ line)
       (case cur t of None \<Rightarrow> Inl Undefined
        | Some f1 \<Rightarrow> Inr (t\<lparr>cur := Some (AppendFile_Append (fwrite env) line f1), appendCount := appendCount t + 1\<rparr>))"
      using t append_keeps [OF env(2)] by simp
  qed
  then show ?thesis using ok by (simp add: LogFile_Append_def)
qed

lemma LogFile_new_ok:
  assumes env: "log_env_ok env" and c: "clock_reading now"
  shows "or_assert (CHR ''/'' \<in> set base) (\<lambda>t. LogFile_ok t \<and> log_text t = []) (LogFile_new env now base roll flushInt check)"
proof (cases "CHR ''/'' \<in> set base")
  case False
  let ?s = "\<lparr>basename = base, rollsize = roll, flushInterval = flushInt, checkEveryNAppend = check,
           appendCount = 0, lastRoll = Timestamp 0, lastFlush = Timestamp 0, currentPeriod = Timestamp 0,
           closed = [], curName = [], cur = None, flushes = 0\<rparr>"
  have "lastRoll ?s < now" using c by (cases now) (simp add: clock_reading_def kMicrosecondsPerSecond_def)
  moreover have "\<not> young env now ?s"
    using SecondsDifference_ge_1 [of "rounding env" "Timestamp 0" now] c env
    by (auto simp: young_def log_env_ok_def clock_reading_def kMicrosecondsPerSecond_def)
  moreover have "log_text t = []" if "rolled env now ?s t" for t
    using rolled_text [OF that] by (simp add: log_text_def)
  ultimately have "or_assert False (\<lambda>t. LogFile_ok t \<and> log_text t = []) (RollFileUnlocked env now ?s)"
    using RollFileUnlocked_ok [OF env c, of ?s] rolled_ok [OF _ c]
    by (auto simp: i64_ok_def intro: or_assert_mono)
  then show ?thesis using False by (auto simp: LogFile_new_def intro: or_assert_mono)
qed (simp add: LogFile_new_def)

section \<open>Properties\<close>

text \<open>Warnings and errors are printed whatever the level, short of \<open>NONE\<close>; the other levels follow the order.\<close>

lemma warnings_ignore_level: "log_enabled ndebug FATAL WARN" "log_enabled ndebug FATAL ERROR"
  by simp_all

lemma Append_loop_prefixes:
  assumes "fwrite_spec fw" and "remain \<le> length line"
  shows "\<exists>ns. (\<forall>n\<in>set ns. n \<le> length line) \<and> sum_list ns \<le> remain \<and>
    fileContent (Append_loop fw line remain f) = fileContent f @ concat (map (\<lambda>n. take n line) ns) \<and>
    writtenBytes (Append_loop fw line remain f) = writtenBytes f + (length line - remain) + sum_list ns"
  using assms
proof (induction fw line remain f rule: Append_loop.induct)
  case (1 fw line remain f)
  let ?n = "fw (fwrites f) remain"
  let ?f = "f\<lparr>fwrites := Suc (fwrites f), fileContent := fileContent f @ take ?n line\<rparr>"
  have n: "?n \<le> remain" using 1(2) by (simp add: fwrite_spec_def)
  show ?case
  proof (cases "?n \<noteq> 0 \<and> ?n < remain")
    case True
    then obtain ns where "(\<forall>n\<in>set ns. n \<le> length line) \<and> sum_list ns \<le> remain - ?n \<and>
      fileContent (Append_loop fw line (remain - ?n) ?f) = fileContent ?f @ concat (map (\<lambda>n. take n line) ns) \<and>
      writtenBytes (Append_loop fw line (remain - ?n) ?f) = writtenBytes ?f + (length line - (remain - ?n)) + sum_list ns"
      using 1(1) [OF refl refl] 1(2,3) by force
    moreover have "Append_loop fw line remain f = Append_loop fw line (remain - ?n) ?f"
      using True by (subst Append_loop.simps) (simp add: Let_def)
    ultimately show ?thesis using n 1(3) by (intro exI [of _ "?n # ns"]) auto
  next
    case False
    then have "?n = 0 \<or> ?n = remain" using n by linarith
    then show ?thesis using 1(3)
      by (subst (1 2) Append_loop.simps, intro exI [of _ "if ?n = 0 then [] else [?n]"]) (auto simp: Let_def)
  qed
qed

text \<open>
  \<^verbatim>\<open>AppendFile::Append\<close>, for every answer that \<^verbatim>\<open>fwrite_unlocked\<close> may give.  The call returns.  The number of
  bytes it adds to the count is the number that reached the stream, at most the length of the line;
  what reaches the stream are prefixes of the line.  If the first \<^verbatim>\<open>fwrite\<close> takes all, this is the line; if
  it takes only \<open>n\<close> bytes and the second the rest, the second has written the beginning of the line
  again in place of its end, and the call still counts a complete line.
\<close>

theorem AppendFile_Append_prefixes:
  assumes "fwrite_spec fw"
  shows "(\<exists>ns. fileContent (AppendFile_Append fw line f) = fileContent f @ concat (map (\<lambda>n. take n line) ns) \<and>
      writtenBytes (AppendFile_Append fw line f) = writtenBytes f + sum_list ns \<and> sum_list ns \<le> length line) \<and>
    length (fileContent (AppendFile_Append fw line f)) + writtenBytes f =
      length (fileContent f) + writtenBytes (AppendFile_Append fw line f) \<and>
    (fw (fwrites f) (length line) = length line \<longrightarrow> fileContent (AppendFile_Append fw line f) = fileContent f @ line) \<and>
    (\<forall>n. 0 < n \<and> n < length line \<and> fw (fwrites f) (length line) = n \<and>
         fw (Suc (fwrites f)) (length line - n) = length line - n \<longrightarrow>
       fileContent (AppendFile_Append fw line f) = fileContent f @ take n line @ take (length line - n) line \<and>
       writtenBytes (AppendFile_Append fw line f) = writtenBytes f + length line)"
proof -
  obtain ns where ns: "\<forall>n\<in>set ns. n \<le> length line" "sum_list ns \<le> length line"
    "fileContent (AppendFile_Append fw line f) = fileContent f @ concat (map (\<lambda>n. take n line) ns)"
    "writtenBytes (AppendFile_Append fw line f) = writtenBytes f + sum_list ns"
    using Append_loop_prefixes [OF assms, of "length line" line f] by (auto simp: AppendFile_Append_def)
  have "length (concat (map (\<lambda>n. take n line) ns)) = sum_list ns"
    using ns(1) by (induction ns) auto
  then have "length (fileContent (AppendFile_Append fw line f)) + writtenBytes f =
      length (fileContent f) + writtenBytes (AppendFile_Append fw line f)" using ns by simp
  moreover have "fileContent (AppendFile_Append fw line f) = fileContent f @ line" if "fw (fwrites f) (length line) = length line"
    using that by (simp add: AppendFile_Append_def Append_loop.simps [of fw line "length line"] Let_def)
  moreover have "fileContent (AppendFile_Append fw line f) = fileContent f @ take n line @ take (length line - n) line \<and>
       writtenBytes (AppendFile_Append fw line f) = writtenBytes f + length line"
    if "0 < n" "n < length line" "fw (fwrites f) (length line) = n" "fw (Suc (fwrites f)) (length line - n) = length line - n" for n
    using that by (simp add: AppendFile_Append_def Append_loop.simps [of fw line "length line"]
        Append_loop.simps [of fw line "length line - n"] Let_def)
  ultimately show ?thesis using ns(2-4) by blast
qed

theorem AppendFile_Append_prefixes_witness:
  "fileContent (AppendFile_Append (\<lambda>i n. if i = 0 then 2 else n) ''abcd'' AppendFile_new) = ''abab''"
proof -
  have fw: "fwrite_spec (\<lambda>i n. if i = 0 then min 2 n else n)" by (simp add: fwrite_spec_def)
  have "AppendFile_Append (\<lambda>i n. if i = 0 then 2 else n) ''abcd'' AppendFile_new =
      AppendFile_Append (\<lambda>i n. if i = 0 then min 2 n else n) ''abcd'' AppendFile_new"
    by (simp add: AppendFile_Append_def Append_loop.simps AppendFile_new_def Let_def)
  then show ?thesis using AppendFile_Append_prefixes [OF fw, of "''abcd''" AppendFile_new] by (simp add: AppendFile_new_def)
qed

definition begun :: "log_env \<Rightarrow> Timestamp \<Rightarrow> LogFile \<Rightarrow> AppendFile \<Rightarrow> LogFile \<Rightarrow> bool" where
  "begun env now s f t \<longleftrightarrow> cur t = Some AppendFile_new \<and> closed t = closed s @ [(curName s, f)] \<and> lastRoll t = now \<and>
     curName t = FormattedName env now (basename s)"

lemma RollFile_begun:
  assumes "log_env_ok env" "clock_reading now" "LogFile_ok s" "cur s = Some f" "RollFileUnlocked env now s = Inr t"
  shows "t = s \<and> young env now s \<or> begun env now s f t"
proof -
  have "t = s \<and> young env now s \<or> rolled env now s t"
    by (rule or_assert_Inr [OF RollFileUnlocked_ok [OF assms(1,2)] assms(5)])
      (use assms(3) in \<open>simp_all add: LogFile_ok_def\<close>)
  then show ?thesis using assms(4) by (auto simp: rolled_def begun_def)
qed

lemma periodic_check_begun:
  assumes "log_env_ok env" "clock_reading now2" "LogFile_ok s" "cur s = Some f" "periodic_check env now now2 s = Inr t"
  shows "cur t = cur s \<and> closed t = closed s \<or> begun env now2 s f t"
proof -
  let ?s = "s\<lparr>appendCount := 0\<rparr>"
  obtain day where day: "RoundByDay (localtime env) (mktime env) now = Inr day"
    using assms(5) by (auto simp: periodic_check_def Let_def res_simps)
  show ?thesis
  proof (cases "ts_less (currentPeriod s) day")
    case True
    then obtain u where u: "RollFileUnlocked env now2 ?s = Inr u" "t = u\<lparr>currentPeriod := day\<rparr>"
      using assms(5) day by (auto simp: periodic_check_def Let_def res_simps)
    have "u = ?s \<and> young env now2 ?s \<or> begun env now2 ?s f u"
      by (rule RollFile_begun [OF assms(1,2) _ _ u(1)]) (use assms(3,4) in simp_all)
    then show ?thesis using u(2) by (auto simp: begun_def)
  next
    case False
    then show ?thesis using assms(5) day
      by (auto simp: periodic_check_def LogFile_Flush_def Let_def res_simps split: if_splits)
  qed
qed


text \<open>Surroundings for runs: a calendar of days without months.\<close>

definition demo_tm :: "int \<Rightarrow> tm" where
  "demo_tm s = \<lparr>tm_year = 100, tm_mon = 0, tm_mday = s div 86400, tm_hour = s mod 86400 div 3600,
     tm_min = s mod 3600 div 60, tm_sec = s mod 60\<rparr>"

definition demo_mktime :: "tm \<Rightarrow> int" where
  "demo_mktime t = tm_mday t * 86400 + tm_hour t * 3600 + tm_min t * 60 + tm_sec t"

definition demo_env :: log_env where
  "demo_env = \<lparr>rounding = (\<lambda>x. x), localtime = demo_tm, mktime = demo_mktime, pid = 42, fwrite = (\<lambda>i n. n)\<rparr>"

lemma demo_log_env_ok: "log_env_ok demo_env" "fwrite_all (fwrite demo_env)"
proof -
  have "s - 90000 \<le> s div 86400 * 86400 \<and> s div 86400 * 86400 \<le> s" for s :: int
    using pos_mod_bound [of 86400 s] pos_mod_sign [of 86400 s] div_mult_mod_eq [of s 86400] by linarith
  then show "log_env_ok demo_env"
    by (simp add: log_env_ok_def demo_env_def double_rounding_id fwrite_spec_def demo_tm_def demo_mktime_def)
qed (simp add: demo_env_def fwrite_all_def)

definition demo_clock :: Timestamp where "demo_clock = Timestamp 2000000"

lemma demo_clock_ok: "clock_reading demo_clock"
  by (simp add: demo_clock_def clock_reading_def kMicrosecondsPerSecond_def i64_ok_def)

definition demo_file :: LogFile where
  "demo_file = \<lparr>basename = ''log'', rollsize = 10, flushInterval = 3, checkEveryNAppend = 1024,
     appendCount = 0, lastRoll = demo_clock, lastFlush = demo_clock, currentPeriod = Timestamp 0,
     closed = [], curName = ''log'', cur = Some AppendFile_new, flushes = 0\<rparr>"

lemmas LogFile_eval = LogFile_Append_def AppendUnlocked_def RollFileUnlocked_def derived_operators demo_clock_def
  SecondsDifference_def RoundByDay_def SecondsSinceEpoch_def kMicrosecondsPerSecond_def i64_def i64_ok_def cdiv_def
  demo_env_def demo_tm_def demo_mktime_def demo_file_def sz_add_def AppendFile_new_def AppendFile_Append_def
  Append_loop.simps Let_def


end
