(* ===== verification/AsyncLogs.thy ===== *)
theory AsyncLogs
  imports Logging "HOL-Library.Sublist"
begin

text \<open>
  The asynchronous back end of the log: \<^verbatim>\<open>src/logger/AsyncLogging.h\<close> and
  \<^verbatim>\<open>src/logger/AsyncLogging.cc\<close>.  The front end's threads append under the lock; one thread takes
  the filled buffers and writes them to the log file of theory \<open>Logging\<close>.
\<close>

section \<open>FixedBuffer\<close>

definition kLargeBufferSize :: nat where "kLargeBufferSize = 4 * 1024 * 1024"

text \<open>A buffer is what has been written to it, \<open>WrittenBytes\<close> its length; \<open>SIZE\<close> is the template argument.\<close>

type_synonym FixedBuffer = string

definition FixedBuffer_new :: FixedBuffer where "FixedBuffer_new = []"

definition AvailableBytes :: "nat \<Rightarrow> FixedBuffer \<Rightarrow> nat" where
  "AvailableBytes SIZE b = SIZE - length b"

definition WrittenBytes :: "FixedBuffer \<Rightarrow> nat" where
  "WrittenBytes b = length b"

definition FixedBuffer_Append :: "nat \<Rightarrow> string \<Rightarrow> FixedBuffer \<Rightarrow> FixedBuffer" where
  "FixedBuffer_Append SIZE data b = (if AvailableBytes SIZE b > length data then b @ data else b)"

definition FixedBuffer_Reset :: "FixedBuffer \<Rightarrow> FixedBuffer" where
  "FixedBuffer_Reset b = []"

section \<open>State\<close>

text \<open>
  Where the background thread is: not yet created, before the log file is open, at the head of the loop, waiting for the
  condition, writing the buffer with the given number, and gone.
\<close>

datatype writer_pc = WIdle | WOpen | WHead | WWait | WWrite nat | WExit

text \<open>
  A \<^verbatim>\<open>unique_ptr\<close> to a buffer is an option.  \<open>outputSet\<close> says that the output function of the front end is
  \<^verbatim>\<open>AsyncOutput\<close> and that the global pointer is this object; the two change together.  \<open>newBuffer1\<close>,
  \<open>newBuffer2\<close> and \<open>buffersToWrite\<close> are the locals of \<^verbatim>\<open>ThreadFunc\<close>, \<open>logFile\<close> its file.  \<open>submitted\<close>
  logs what was appended and \<open>dropped\<close> counts the bytes that were thrown away.
\<close>

record AsyncLogging =
  baseName :: string
  rollSize :: nat
  flushSeconds :: int
  running :: bool
  outputSet :: bool
  buffers :: "FixedBuffer option list"
  currentBuffer :: "FixedBuffer option"
  nextBuffer :: "FixedBuffer option"
  pc :: writer_pc
  newBuffer1 :: "FixedBuffer option"
  newBuffer2 :: "FixedBuffer option"
  buffersToWrite :: "FixedBuffer option list"
  logFile :: "LogFile option"
  submitted :: string
  dropped :: nat

definition AsyncLogging_new :: "string \<Rightarrow> nat \<Rightarrow> int \<Rightarrow> AsyncLogging" where
  "AsyncLogging_new base roll flushInt =
     \<lparr>baseName = base, rollSize = roll, flushSeconds = flushInt, running = False, outputSet = False,
      buffers = [], currentBuffer = Some FixedBuffer_new, nextBuffer = Some FixedBuffer_new,
      pc = WIdle, newBuffer1 = None, newBuffer2 = None, buffersToWrite = [], logFile = None,
      submitted = [], dropped = 0\<rparr>"

section \<open>The front end\<close>

text \<open>
  Appending to the buffer behind a pointer.  What \<^verbatim>\<open>FixedBuffer::Append\<close> refuses is counted.
\<close>

definition append_current :: "string \<Rightarrow> AsyncLogging \<Rightarrow> AsyncLogging res" where
  "append_current line s =
     (case currentBuffer s of
        None \<Rightarrow> Inl Undefined
      | Some b \<Rightarrow>
          Inr (s\<lparr>currentBuffer := Some (FixedBuffer_Append kLargeBufferSize line b),
                 submitted := submitted s @ line,
                 dropped := dropped s + (if AvailableBytes kLargeBufferSize b > length line then 0 else length line)\<rparr>))"

definition Async_Append :: "string \<Rightarrow> AsyncLogging \<Rightarrow> AsyncLogging res" where
  "Async_Append line s =
     ensure (running s)
       (case currentBuffer s of
          None \<Rightarrow> Inl Undefined
        | Some b \<Rightarrow>
            if AvailableBytes kLargeBufferSize b > length line then append_current line s
            else
              append_current line
                (s\<lparr>buffers := buffers s @ [currentBuffer s],
                   currentBuffer := (if nextBuffer s \<noteq> None then nextBuffer s else Some FixedBuffer_new),
                   nextBuffer := None\<rparr>))"

text \<open>\<^verbatim>\<open>AsyncOutput\<close> goes through the global pointer.\<close>

definition AsyncOutput :: "string \<Rightarrow> AsyncLogging \<Rightarrow> AsyncLogging res" where
  "AsyncOutput line s = require (outputSet s) (Async_Append line s)"

text \<open>
  \<^verbatim>\<open>Start\<close> creates the thread and waits for its first statement.  \<^verbatim>\<open>Stop\<close> is complete when the thread
  has gone.  The object is started once, as its header asks.
\<close>

definition Async_Start :: "AsyncLogging \<Rightarrow> AsyncLogging res" where
  "Async_Start s = ensure (\<not> running s) (Inr (s\<lparr>running := True, outputSet := True, pc := WOpen\<rparr>))"

definition Async_Stop :: "AsyncLogging \<Rightarrow> AsyncLogging res" where
  "Async_Stop s = ensure (running s) (Inr (s\<lparr>running := False, outputSet := False\<rparr>))"

definition AsyncLogging_destroy :: "AsyncLogging \<Rightarrow> AsyncLogging res" where
  "AsyncLogging_destroy s = (if running s then Async_Stop s else Inr s)"

section \<open>The background thread\<close>

text \<open>Before the loop; \<^verbatim>\<open>threadSafe\<close> is false and the check comes every 1024 lines.\<close>

definition writer_open :: "log_env \<Rightarrow> Timestamp \<Rightarrow> AsyncLogging \<Rightarrow> AsyncLogging res" where
  "writer_open env now s =
     rbind (LogFile_new env now (baseName s) (rollSize s) (flushSeconds s) 1024) (\<lambda>l.
       Inr (s\<lparr>logFile := Some l, newBuffer1 := Some FixedBuffer_new, newBuffer2 := Some FixedBuffer_new,
              buffersToWrite := [], pc := WHead\<rparr>))"

text \<open>The critical section after the wait, and the drop of what is too much.\<close>

definition take_buffers :: "AsyncLogging \<Rightarrow> AsyncLogging" where
  "take_buffers s =
     s\<lparr>buffers := buffersToWrite s, buffersToWrite := buffers s @ [currentBuffer s],
       currentBuffer := newBuffer1 s, newBuffer1 := None,
       nextBuffer := (if nextBuffer s = None then newBuffer2 s else nextBuffer s),
       newBuffer2 := (if nextBuffer s = None then None else newBuffer2 s)\<rparr>"

definition buffer_bytes :: "FixedBuffer option list \<Rightarrow> string" where
  "buffer_bytes bs = concat (map (case_option [] id) bs)"

definition drop_excess :: "AsyncLogging \<Rightarrow> AsyncLogging" where
  "drop_excess s =
     (if length (buffersToWrite s) > 16
      then s\<lparr>buffersToWrite := take 2 (buffersToWrite s),
             dropped := dropped s + length (buffer_bytes (drop 2 (buffersToWrite s)))\<rparr>
      else s)"

definition writer_take :: "AsyncLogging \<Rightarrow> AsyncLogging" where
  "writer_take s = (drop_excess (take_buffers s))\<lparr>pc := WWrite 0\<rparr>"

text \<open>The head of the loop: the test of \<open>running\<close>, the lock and the test for an empty queue.\<close>

definition writer_head :: "AsyncLogging \<Rightarrow> AsyncLogging" where
  "writer_head s =
     (if \<not> running s then s\<lparr>pc := WExit\<rparr>
      else if buffers s = [] then s\<lparr>pc := WWait\<rparr>
      else writer_take s)"

text \<open>One round of the loop over the buffers.\<close>

definition writer_write :: "log_env \<Rightarrow> Timestamp \<Rightarrow> Timestamp \<Rightarrow> nat \<Rightarrow> AsyncLogging \<Rightarrow> AsyncLogging res" where
  "writer_write env now now2 i s =
     (case (logFile s, buffersToWrite s ! i) of
        (Some l, Some b) \<Rightarrow>
          rbind (LogFile_Append env now now2 b l) (\<lambda>l1. Inr (s\<lparr>logFile := Some l1, pc := WWrite (Suc i)\<rparr>))
      | _ \<Rightarrow> Inl Undefined)"

text \<open>\<^verbatim>\<open>p = std::move(v.back()); v.pop_back(); p->Reset()\<close>\<close>

definition reuse_back :: "FixedBuffer option list \<Rightarrow> (FixedBuffer option \<times> FixedBuffer option list) res" where
  "reuse_back bs =
     require (bs \<noteq> [])
       (case last bs of None \<Rightarrow> Inl Undefined | Some b \<Rightarrow> Inr (Some (FixedBuffer_Reset b), butlast bs))"

text \<open>After the loop: two buffers are kept for the next time, the rest is freed, and the file is flushed.\<close>

definition writer_recycle :: "AsyncLogging \<Rightarrow> AsyncLogging res" where
  "writer_recycle s =
     (let bs = (if length (buffersToWrite s) > 2 then take 2 (buffersToWrite s) else buffersToWrite s) in
      rbind (reuse_back bs) (\<lambda>(n1, bs1).
      rbind (if newBuffer2 s = None then reuse_back bs1 else Inr (newBuffer2 s, bs1)) (\<lambda>(n2, bs2).
      case logFile s of
        None \<Rightarrow> Inl Undefined
      | Some l \<Rightarrow> rbind (LogFile_Flush l) (\<lambda>l1.
          Inr (s\<lparr>newBuffer1 := n1, newBuffer2 := n2, buffersToWrite := [], logFile := Some l1, pc := WHead\<rparr>)))))"

text \<open>The thread's next step; \<open>now\<close> and \<open>now2\<close> are its readings of the clock.\<close>

definition writer_run :: "log_env \<Rightarrow> Timestamp \<Rightarrow> Timestamp \<Rightarrow> AsyncLogging \<Rightarrow> AsyncLogging res" where
  "writer_run env now now2 s =
     (case pc s of
        WOpen \<Rightarrow> writer_open env now s
      | WHead \<Rightarrow> Inr (writer_head s)
      | WWait \<Rightarrow> Inr (writer_take s)
      | WWrite i \<Rightarrow> if i < length (buffersToWrite s) then writer_write env now now2 i s else writer_recycle s
      | _ \<Rightarrow> Inr s)"

text \<open>
  Threads of the front end and the background thread in any interleaving.  The wait may end at any time, by
  a notification or by the time-out.  The clock shows a time after the first second of the epoch.
\<close>

inductive async_step :: "log_env \<Rightarrow> AsyncLogging \<Rightarrow> AsyncLogging \<Rightarrow> bool" for env where
  append_line: "AsyncOutput line s = Inr t \<Longrightarrow> async_step env s t"
| start_thread: "pc s = WIdle \<Longrightarrow> Async_Start s = Inr t \<Longrightarrow> async_step env s t"
| stop_thread: "Async_Stop s = Inr t \<Longrightarrow> async_step env s t"
| writer: "clock_reading now \<Longrightarrow> clock_reading now2 \<Longrightarrow> writer_run env now now2 s = Inr t \<Longrightarrow> async_step env s t"

inductive_cases async_stepE: "async_step env s t"

text \<open>The surroundings: rounding is that of doubles and \<^verbatim>\<open>fwrite_unlocked\<close> writes all it is given.\<close>

definition async_init :: "log_env \<Rightarrow> AsyncLogging \<Rightarrow> bool" where
  "async_init env s \<longleftrightarrow>
     log_env_ok env \<and> fwrite_all (fwrite env) \<and> (\<exists>base roll flushInt. s = AsyncLogging_new base roll flushInt)"

section \<open>The invariant\<close>

text \<open>What waits in the thread, and all that is stored, oldest first.\<close>

fun waiting :: "writer_pc \<Rightarrow> FixedBuffer option list \<Rightarrow> FixedBuffer option list" where
  "waiting (WWrite i) bs = drop i bs"
| "waiting _ bs = []"

definition stored :: "AsyncLogging \<Rightarrow> string" where
  "stored s = (case logFile s of None \<Rightarrow> [] | Some l \<Rightarrow> log_text l) @ buffer_bytes (waiting (pc s) (buffersToWrite s)) @
     buffer_bytes (buffers s) @ buffer_bytes [currentBuffer s]"

definition conserved :: "AsyncLogging \<Rightarrow> bool" where
  "conserved s \<longleftrightarrow> subseq (stored s) (submitted s) \<and> length (stored s) + dropped s = length (submitted s)"

fun writer_shape :: "writer_pc \<Rightarrow> AsyncLogging \<Rightarrow> bool" where
  "writer_shape WIdle s \<longleftrightarrow> logFile s = None \<and> buffersToWrite s = []"
| "writer_shape WOpen s \<longleftrightarrow> logFile s = None \<and> buffersToWrite s = []"
| "writer_shape (WWrite i) s \<longleftrightarrow> logFile s \<noteq> None \<and> newBuffer1 s = None \<and> None \<notin> set (buffersToWrite s) \<and>
     i \<le> length (buffersToWrite s) \<and> length (buffersToWrite s) \<le> 16 \<and>
     (if newBuffer2 s = None then 2 else 1) \<le> length (buffersToWrite s)"
| "writer_shape _ s \<longleftrightarrow> logFile s \<noteq> None \<and> newBuffer1 s = Some FixedBuffer_new \<and>
     newBuffer2 s = Some FixedBuffer_new \<and> buffersToWrite s = []"

text \<open>A pointer that is null or holds an empty buffer.\<close>

definition fresh :: "FixedBuffer option \<Rightarrow> bool" where
  "fresh b \<longleftrightarrow> b = None \<or> b = Some FixedBuffer_new"

definition async_inv :: "log_env \<Rightarrow> AsyncLogging \<Rightarrow> bool" where
  "async_inv env s \<longleftrightarrow> log_env_ok env \<and> fwrite_all (fwrite env) \<and> currentBuffer s \<noteq> None \<and> None \<notin> set (buffers s) \<and>
     (nextBuffer s = None \<longrightarrow> buffers s \<noteq> []) \<and> fresh (nextBuffer s) \<and> fresh (newBuffer2 s) \<and> writer_shape (pc s) s \<and>
     (\<forall>l. logFile s = Some l \<longrightarrow> LogFile_ok l) \<and> conserved s"

lemma buffer_bytes_simps [simp]:
  "buffer_bytes [] = []" "buffer_bytes (b # bs) = case_option [] id b @ buffer_bytes bs"
  "buffer_bytes (bs @ cs) = buffer_bytes bs @ buffer_bytes cs"
  by (simp_all add: buffer_bytes_def)

lemma async_invD:
  assumes "async_inv env s"
  shows "log_env_ok env" "fwrite_all (fwrite env)" "currentBuffer s \<noteq> None" "None \<notin> set (buffers s)"
    "nextBuffer s = None \<Longrightarrow> buffers s \<noteq> []" "fresh (nextBuffer s)" "fresh (newBuffer2 s)" "writer_shape (pc s) s"
    "logFile s = Some l \<Longrightarrow> LogFile_ok l" "conserved s"
  using assms by (auto simp: async_inv_def)

lemma conserved_grow:
  assumes "conserved s" and "stored t = stored s @ line" "submitted t = submitted s @ line" "dropped t = dropped s"
  shows "conserved t"
  using assms by (simp add: conserved_def subseq_append)

lemma conserved_refuse:
  assumes "conserved s" and "stored t = stored s" "submitted t = submitted s @ line" "dropped t = dropped s + length line"
  shows "conserved t"
  using assms by (simp add: conserved_def list_emb_prefix)

lemma conserved_same:
  assumes "conserved s" and "stored t = stored s" "submitted t = submitted s" "dropped t = dropped s"
  shows "conserved t"
  using assms by (simp add: conserved_def)

lemma conserved_lose:
  assumes "conserved s" and "stored s = xs @ ys @ zs" "stored t = xs @ zs" "submitted t = submitted s"
    "dropped t = dropped s + length ys"
  shows "conserved t"
proof -
  have "subseq (xs @ zs) (xs @ ys @ zs)" by (simp add: subseq_append' list_emb_append2)
  then have "subseq (stored t) (submitted t)"
    using assms by (metis conserved_def subseq_order.order_trans)
  then show ?thesis using assms by (simp add: conserved_def)
qed

lemma append_current_inv:
  assumes inv: "async_inv env s" and b: "currentBuffer s = Some b"
  shows "\<exists>t. append_current line s = Inr t \<and> async_inv env t"
proof -
  let ?t = "s\<lparr>currentBuffer := Some (FixedBuffer_Append kLargeBufferSize line b),
                 submitted := submitted s @ line,
                 dropped := dropped s + (if AvailableBytes kLargeBufferSize b > length line then 0 else length line)\<rparr>"
  have "conserved ?t"
  proof (cases "AvailableBytes kLargeBufferSize b > length line")
    case True
    then show ?thesis
      by (intro conserved_grow [OF async_invD(10) [OF inv], of _ line]) (simp_all add: stored_def b FixedBuffer_Append_def)
  next
    case False
    then show ?thesis
      by (intro conserved_refuse [OF async_invD(10) [OF inv], of _ line]) (simp_all add: stored_def b FixedBuffer_Append_def)
  qed
  moreover have "writer_shape (pc s) ?t = writer_shape (pc s) s" by (cases "pc s") simp_all
  ultimately show ?thesis using inv by (simp add: append_current_def b async_inv_def)
qed

lemma Async_Append_inv:
  assumes inv: "async_inv env s" and run: "running s"
  shows "\<exists>t. Async_Append line s = Inr t \<and> async_inv env t"
proof -
  obtain b where b: "currentBuffer s = Some b" using async_invD(3) [OF inv] by blast
  let ?t = "s\<lparr>buffers := buffers s @ [currentBuffer s],
     currentBuffer := (if nextBuffer s \<noteq> None then nextBuffer s else Some FixedBuffer_new), nextBuffer := None\<rparr>"
  have cb: "currentBuffer ?t = Some FixedBuffer_new" using async_invD(6) [OF inv] by (auto simp: fresh_def)
  have "conserved ?t"
    by (rule conserved_same [OF async_invD(10) [OF inv]]) (use cb in \<open>simp_all add: stored_def b FixedBuffer_new_def\<close>)
  moreover have "writer_shape (pc s) ?t = writer_shape (pc s) s" by (cases "pc s") simp_all
  ultimately have "async_inv env ?t" using inv cb b by (simp add: async_inv_def fresh_def)
  from append_current_inv [OF this cb] append_current_inv [OF inv b] run show ?thesis
    by (simp add: Async_Append_def b)
qed

lemma drop_excess_inv:
  assumes "None \<notin> set (buffersToWrite s)"
  shows "None \<notin> set (buffersToWrite (drop_excess s))" "length (buffersToWrite (drop_excess s)) \<le> 16"
    "buffersToWrite s \<noteq> [] \<Longrightarrow> buffersToWrite (drop_excess s) \<noteq> []"
    "2 \<le> length (buffersToWrite s) \<Longrightarrow> 2 \<le> length (buffersToWrite (drop_excess s))"
  using assms by (auto simp: drop_excess_def dest: in_set_takeD)

text \<open>The frame of \<open>drop_excess\<close> and \<open>take_buffers\<close>.\<close>

lemma drop_excess_frame [simp]:
  "logFile (drop_excess s) = logFile s" "currentBuffer (drop_excess s) = currentBuffer s" "buffers (drop_excess s) = buffers s"
  "nextBuffer (drop_excess s) = nextBuffer s" "newBuffer1 (drop_excess s) = newBuffer1 s"
  "newBuffer2 (drop_excess s) = newBuffer2 s" "submitted (drop_excess s) = submitted s"
  by (simp_all add: drop_excess_def)

lemma writer_take_inv:
  assumes inv: "async_inv env s" and pc: "pc s = WHead \<and> buffers s \<noteq> [] \<or> pc s = WWait"
  shows "async_inv env (writer_take s)"
proof -
  note D = async_invD [OF inv]
  obtain b where b: "currentBuffer s = Some b" using D(3) by blast
  have sh: "logFile s \<noteq> None" "newBuffer1 s = Some FixedBuffer_new" "newBuffer2 s = Some FixedBuffer_new" "buffersToWrite s = []"
    using D(8) pc by auto
  let ?u = "take_buffers s"
  let ?w = "(take_buffers s)\<lparr>pc := WWrite 0\<rparr>"
  have u: "buffersToWrite ?u = buffers s @ [Some b]" "buffers ?u = []" "currentBuffer ?u = Some FixedBuffer_new"
    "nextBuffer ?u \<noteq> None" "fresh (nextBuffer ?u)" "fresh (newBuffer2 ?u)" "newBuffer1 ?u = None" "logFile ?u = logFile s"
    "newBuffer2 ?u = None \<Longrightarrow> buffers s \<noteq> []" "submitted ?u = submitted s" "dropped ?u = dropped s"
    using sh b D(5,6) by (auto simp: take_buffers_def fresh_def)
  have nn: "None \<notin> set (buffersToWrite ?u)" "buffersToWrite ?u \<noteq> []" using u(1) D(4) by auto
  have two: "newBuffer2 ?u = None \<Longrightarrow> 2 \<le> length (buffersToWrite ?u)"
    using u(1,9) by (cases "buffers s") auto
  have c: "conserved ?w"
    by (rule conserved_same [OF D(10)]) (use u b pc in \<open>auto simp: stored_def FixedBuffer_new_def\<close>)
  have "conserved (writer_take s)"
  proof (cases "length (buffersToWrite ?u) > 16")
    case True
    let ?bs = "buffersToWrite ?u"
    have "stored ?w = ((case logFile s of None \<Rightarrow> [] | Some l \<Rightarrow> log_text l) @ buffer_bytes (take 2 ?bs)) @
      buffer_bytes (drop 2 ?bs) @ []"
      using buffer_bytes_simps(3) [of "take 2 ?bs" "drop 2 ?bs"] u(2,3,8) by (simp add: stored_def FixedBuffer_new_def)
    from conserved_lose [OF c this, of "writer_take s"] show ?thesis
      using True u by (simp add: writer_take_def drop_excess_def stored_def FixedBuffer_new_def)
  next
    case False
    then show ?thesis using c by (simp add: writer_take_def drop_excess_def)
  qed
  moreover have "writer_shape (WWrite 0) (writer_take s)"
    using drop_excess_inv [OF nn(1)] nn(2) two u(7,8) sh(1)
    by (auto simp: writer_take_def Suc_le_eq)
  ultimately show ?thesis using D(1,2,9) u by (simp add: async_inv_def writer_take_def)
qed

lemma writer_head_inv:
  assumes inv: "async_inv env s" and pc: "pc s = WHead"
  shows "async_inv env (writer_head s)"
proof -
  have "conserved (s\<lparr>pc := WExit\<rparr>)" "conserved (s\<lparr>pc := WWait\<rparr>)"
    by (rule conserved_same [OF async_invD(10) [OF inv]]; simp add: stored_def pc)+
  moreover have "async_inv env (writer_take s)" if "buffers s \<noteq> []"
    by (rule writer_take_inv [OF inv]) (simp add: pc that)
  ultimately show ?thesis using inv pc by (auto simp: writer_head_def async_inv_def)
qed

lemma writer_write_inv:
  assumes inv: "async_inv env s" and pc: "pc s = WWrite i" "i < length (buffersToWrite s)"
    and c: "clock_reading now" "clock_reading now2"
  shows "or_assert (\<exists>l. logFile s = Some l \<and> \<not> lastRoll l < now2) (async_inv env) (writer_write env now now2 i s)"
proof -
  note D = async_invD [OF inv]
  have sh: "logFile s \<noteq> None" "None \<notin> set (buffersToWrite s)" using D(8) pc by auto
  then obtain l where l: "logFile s = Some l" by blast
  have "buffersToWrite s ! i \<noteq> None" using sh(2) pc(2) nth_mem by metis
  then obtain b where b: "buffersToWrite s ! i = Some b" by blast
  let ?P = "\<lambda>l1. LogFile_ok l1 \<and> log_text l1 = log_text l @ b"
  have a: "or_assert (\<not> lastRoll l < now2) ?P (LogFile_Append env now now2 b l)"
    by (rule LogFile_Append_keeps [OF D(1,2) c D(9) [OF l]])
  have "async_inv env (s\<lparr>logFile := Some l1, pc := WWrite (Suc i)\<rparr>)" if l1: "?P l1" for l1
  proof -
    have "drop i (buffersToWrite s) = Some b # drop (Suc i) (buffersToWrite s)"
      using b pc(2) by (simp add: Cons_nth_drop_Suc [symmetric])
    then have "conserved (s\<lparr>logFile := Some l1, pc := WWrite (Suc i)\<rparr>)"
      by (intro conserved_same [OF D(10)]) (simp_all add: stored_def l pc(1) l1)
    then show ?thesis using D(1-8) pc l1 by (simp add: async_inv_def)
  qed
  then have "or_assert (\<not> lastRoll l < now2) (async_inv env) (writer_write env now now2 i s)"
    by (simp add: writer_write_def l b) (rule or_assert_rbind [OF a], simp)
  then show ?thesis by (rule or_assert_mono) (simp_all add: l)
qed

lemma reuse_back_Some: "bs \<noteq> [] \<Longrightarrow> None \<notin> set bs \<Longrightarrow> reuse_back bs = Inr (Some FixedBuffer_new, butlast bs)"
  by (cases "last bs") (auto simp: reuse_back_def FixedBuffer_Reset_def FixedBuffer_new_def dest: last_in_set)

lemma writer_recycle_inv:
  assumes inv: "async_inv env s" and pc: "pc s = WWrite i" "\<not> i < length (buffersToWrite s)"
  shows "\<exists>t. writer_recycle s = Inr t \<and> async_inv env t"
proof -
  note D = async_invD [OF inv]
  have sh: "logFile s \<noteq> None" "None \<notin> set (buffersToWrite s)"
    "(if newBuffer2 s = None then 2 else 1) \<le> length (buffersToWrite s)" using D(8) pc by auto
  then obtain l where l: "logFile s = Some l" by blast
  let ?bs = "if length (buffersToWrite s) > 2 then take 2 (buffersToWrite s) else buffersToWrite s"
  have bs: "?bs \<noteq> []" "None \<notin> set ?bs" "newBuffer2 s = None \<Longrightarrow> butlast ?bs \<noteq> []"
    using sh(2,3) by (auto dest: in_set_takeD simp: butlast_take split: if_splits simp flip: length_greater_0_conv)
  have n2: "\<exists>bs2. (if newBuffer2 s = None then reuse_back (butlast ?bs) else Inr (newBuffer2 s, butlast ?bs)) =
     Inr (Some FixedBuffer_new, bs2)"
  proof (cases "newBuffer2 s = None")
    case True
    have "None \<notin> set (butlast ?bs)" using bs(2) by (metis in_set_butlastD)
    from reuse_back_Some [OF bs(3) [OF True] this] show ?thesis using True by simp
  qed (use D(7) in \<open>auto simp: fresh_def\<close>)
  let ?t = "s\<lparr>newBuffer1 := Some FixedBuffer_new, newBuffer2 := Some FixedBuffer_new, buffersToWrite := [],
     logFile := Some (l\<lparr>flushes := Suc (flushes l)\<rparr>), pc := WHead\<rparr>"
  have "conserved ?t"
    by (rule conserved_same [OF D(10)]) (use pc in \<open>simp_all add: stored_def l\<close>)
  then have "async_inv env ?t" using D(1-6) D(9) [OF l] by (simp add: async_inv_def fresh_def)
  moreover have "writer_recycle s = Inr ?t"
    using reuse_back_Some [OF bs(1,2)] n2 l LogFile_Flush_ok [OF D(9) [OF l]]
    by (auto simp: writer_recycle_def Let_def)
  ultimately show ?thesis by blast
qed

lemma writer_open_inv:
  assumes inv: "async_inv env s" and pc: "pc s = WOpen" and c: "clock_reading now"
  shows "or_assert (CHR ''/'' \<in> set (baseName s)) (async_inv env) (writer_open env now s)"
proof -
  note D = async_invD [OF inv]
  have sh: "logFile s = None" "buffersToWrite s = []" using D(8) pc by auto
  let ?t = "\<lambda>l. s\<lparr>logFile := Some l, newBuffer1 := Some FixedBuffer_new, newBuffer2 := Some FixedBuffer_new,
              buffersToWrite := [], pc := WHead\<rparr>"
  have "async_inv env (?t l)" if l: "LogFile_ok l \<and> log_text l = []" for l
  proof -
    have "conserved (?t l)"
      by (rule conserved_same [OF D(10)]) (use l pc in \<open>simp_all add: stored_def sh\<close>)
    then show ?thesis using D(1-6) l by (simp add: async_inv_def fresh_def)
  qed
  then show ?thesis
    unfolding writer_open_def by (intro or_assert_rbind [OF LogFile_new_ok [OF D(1) c]]) simp
qed

lemma writer_run_inv:
  assumes inv: "async_inv env s" and c: "clock_reading now" "clock_reading now2"
  shows "or_assert (pc s = WOpen \<and> CHR ''/'' \<in> set (baseName s) \<or>
       (\<exists>i l. pc s = WWrite i \<and> logFile s = Some l \<and> \<not> lastRoll l < now2)) (async_inv env) (writer_run env now now2 s)"
proof (cases "pc s")
  case WOpen
  then show ?thesis using or_assert_mono [OF writer_open_inv [OF inv WOpen c(1)]] by (simp add: writer_run_def)
next
  case WHead
  then show ?thesis using writer_head_inv [OF inv] by (simp add: writer_run_def)
next
  case WWait
  then show ?thesis using writer_take_inv [OF inv] by (simp add: writer_run_def)
next
  case (WWrite i)
  show ?thesis
  proof (cases "i < length (buffersToWrite s)")
    case True
    show ?thesis using or_assert_mono [OF writer_write_inv [OF inv WWrite True c]] True WWrite by (simp add: writer_run_def)
  next
    case False
    then show ?thesis using writer_recycle_inv [OF inv WWrite False] WWrite by (auto simp: writer_run_def)
  qed
qed (use inv in \<open>simp_all add: writer_run_def\<close>)

lemma async_init_inv: "async_init env s \<Longrightarrow> async_inv env s"
  by (auto simp: async_init_def async_inv_def AsyncLogging_new_def fresh_def conserved_def stored_def FixedBuffer_new_def)

lemma async_flags:
  assumes "async_inv env s"
  shows "async_inv env (s\<lparr>running := r, outputSet := q\<rparr>)" "pc s = WIdle \<Longrightarrow> async_inv env (s\<lparr>running := r, outputSet := q, pc := WOpen\<rparr>)"
proof -
  note D = async_invD [OF assms]
  have "conserved (s\<lparr>running := r, outputSet := q\<rparr>)" by (rule conserved_same [OF D(10)]) (simp_all add: stored_def)
  moreover have "writer_shape (pc s) (s\<lparr>running := r, outputSet := q\<rparr>) = writer_shape (pc s) s" by (cases "pc s") simp_all
  ultimately show "async_inv env (s\<lparr>running := r, outputSet := q\<rparr>)" using assms by (simp add: async_inv_def)
  assume pc: "pc s = WIdle"
  have "conserved (s\<lparr>running := r, outputSet := q, pc := WOpen\<rparr>)"
    by (rule conserved_same [OF D(10)]) (simp_all add: stored_def pc)
  then show "async_inv env (s\<lparr>running := r, outputSet := q, pc := WOpen\<rparr>)" using assms pc by (simp add: async_inv_def)
qed

lemma async_step_inv: "async_inv env s \<Longrightarrow> async_step env s t \<Longrightarrow> async_inv env t"
proof (erule async_stepE)
  fix line assume i: "async_inv env s" and a: "AsyncOutput line s = Inr t"
  then have "running s" by (simp add: AsyncOutput_def Async_Append_def res_simps)
  moreover have "Async_Append line s = Inr t" using a by (simp add: AsyncOutput_def res_simps)
  ultimately show "async_inv env t" using Async_Append_inv [OF i, of line] by auto
next
  fix now now2 assume i: "async_inv env s" and w: "clock_reading now" "clock_reading now2" "writer_run env now now2 s = Inr t"
  show "async_inv env t" by (rule or_assert_Inr [OF writer_run_inv [OF i w(1,2)] w(3)])
qed (auto simp: Async_Start_def Async_Stop_def res_simps intro: async_flags)

interpretation async: invariant "async_init env" "async_step env" "async_inv env" for env
  by unfold_locales (auto intro: async_init_inv async_step_inv)

section \<open>Properties\<close>


text \<open>
  The pointers.  In a reachable state the thread's next step, whatever the clock shows, never goes through a
  null pointer or beyond a vector; it fails an assertion only if the base name has a slash or the clock is not
  after the last roll of the file.  While the system is running, an append returns.
\<close>

theorem async_no_null_dereference:
  assumes "reach (async_init env) (async_step env) s" and "clock_reading now" "clock_reading now2"
  shows "((\<exists>t. writer_run env now now2 s = Inr t) \<or>
      writer_run env now now2 s = Inl Assertion \<and>
        (CHR ''/'' \<in> set (baseName s) \<or> (\<exists>l. logFile s = Some l \<and> \<not> lastRoll l < now2))) \<and>
    (running s \<longrightarrow> (\<exists>t. Async_Append line s = Inr t))"
  using writer_run_inv [OF async.reach_inv [OF assms(1)] assms(2,3)] Async_Append_inv [OF async.reach_inv [OF assms(1)]]
  by (auto simp: or_assert_def)

section \<open>A run\<close>

text \<open>Start, append, stop; then the background thread gets to run.\<close>

definition demo_stopped :: "log_env \<Rightarrow> string \<Rightarrow> AsyncLogging res" where
  "demo_stopped env line =
     rbind (Async_Start (AsyncLogging_new ''log'' 1000 3)) (\<lambda>s.
     rbind (AsyncOutput line s) (\<lambda>s.
     rbind (Async_Stop s) (\<lambda>s.
     rbind (writer_run env demo_clock demo_clock s) (\<lambda>s.
       writer_run env demo_clock demo_clock s))))"

lemma demo_stopped_reach:
  assumes "log_env_ok env" "fwrite_all (fwrite env)" and "demo_stopped env line = Inr t"
  shows "reach (async_init env) (async_step env) t"
proof -
  let ?R = "reach (async_init env) (async_step env)"
  let ?w = "writer_run env demo_clock demo_clock"
  obtain a b c d where s: "Async_Start (AsyncLogging_new ''log'' 1000 3) = Inr a" "AsyncOutput line a = Inr b"
      "Async_Stop b = Inr c" "?w c = Inr d" "?w d = Inr t"
    using assms(3) unfolding demo_stopped_def by (auto simp: res_simps)
  have r0: "?R (AsyncLogging_new ''log'' 1000 3)"
    using assms(1,2) by (intro reach_init) (auto simp: async_init_def)
  have r1: "async_step env (AsyncLogging_new ''log'' 1000 3) a"
    by (rule async_step.start_thread [OF _ s(1)]) (simp add: AsyncLogging_new_def)
  have r2: "async_step env a b" by (rule async_step.append_line [OF s(2)])
  have r3: "async_step env b c" by (rule async_step.stop_thread [OF s(3)])
  have r4: "async_step env c d" by (rule async_step.writer [OF demo_clock_ok demo_clock_ok s(4)])
  have r5: "async_step env d t" by (rule async_step.writer [OF demo_clock_ok demo_clock_ok s(5)])
  note step = reach_step [where init = "async_init env" and step = "async_step env"]
  show "?R t" by (rule step [OF step [OF step [OF step [OF step [OF r0 r1] r2] r3] r4] r5])
qed

lemmas async_eval = demo_stopped_def Async_Start_def AsyncLogging_new_def AsyncOutput_def Async_Append_def
  append_current_def FixedBuffer_Append_def AvailableBytes_def FixedBuffer_new_def kLargeBufferSize_def Async_Stop_def
  writer_run_def writer_open_def LogFile_new_def RollFileUnlocked_def derived_operators demo_clock_def
  SecondsDifference_def RoundByDay_def SecondsSinceEpoch_def kMicrosecondsPerSecond_def i64_def i64_ok_def cdiv_def
  demo_env_def demo_tm_def demo_mktime_def writer_head_def

definition demo_end :: AsyncLogging where
  "demo_end = (case demo_stopped demo_env ''x'' of Inl e \<Rightarrow> AsyncLogging_new [] 0 0 | Inr t \<Rightarrow> t)"

lemma demo_end_eq: "demo_stopped demo_env ''x'' = Inr demo_end" "pc demo_end = WExit" "dropped demo_end = 0"
  "submitted demo_end = ''x''" "map_option log_text (logFile demo_end) = Some []" "currentBuffer demo_end = Some ''x''"
  by (simp_all add: demo_end_def async_eval log_text_def AppendFile_new_def)


theorem async_no_null_dereference_witness: "\<exists>t. writer_run demo_env demo_clock demo_clock demo_end = Inr t"
  using async_no_null_dereference [OF demo_stopped_reach [OF demo_log_env_ok demo_end_eq(1)] demo_clock_ok demo_clock_ok]
    demo_end_eq(2) by (simp add: writer_run_def)

text \<open>
  \<^verbatim>\<open>Stop\<close> does not flush the buffers: there is a run in which a line is appended while the system is running,
  the background thread has gone after \<^verbatim>\<open>Stop\<close>, nothing was dropped, the file is there, and the line is not in it.
\<close>

theorem async_stop_loses_lines:
  "\<exists>env s l. reach (async_init env) (async_step env) s \<and> pc s = WExit \<and> dropped s = 0 \<and> submitted s = ''x'' \<and>
     logFile s = Some l \<and> log_text l = []"
  using demo_stopped_reach [OF demo_log_env_ok demo_end_eq(1)] demo_end_eq by blast

end
