(* ===== verification/LogFronts.thy ===== *)
theory LogFronts
  imports AsyncLogs
begin

text \<open>
  The logger's global state and the log statements of the program: \<^verbatim>\<open>src/logger/Logger.cc\<close> with the
  switch of the output function in \<^verbatim>\<open>Start\<close> and \<^verbatim>\<open>Stop\<close> of \<^verbatim>\<open>src/logger/AsyncLogging.cc\<close>.
\<close>

section \<open>The global state\<close>

text \<open>\<open>UserFlush\<close> is a flush function of the program's, which is left open and changes nothing here.\<close>

datatype output_func = DefaultOutput | AsyncLogOutput
datatype flush_func = DefaultFlush | UserFlush

text \<open>
  \<open>outText\<close> is what was written to \<^verbatim>\<open>stdout\<close>, \<open>outFlushed\<close> how much of it has been flushed; \<open>backend\<close> is the
  asynchronous back end.
\<close>

record log_system =
  gLogLevel :: LogLevel
  gOutput :: output_func
  gFlush :: flush_func
  outText :: string
  outFlushed :: nat
  backend :: AsyncLogging

definition log_system_new :: "AsyncLogging \<Rightarrow> log_system" where
  "log_system_new b = \<lparr>gLogLevel = INFO, gOutput = DefaultOutput, gFlush = DefaultFlush, outText = [], outFlushed = 0,
     backend = b\<rparr>"

definition GetLogLevel :: "log_system \<Rightarrow> LogLevel" where "GetLogLevel s = gLogLevel s"

definition SetLogLevel :: "LogLevel \<Rightarrow> log_system \<Rightarrow> log_system" where "SetLogLevel l s = s\<lparr>gLogLevel := l\<rparr>"

definition SetOutputFunc :: "output_func \<Rightarrow> log_system \<Rightarrow> log_system" where "SetOutputFunc f s = s\<lparr>gOutput := f\<rparr>"

definition SetFlushFunc :: "flush_func \<Rightarrow> log_system \<Rightarrow> log_system" where "SetFlushFunc f s = s\<lparr>gFlush := f\<rparr>"

text \<open>The calls through the two pointers.\<close>

definition log_output :: "string \<Rightarrow> log_system \<Rightarrow> log_system res" where
  "log_output line s =
     (case gOutput s of
        DefaultOutput \<Rightarrow> Inr (s\<lparr>outText := outText s @ line\<rparr>)
      | AsyncLogOutput \<Rightarrow> rbind (AsyncOutput line (backend s)) (\<lambda>b. Inr (s\<lparr>backend := b\<rparr>)))"

definition log_flush :: "log_system \<Rightarrow> log_system" where
  "log_flush s = (case gFlush s of DefaultFlush \<Rightarrow> s\<lparr>outFlushed := length (outText s)\<rparr> | UserFlush \<Rightarrow> s)"

text \<open>The destructor of \<^verbatim>\<open>Logger\<close>, and the state it leaves also when the process ends there.\<close>

definition Logger_write :: "LogLevel \<Rightarrow> string \<Rightarrow> log_system \<Rightarrow> fault option \<times> log_system" where
  "Logger_write level stream s =
     (case log_output (stream @ [CHR 0x0A]) s of
        Inl e \<Rightarrow> (Some e, s)
      | Inr s1 \<Rightarrow> if level = FATAL then (Some Fatal, log_flush s1) else (None, s1))"

definition log_statement :: "bool \<Rightarrow> LogLevel \<Rightarrow> string \<Rightarrow> log_system \<Rightarrow> fault option \<times> log_system" where
  "log_statement ndebug level stream s =
     (if log_enabled ndebug (GetLogLevel s) level then Logger_write level stream s else (None, s))"

text \<open>\<^verbatim>\<open>Start\<close> and \<^verbatim>\<open>Stop\<close> of the back end, with the switch.\<close>

definition system_start :: "log_system \<Rightarrow> log_system res" where
  "system_start s = rbind (Async_Start (backend s)) (\<lambda>b. Inr (SetOutputFunc AsyncLogOutput (s\<lparr>backend := b\<rparr>)))"

definition system_stop :: "log_system \<Rightarrow> log_system res" where
  "system_stop s = rbind (Async_Stop (backend s)) (\<lambda>b. Inr (SetOutputFunc DefaultOutput (s\<lparr>backend := b\<rparr>)))"

text \<open>
  The program logs, sets the level, starts and stops the back end; the background thread runs.  A log
  statement is one step: as the header of \<^verbatim>\<open>AsyncLogging\<close> asks, the other threads have ended when
  \<^verbatim>\<open>Stop\<close> is called.
\<close>

inductive system_step :: "log_env \<Rightarrow> log_system \<Rightarrow> log_system \<Rightarrow> bool" for env where
  statement: "log_statement ndebug level stream s = (None, t) \<Longrightarrow> system_step env s t"
| set_level: "system_step env s (SetLogLevel l s)"
| set_flush: "system_step env s (SetFlushFunc f s)"
| system_starts: "pc (backend s) = WIdle \<Longrightarrow> system_start s = Inr t \<Longrightarrow> system_step env s t"
| system_stops: "system_stop s = Inr t \<Longrightarrow> system_step env s t"
| background: "clock_reading now \<Longrightarrow> clock_reading now2 \<Longrightarrow> writer_run env now now2 (backend s) = Inr b \<Longrightarrow>
    system_step env s (s\<lparr>backend := b\<rparr>)"

definition system_init :: "log_env \<Rightarrow> log_system \<Rightarrow> bool" where
  "system_init env s \<longleftrightarrow> (\<exists>b. async_init env b \<and> s = log_system_new b)"

section \<open>The invariant\<close>

text \<open>The output function, the global pointer and \<^verbatim>\<open>running_\<close> change together.\<close>

definition switched :: "log_system \<Rightarrow> bool" where
  "switched s \<longleftrightarrow> (gOutput s = AsyncLogOutput \<longleftrightarrow> running (backend s)) \<and> outputSet (backend s) = running (backend s)"

definition system_inv :: "log_env \<Rightarrow> log_system \<Rightarrow> bool" where
  "system_inv env s \<longleftrightarrow> async_inv env (backend s) \<and> switched s"

definition flags_same :: "AsyncLogging \<Rightarrow> AsyncLogging \<Rightarrow> bool" where
  "flags_same s t \<longleftrightarrow> running t = running s \<and> outputSet t = outputSet s"

lemma writer_take_flags [simp]: "running (writer_take s) = running s" "outputSet (writer_take s) = outputSet s"
  by (simp_all add: writer_take_def drop_excess_def take_buffers_def)

lemma writer_part_flags:
  "writer_open env now s = Inr t \<Longrightarrow> flags_same s t" "flags_same s (writer_head s)"
  "writer_write env now now2 i s = Inr t \<Longrightarrow> flags_same s t" "writer_recycle s = Inr t \<Longrightarrow> flags_same s t"
proof -
  show "writer_open env now s = Inr t \<Longrightarrow> flags_same s t" by (auto simp: writer_open_def res_simps flags_same_def)
  show "flags_same s (writer_head s)" by (simp add: writer_head_def flags_same_def)
  show "writer_write env now now2 i s = Inr t \<Longrightarrow> flags_same s t"
    by (auto simp: writer_write_def res_simps flags_same_def split: option.splits)
  show "flags_same s t" if r: "writer_recycle s = Inr t"
  proof -
    obtain n1 n2 l where "t = s\<lparr>newBuffer1 := n1, newBuffer2 := n2, buffersToWrite := [], logFile := Some l, pc := WHead\<rparr>"
      using r by (auto simp: writer_recycle_def rbind_Inr_iff Let_def split: option.splits)
    then show ?thesis by (simp add: flags_same_def)
  qed
qed

lemma flags_same_take: "flags_same s (writer_take s)"
  by (simp add: flags_same_def)

lemma writer_run_flags: "writer_run env now now2 s = Inr t \<Longrightarrow> flags_same s t"
  by (cases "pc s") (auto simp: writer_run_def flags_same_take writer_part_flags split: if_splits, auto simp: flags_same_def)

lemma Async_Append_frame:
  "Async_Append line s = Inr t \<Longrightarrow> flags_same s t \<and> logFile t = logFile s \<and> submitted t = submitted s @ line"
  by (auto simp: Async_Append_def append_current_def res_simps flags_same_def split: option.splits if_splits)

lemma log_output_ok:
  assumes i: "system_inv env s"
  shows "\<exists>t. log_output line s = Inr t \<and> system_inv env t \<and> logFile (backend t) = logFile (backend s) \<and>
    gLogLevel t = gLogLevel s \<and> gOutput t = gOutput s \<and> gFlush t = gFlush s \<and>
    (if gOutput s = DefaultOutput then outText t = outText s @ line \<and> backend t = backend s
     else outText t = outText s \<and> submitted (backend t) = submitted (backend s) @ line)"
proof (cases "gOutput s")
  case DefaultOutput
  then show ?thesis using i by (simp add: log_output_def system_inv_def switched_def)
next
  case AsyncLogOutput
  have b: "async_inv env (backend s)" "running (backend s)" "outputSet (backend s)"
    using i AsyncLogOutput by (auto simp: system_inv_def switched_def)
  from Async_Append_inv [OF b(1,2), of line] obtain t where t: "Async_Append line (backend s) = Inr t" "async_inv env t" by blast
  with Async_Append_frame [OF t(1)] AsyncLogOutput b i show ?thesis
    by (simp add: log_output_def AsyncOutput_def system_inv_def switched_def flags_same_def)
qed

lemma system_step_inv:
  assumes i: "system_inv env s" and st: "system_step env s t"
  shows "system_inv env t"
  using st
proof cases
  case (statement ndebug level stream)
  from log_output_ok [OF i, of "stream @ [CHR 0x0A]"] statement i show ?thesis
    by (auto simp: log_statement_def Logger_write_def split: if_splits)
next
  case system_starts
  then show ?thesis using i async_flags(2) [of env "backend s" True True]
    by (auto simp: system_start_def Async_Start_def SetOutputFunc_def res_simps system_inv_def switched_def)
next
  case system_stops
  then show ?thesis using i async_flags(1) [of env "backend s" False False]
    by (auto simp: system_stop_def Async_Stop_def SetOutputFunc_def res_simps system_inv_def switched_def)
next
  case (background now now2 b)
  have "async_inv env b"
    using async_step_inv [OF _ async_step.writer [OF background(2-4)]] i by (simp add: system_inv_def)
  with writer_run_flags [OF background(4)] i background(1) show ?thesis
    by (simp add: system_inv_def switched_def flags_same_def)
qed (use i in \<open>simp_all add: SetLogLevel_def SetFlushFunc_def system_inv_def switched_def\<close>)

interpretation log: invariant "system_init env" "system_step env" "system_inv env" for env
proof unfold_locales
  fix s assume "system_init env s"
  then obtain b where "async_init env b" "s = log_system_new b" by (auto simp: system_init_def)
  moreover from this(1) have "async_inv env b" "\<not> running b" "\<not> outputSet b"
    using async_init_inv by (auto simp: async_init_def AsyncLogging_new_def)
  ultimately show "system_inv env s" by (simp add: system_inv_def switched_def log_system_new_def)
qed (rule system_step_inv)

section \<open>Properties\<close>


text \<open>A fatal record while the back end runs and its file is open.\<close>

definition demo_log :: "log_system res" where
  "demo_log = rbind (system_start (log_system_new (AsyncLogging_new ''log'' 1000 3))) (\<lambda>s.
     rbind (writer_run demo_env demo_clock demo_clock (backend s)) (\<lambda>b. Inr (s\<lparr>backend := b\<rparr>)))"

lemma demo_log_reach: "demo_log = Inr t \<Longrightarrow> reach (system_init demo_env) (system_step demo_env) t"
proof -
  assume r: "demo_log = Inr t"
  let ?s0 = "log_system_new (AsyncLogging_new ''log'' 1000 3)"
  obtain s b where s: "system_start ?s0 = Inr s" "writer_run demo_env demo_clock demo_clock (backend s) = Inr b" "t = s\<lparr>backend := b\<rparr>"
    using r by (auto simp: demo_log_def res_simps)
  have "reach (system_init demo_env) (system_step demo_env) ?s0"
    using demo_log_env_ok by (intro reach_init) (auto simp: system_init_def async_init_def)
  moreover have "system_step demo_env ?s0 s"
    using s(1) by (intro system_starts) (simp_all add: log_system_new_def AsyncLogging_new_def)
  moreover have "system_step demo_env s t"
    unfolding s(3) using s(2) by (rule background [OF demo_clock_ok demo_clock_ok])
  ultimately show ?thesis by (blast intro: reach_step)
qed


end
