(* ===== verification/Clients.thy ===== *)
theory Clients
  imports Connectors Growth
begin

text \<open>
  The active side: \<^verbatim>\<open>src/net/TcpClient.h\<close> and \<^verbatim>\<open>src/net/TcpClient.cc\<close>, composed of the connector (theory
  \<open>Connectors\<close>) and the connections it makes (theory \<open>Tcp\<close>), which live in the client's own loop.  The
  descriptor and the channel of a connection are not those of the connector's poller here.
\<close>

section \<open>TcpClient\<close>

text \<open>
  \<open>connection\<close> is the number of the current connection in \<open>cliConns\<close>, which holds every connection that
  was made, with its name.  \<open>closing\<close> counts the close callbacks whose \<^verbatim>\<open>ConnectionDestroyed\<close> has been run and
  whose remaining part has still to be.
\<close>

record ('cb, 'k, 'c) TcpClient =
  connector :: "('cb, 'k) Connector"
  cliName :: string
  connection :: "nat option"
  cliCount :: nat
  cliRetry :: bool
  cliWriteComplete :: bool
  cliMessage :: bool
  cliConns :: "(string \<times> 'c TcpConnection) list"
  closing :: nat

definition TcpClient_new :: "('cb, 'k) Poller \<Rightarrow> InetAddress \<Rightarrow> string \<Rightarrow> ('cb, 'k, 'c) TcpClient" where
  "TcpClient_new p addr name =
     \<lparr>connector = Connector_new p addr True, cliName = name, connection = None, cliCount = 0, cliRetry = False,
      cliWriteComplete = False, cliMessage = False, cliConns = [], closing = 0\<rparr>"

definition Client_Connect :: "('cb, 'k) conn_sys \<Rightarrow> nat \<Rightarrow> bool \<Rightarrow> ('cb, 'k, 'c) TcpClient \<Rightarrow> ('cb, 'k, 'c) TcpClient res" where
  "Client_Connect sys a inLoop s =
     rbind (Connector_Start sys a inLoop (connector s)) (\<lambda>c. Inr (s\<lparr>connector := c\<rparr>))"

definition Client_Stop :: "('cb, 'k) conn_sys \<Rightarrow> bool \<Rightarrow> ('cb, 'k, 'c) TcpClient \<Rightarrow> ('cb, 'k, 'c) TcpClient res" where
  "Client_Stop sys inLoop s = rbind (Connector_Stop sys inLoop (connector s)) (\<lambda>c. Inr (s\<lparr>connector := c\<rparr>))"

text \<open>Connection \<open>i\<close> has got to state \<open>c\<close>.\<close>

definition conn_done :: "nat \<Rightarrow> 'c TcpConnection \<Rightarrow> ('cb, 'k, 'c) TcpClient \<Rightarrow> ('cb, 'k, 'c) TcpClient" where
  "conn_done i c s =
     s\<lparr>closing := closing s + (destroyed c - destroyed (snd (cliConns s ! i))),
       cliConns := (cliConns s)[i := (fst (cliConns s ! i), c)]\<rparr>"

text \<open>\<^verbatim>\<open>Disconnect\<close> goes through the pointer without a test.\<close>

definition Client_Disconnect :: "bool \<Rightarrow> ('cb, 'k, 'c) TcpClient \<Rightarrow> ('cb, 'k, 'c) TcpClient res" where
  "Client_Disconnect inLoop s =
     (case connection s of
        None \<Rightarrow> Inl Undefined
      | Some i \<Rightarrow> rbind (Shutdown inLoop (snd (cliConns s ! i))) (\<lambda>c. Inr (conn_done i c s)))"

definition Client_NewConnection :: "('cb, 'k) conn_sys \<Rightarrow> 'c conn_env \<Rightarrow> bool \<Rightarrow> int \<Rightarrow> ('cb, 'k, 'c) TcpClient \<Rightarrow>
    ('cb, 'k, 'c) TcpClient res" where
  "Client_NewConnection sys env inLoop fd s =
     ensure inLoop
       (require (Suc (cliCount s) < 2 ^ 31)
         (rbind (LocalAddress (api sys) fd (kernel (cp (connector s)))) (\<lambda>localAddr.
          rbind (TcpConnection_new (cliWriteComplete s) (cliMessage s) False) (\<lambda>c.
            let i = length (cliConns s);
                connName = connection_name (serverAddr (connector s)) (Suc (cliCount s));
                s1 = s\<lparr>cliCount := Suc (cliCount s), cliConns := cliConns s @ [(connName, c)], connection := Some i\<rparr>
            in rbind (ConnectionEstablished env inLoop c) (\<lambda>c1. Inr (conn_done i c1 s1))))))"

text \<open>The connector's socket is writable; the connector hands the socket over at the end.\<close>

definition Client_HandleWrite :: "('cb, 'k) conn_sys \<Rightarrow> 'c conn_env \<Rightarrow> ('cb, 'k, 'c) TcpClient \<Rightarrow> ('cb, 'k, 'c) TcpClient res" where
  "Client_HandleWrite sys env s =
     rbind (Connector_HandleWrite sys True (connector s)) (\<lambda>c.
       let s1 = s\<lparr>connector := c\<rparr> in
       if length (handed c) = length (handed (connector s)) then Inr s1
       else Client_NewConnection sys env True (last (handed c)) s1)"

text \<open>
  The close callback.  Its call of \<^verbatim>\<open>ConnectionDestroyed\<close> is part of the connection's own run (owner
  \<open>SameLoop\<close> of theory \<open>Tcp\<close>); this is what it does with the client.
\<close>

definition Client_HandleClose :: "('cb, 'k) conn_sys \<Rightarrow> nat \<Rightarrow> bool \<Rightarrow> ('cb, 'k, 'c) TcpClient \<Rightarrow> ('cb, 'k, 'c) TcpClient res" where
  "Client_HandleClose sys a inLoop s =
     ensure inLoop
       (let s1 = s\<lparr>connection := None, closing := closing s - 1\<rparr> in
        if cliRetry s1
        then rbind (Restart sys a inLoop (connector s1)) (\<lambda>c. Inr (s1\<lparr>connector := c\<rparr>))
        else Inr s1)"

section \<open>Steps\<close>

text \<open>
  The client in its loop.  A close callback ends before anything else happens in the loop.
\<close>

inductive client_step :: "('k \<Rightarrow> int set) \<Rightarrow> ('k \<Rightarrow> int \<Rightarrow> (32 word \<times> nat) option) \<Rightarrow> ('cb, 'k) conn_sys \<Rightarrow> 'c conn_env \<Rightarrow>
    ('cb, 'k, 'c) TcpClient \<Rightarrow> ('cb, 'k, 'c) TcpClient \<Rightarrow> bool" for opened interest sys env where
  connect: "closing s = 0 \<Longrightarrow> \<not> started (connector s) \<Longrightarrow> chans (cp (connector s)) a = None \<Longrightarrow>
    Client_Connect sys a inLoop s = Inr t \<Longrightarrow> client_step opened interest sys env s t"
| stop: "closing s = 0 \<Longrightarrow> Client_Stop sys inLoop s = Inr t \<Longrightarrow> client_step opened interest sys env s t"
| disconnect: "closing s = 0 \<Longrightarrow> Client_Disconnect inLoop s = Inr t \<Longrightarrow> client_step opened interest sys env s t"
| settings: "closing s = 0 \<Longrightarrow> client_step opened interest sys env s
    (s\<lparr>cliRetry := on, cliWriteComplete := wc, cliMessage := msg\<rparr>)"
| task: "closing s = 0 \<Longrightarrow> chans (cp (connector s)) a = None \<Longrightarrow> run_connector_task sys a (connector s) = Inr c \<Longrightarrow>
    client_step opened interest sys env s (s\<lparr>connector := c\<rparr>)"
| expire: "closing s = 0 \<Longrightarrow> chans (cp (connector s)) a = None \<Longrightarrow> retry_expires sys a (connector s) = Inr c \<Longrightarrow>
    client_step opened interest sys env s (s\<lparr>connector := c\<rparr>)"
| writable: "closing s = 0 \<Longrightarrow> connecting (connector s) \<Longrightarrow> Client_HandleWrite sys env s = Inr t \<Longrightarrow>
    client_step opened interest sys env s t"
| io: "closing s = 0 \<Longrightarrow> i < length (cliConns s) \<Longrightarrow> conn_step env (snd (cliConns s ! i)) c \<Longrightarrow>
    client_step opened interest sys env s (conn_done i c s)"
| closed: "0 < closing s \<Longrightarrow> chans (cp (connector s)) a = None \<Longrightarrow> Client_HandleClose sys a True s = Inr t \<Longrightarrow>
    client_step opened interest sys env s t"
| others: "conn_ok opened interest ((connector s)\<lparr>cp := p\<rparr>) \<Longrightarrow>
    client_step opened interest sys env s (s\<lparr>connector := (connector s)\<lparr>cp := p\<rparr>\<rparr>)"

definition client_init :: "('k \<Rightarrow> int set) \<Rightarrow> ('k \<Rightarrow> int \<Rightarrow> (32 word \<times> nat) option) \<Rightarrow> ('cb, 'k) conn_sys \<Rightarrow> 'c conn_env \<Rightarrow>
    ('cb, 'k, 'c) TcpClient \<Rightarrow> bool" where
  "client_init opened interest sys env s \<longleftrightarrow> kernel_spec opened interest sys \<and>
     (\<exists>sw script depth. write_spec sw \<and> script_fits script \<and> env = the_env sw script SameLoop depth) \<and>
     (\<exists>p addr name. registry interest p \<and> s = TcpClient_new p addr name)"

section \<open>The invariant\<close>

definition no_late :: "('cb, 'k, 'c) TcpClient \<Rightarrow> bool" where
  "no_late s \<longleftrightarrow> (\<forall>i<length (cliConns s). \<not> lateForce (snd (cliConns s ! i)))"

definition conns_wf :: "('cb, 'k, 'c) TcpClient \<Rightarrow> bool" where
  "conns_wf s \<longleftrightarrow> cliCount s = length (cliConns s) \<and>
     (\<forall>i<length (cliConns s). (\<exists>addr. fst (cliConns s ! i) = connection_name addr (Suc i)) \<and>
        conn_inv 0 (snd (cliConns s ! i))) \<and>
     (\<forall>i. connection s = Some i \<longrightarrow> i < length (cliConns s)) \<and> (cliConns s = [] \<longrightarrow> closing s = 0) \<and>
     (cliConns s \<noteq> [] \<longrightarrow> started (connector s) \<and> TaskStart \<notin> set (ctasks (connector s)))"

definition one_alive :: "('cb, 'k, 'c) TcpClient \<Rightarrow> bool" where
  "one_alive s \<longleftrightarrow>
     (case connection s of
        None \<Rightarrow> closing s = 0 \<and> (\<forall>i<length (cliConns s). destroyed (snd (cliConns s ! i)) = 1)
      | Some i \<Rightarrow> length (cliConns s) = Suc i \<and> (\<forall>j<i. destroyed (snd (cliConns s ! j)) = 1) \<and>
          destroyed (snd (cliConns s ! i)) = closing s \<and> closing s \<le> 1 \<and> quiet (connector s))"

definition client_inv :: "('k \<Rightarrow> int set) \<Rightarrow> ('k \<Rightarrow> int \<Rightarrow> (32 word \<times> nat) option) \<Rightarrow> ('cb, 'k) conn_sys \<Rightarrow> 'c conn_env \<Rightarrow>
    ('cb, 'k, 'c) TcpClient \<Rightarrow> bool" where
  "client_inv opened interest sys env s \<longleftrightarrow> kernel_spec opened interest sys \<and> keeps env \<and> grows_env env \<and>
     connector_inv opened interest (connector s) \<and> conns_wf s \<and> (no_late s \<longrightarrow> one_alive s)"

text \<open>What most steps of the connector leave as it is.\<close>

definition calm :: "('cb, 'k) Connector \<Rightarrow> ('cb, 'k) Connector \<Rightarrow> bool" where
  "calm c c' \<longleftrightarrow> started c' = started c \<and> (TaskStart \<notin> set (ctasks c) \<longrightarrow> TaskStart \<notin> set (ctasks c')) \<and>
     (quiet c \<and> TaskStart \<notin> set (ctasks c) \<longrightarrow> quiet c')"

lemma retry_part_frame: "retry_part t = retry_part s \<Longrightarrow> started t = started s \<and> ctasks t = ctasks s"
  by (simp add: retry_part_def)

lemma StartInLoop_frame:
  assumes "kernel_spec opened interest sys" "conn_ok opened interest s" "\<not> connecting s" "chans (cp s) a = None"
    and "StartInLoop sys a True s = Inr t"
  shows "started t = started s \<and> ctasks t = ctasks s"
proof -
  have "if cstop s then t = s else attempted s t"
    using or_fatal_Inr [OF StartInLoop_ok [OF assms(1-4)] assms(5)] by blast
  then show ?thesis
    using retry_part_frame [of t s] retry_part_frame [of t "Retry s"] by (auto simp: attempted_def split: if_splits)
qed

lemma StopInLoop_frame:
  assumes spec: "kernel_spec opened interest sys" and ok: "conn_ok opened interest s"
    and arm: "armed s = [] \<or> (\<exists>i d. armed s = [(i, d)] \<and> timerIdx s = Some i)" and r: "StopInLoop sys True s = Inr t"
  shows "started t = started s \<and> ctasks t = ctasks s \<and> quiet t"
proof -
  have con: "\<not> connecting s" using StopInLoop_connecting [OF spec ok] r by auto
  have "retry_part t = retry_part (CancelRetry s) \<and> quiet t"
    using StopInLoop_idle [OF spec ok con arm] r by auto
  then show ?thesis using retry_part_frame [of t "CancelRetry s"] by simp
qed

lemma connector_invD:
  "connector_inv opened interest s \<Longrightarrow> conn_ok opened interest s"
  "connector_inv opened interest s \<Longrightarrow> armed s = [] \<or> (\<exists>i d. armed s = [(i, d)] \<and> timerIdx s = Some i)"
  "connector_inv opened interest s \<Longrightarrow> connecting s \<Longrightarrow> armed s = [] \<and> started s \<and> TaskStart \<notin> set (ctasks s)"
  by (auto simp: connector_inv_def retry_ok_def quiet_def)

lemma Stop_calm:
  assumes spec: "kernel_spec opened interest sys" and i: "connector_inv opened interest s"
    and r: "Connector_Stop sys inLoop s = Inr t"
  shows "calm s t"
proof (cases inLoop)
  case True
  have "conn_ok opened interest (s\<lparr>cstop := True\<rparr>)" using connector_invD(1) [OF i] by (simp add: conn_ok_def channel_ok_def)
  from StopInLoop_frame [OF spec this] connector_invD(2) [OF i] r True show ?thesis
    by (simp add: Connector_Stop_def calm_def)
next
  case False
  then show ?thesis using r by (auto simp: Connector_Stop_def calm_def quiet_def)
qed

lemma run_connector_task_calm:
  assumes spec: "kernel_spec opened interest sys" and i: "connector_inv opened interest s"
    and fresh: "chans (cp s) a = None" and r: "run_connector_task sys a s = Inr t"
  shows "calm s t"
proof (cases "ctasks s")
  case Nil
  then show ?thesis using r by (simp add: run_connector_task_def calm_def)
next
  case (Cons x xs)
  have ok: "conn_ok opened interest (s\<lparr>ctasks := xs\<rparr>)"
    using connector_invD(1) [OF i] by (simp add: conn_ok_def channel_ok_def)
  show ?thesis
  proof (cases x)
    case TaskStart
    have "\<not> connecting s" using connector_invD(3) [OF i] Cons TaskStart by auto
    then show ?thesis using StartInLoop_frame [OF spec ok _ _, of a t] fresh r Cons TaskStart
      by (simp add: run_connector_task_def calm_def)
  next
    case TaskStop
    then show ?thesis using StopInLoop_frame [OF spec ok] connector_invD(2) [OF i] r Cons
      by (auto simp: run_connector_task_def calm_def)
  qed
qed

lemma retry_expires_calm:
  assumes spec: "kernel_spec opened interest sys" and i: "connector_inv opened interest s"
    and fresh: "chans (cp s) a = None" and r: "retry_expires sys a s = Inr t"
  shows "calm s t"
proof (cases "armed s")
  case Nil
  then show ?thesis using r by (simp add: retry_expires_def calm_def)
next
  case (Cons x xs)
  have ok: "conn_ok opened interest (s\<lparr>armed := xs\<rparr>)"
    using connector_invD(1) [OF i] by (simp add: conn_ok_def channel_ok_def)
  have con: "\<not> connecting s" using connector_invD(3) [OF i] Cons by auto
  have "StartInLoop sys a True (s\<lparr>armed := xs\<rparr>) = Inr t" using r Cons by (simp add: retry_expires_def)
  from StartInLoop_frame [OF spec ok _ _ this] fresh con show ?thesis
    using Cons by (simp add: calm_def quiet_def)
qed

lemma Restart_frame:
  assumes spec: "kernel_spec opened interest sys" and i: "connector_inv opened interest s"
    and fresh: "chans (cp s) a = None" and r: "Restart sys a True s = Inr t"
  shows "started t = started s \<and> ctasks t = ctasks s"
proof -
  obtain p where p: "leave_connecting sys True s = Inr (s\<lparr>cp := p, connecting := False\<rparr>)"
    "conn_ok opened interest (s\<lparr>cp := p, connecting := False\<rparr>)" "chans p a = None"
    using leave_connecting_ok [OF spec connector_invD(1) [OF i]] fresh by blast
  let ?s2 = "CancelRetry (s\<lparr>cp := p, connecting := False, retryDelay := kInitRetryDelay, delays := [], cstop := False\<rparr>)"
  have ok: "conn_ok opened interest ?s2" using p(2) by (simp add: conn_ok_def channel_ok_def)
  have "StartInLoop sys a True ?s2 = Inr t" using r p(1) by (simp add: Restart_def)
  from StartInLoop_frame [OF spec ok _ _ this] p(3) show ?thesis by simp
qed

lemma Retry_handed [simp]: "handed (Retry s) = handed s"
  by (simp add: Retry_def)

lemma Connector_HandleWrite_frame:
  assumes spec: "kernel_spec opened interest sys" and i: "connector_inv opened interest s" and con: "connecting s"
    and r: "Connector_HandleWrite sys True s = Inr t"
  shows "started t = started s \<and> ctasks t = ctasks s \<and> (length (handed t) \<noteq> length (handed s) \<longrightarrow> quiet t)"
proof -
  obtain p where p: "UnregisterForConnecting sys True s = Inr (s\<lparr>cp := p\<rparr>)"
    using Unregister_ok [OF spec connector_invD(1) [OF i] con] by blast
  show ?thesis
    using r p connector_invD(3) [OF i con]
    by (auto simp: Connector_HandleWrite_def Let_def res_simps quiet_def split: option.splits if_splits)
qed

section \<open>The client keeps its invariant\<close>

lemma client_invD:
  assumes "client_inv opened interest sys env s"
  shows "kernel_spec opened interest sys" "keeps env" "grows_env env" "connector_inv opened interest (connector s)"
    "conns_wf s" "no_late s \<Longrightarrow> one_alive s"
  using assms by (auto simp: client_inv_def)

lemma client_connector_inv:
  assumes inv: "client_inv opened interest sys env s" and c: "connector_inv opened interest c"
    and q: "calm (connector s) c"
  shows "client_inv opened interest sys env (s\<lparr>connector := c\<rparr>)"
proof -
  note D = client_invD [OF inv]
  have w: "conns_wf (s\<lparr>connector := c\<rparr>)" using D(5) q by (auto simp: conns_wf_def calm_def)
  have "quiet c" if "connection s = Some i" "quiet (connector s)" for i
    using that D(5) q by (auto simp: conns_wf_def calm_def)
  then have "one_alive (s\<lparr>connector := c\<rparr>)" if "one_alive s"
    using that by (auto simp: one_alive_def split: option.splits)
  then show ?thesis using D w c by (simp add: client_inv_def no_late_def)
qed

text \<open>One connection moves on.\<close>

lemma destroyed_bound: "conn_inv 0 c \<Longrightarrow> \<not> lateForce c \<Longrightarrow> destroyed c \<le> 1"
  by (auto simp: conn_inv_defs split: if_splits)

lemma conn_done_fields [simp]:
  "connector (conn_done i c s) = connector s" "connection (conn_done i c s) = connection s"
  "cliCount (conn_done i c s) = cliCount s" "length (cliConns (conn_done i c s)) = length (cliConns s)"
  "cliConns (conn_done i c s) = [] \<longleftrightarrow> cliConns s = []"
  "closing (conn_done i c s) = closing s + (destroyed c - destroyed (snd (cliConns s ! i)))"
  by (simp_all add: conn_done_def)

lemma conn_done_nth:
  "j < length (cliConns s) \<Longrightarrow> cliConns (conn_done i c s) ! j = (fst (cliConns s ! j), if j = i then c else snd (cliConns s ! j))"
  by (auto simp: conn_done_def nth_list_update)

lemma conn_done_wf:
  assumes "conns_wf s" "i < length (cliConns s)" "conn_inv 0 c"
  shows "conns_wf (conn_done i c s)"
  using assms unfolding conns_wf_def by (auto simp: conn_done_nth)

lemma conn_done_no_late:
  assumes "no_late (conn_done i c s)" "i < length (cliConns s)" "ages (snd (cliConns s ! i)) c"
  shows "no_late s" "\<not> lateForce c"
proof -
  have l: "\<not> lateForce (if j = i then c else snd (cliConns s ! j))" if "j < length (cliConns s)" for j
    using assms(1) that unfolding no_late_def by (auto simp: conn_done_nth)
  show "\<not> lateForce c" using l [OF assms(2)] by simp
  then have "\<not> lateForce (snd (cliConns s ! i))" using assms(3) by (auto simp: ages_def)
  then have "\<not> lateForce (snd (cliConns s ! j))" if "j < length (cliConns s)" for j
    using l [OF that] by (cases "j = i") simp_all
  then show "no_late s" by (simp add: no_late_def)
qed

lemma conn_done_alive:
  assumes al: "one_alive s" and wf: "conns_wf s" and cl: "closing s = 0" and i: "i < length (cliConns s)"
    and g: "ages (snd (cliConns s ! i)) c" and b: "destroyed c \<le> 1"
  shows "one_alive (conn_done i c s)"
proof (cases "connection s")
  case None
  then have d: "destroyed (snd (cliConns s ! j)) = 1" if "j < length (cliConns s)" for j
    using al that by (simp add: one_alive_def)
  then have "destroyed c = 1" using i g b by (simp add: ages_def)
  then show ?thesis using None d i cl by (simp add: one_alive_def conn_done_nth)
next
  case (Some k)
  have a: "length (cliConns s) = Suc k" "\<And>j. j < k \<Longrightarrow> destroyed (snd (cliConns s ! j)) = 1"
    "destroyed (snd (cliConns s ! k)) = 0" "quiet (connector s)"
    using al Some cl by (auto simp: one_alive_def)
  show ?thesis
  proof (cases "i = k")
    case True
    then show ?thesis using Some a cl b by (simp add: one_alive_def conn_done_nth)
  next
    case False
    then have "i < k" using i a(1) by simp
    then have "destroyed c = 1" using a(2) g b by (simp add: ages_def)
    then show ?thesis using Some a cl \<open>i < k\<close> by (simp add: one_alive_def conn_done_nth)
  qed
qed

lemma conn_done_inv:
  assumes inv: "client_inv opened interest sys env s" and cl: "closing s = 0" and i: "i < length (cliConns s)"
    and c: "conn_inv 0 c" and g: "ages (snd (cliConns s ! i)) c"
  shows "client_inv opened interest sys env (conn_done i c s)"
proof -
  note D = client_invD [OF inv]
  have "one_alive (conn_done i c s)" if nl: "no_late (conn_done i c s)"
    using conn_done_alive [OF D(6) [OF conn_done_no_late(1) [OF nl i g]] D(5) cl i g]
      destroyed_bound [OF c conn_done_no_late(2) [OF nl i g]] by blast
  then show ?thesis using D conn_done_wf [OF D(5) i c] by (simp add: client_inv_def)
qed

text \<open>A new connection takes the place of those that are gone.\<close>

lemma NewConnection_client_inv:
  assumes inv: "client_inv opened interest sys env s" and cl: "closing s = 0" and none: "no_late s \<Longrightarrow> connection s = None"
    and c: "connector_inv opened interest k" "started k" "TaskStart \<notin> set (ctasks k)" "quiet k"
    and r: "Client_NewConnection sys env True fd (s\<lparr>connector := k\<rparr>) = Inr t"
  shows "client_inv opened interest sys env t"
proof -
  note D = client_invD [OF inv]
  let ?c = "conn_fresh fresh_buffer (cliWriteComplete s) (cliMessage s) False" and ?i = "length (cliConns s)"
  let ?name = "connection_name (serverAddr k) (Suc (cliCount s))"
  let ?s = "s\<lparr>connector := k, cliCount := Suc (cliCount s), cliConns := cliConns s @ [(?name, ?c)], connection := Some ?i\<rparr>"
  have ci: "conn_inv 0 ?c" "destroyed ?c = 0" by (simp_all add: conn_inv_defs conn_fresh_def)
  obtain c1 where c1: "ConnectionEstablished env True ?c = Inr c1" "t = conn_done ?i c1 ?s"
    using r by (auto simp: Client_NewConnection_def TcpConnection_new_eq res_simps Let_def)
  have wf: "conns_wf ?s"
    using D(5) ci(1) c(2,3) by (auto simp: conns_wf_def nth_append less_Suc_eq)
  have late: "no_late s" if "no_late ?s" using that by (auto simp: no_late_def nth_append less_Suc_eq split: if_splits)
  have "one_alive ?s" if nl: "no_late ?s"
    using D(6) [OF late [OF nl]] none [OF late [OF nl]] cl ci(2) c(4) by (simp add: one_alive_def nth_append)
  then have "client_inv opened interest sys env ?s" using D(1-3) c(1) wf by (simp add: client_inv_def)
  from conn_done_inv [OF this] c1 cl show ?thesis
    using ConnectionEstablished_inv [OF D(2) ci(1) c1(1)] grows_ages [OF ConnectionEstablished_grows [OF D(3) c1(1)]] by simp
qed

lemma HandleWrite_client_inv:
  assumes inv: "client_inv opened interest sys env s" and cl: "closing s = 0" and con: "connecting (connector s)"
    and r: "Client_HandleWrite sys env s = Inr t"
  shows "client_inv opened interest sys env t"
proof -
  note D = client_invD [OF inv]
  obtain c where c: "Connector_HandleWrite sys True (connector s) = Inr c"
    and t: "if length (handed c) = length (handed (connector s)) then t = s\<lparr>connector := c\<rparr>
      else Client_NewConnection sys env True (last (handed c)) (s\<lparr>connector := c\<rparr>) = Inr t"
    using r by (auto simp: Client_HandleWrite_def res_simps Let_def split: if_splits)
  note i = or_fatal_Inr [OF Connector_HandleWrite_inv [OF D(1) D(4) con] c]
  note f = Connector_HandleWrite_frame [OF D(1) D(4) con c]
  show ?thesis
  proof (cases "length (handed c) = length (handed (connector s))")
    case True
    have "calm (connector s) c" using f con by (simp add: calm_def quiet_def)
    from client_connector_inv [OF inv i this] t True show ?thesis by simp
  next
    case False
    have "connection s = None" if "no_late s"
      using D(6) [OF that] con by (auto simp: one_alive_def quiet_def split: option.splits)
    then show ?thesis
      using NewConnection_client_inv [OF inv cl _ i] f connector_invD(3) [OF D(4) con] t False by simp
  qed
qed

lemma HandleClose_client_inv:
  assumes inv: "client_inv opened interest sys env s" and cl: "0 < closing s"
    and fresh: "chans (cp (connector s)) a = None"
  shows "or_fatal (client_inv opened interest sys env) (Client_HandleClose sys a True s)"
proof -
  note D = client_invD [OF inv]
  let ?s = "s\<lparr>connection := None, closing := closing s - 1\<rparr>"
  have al: "one_alive (?s\<lparr>connector := c\<rparr>)" if "one_alive s" for c
    using that cl by (auto simp: one_alive_def less_Suc_eq split: option.splits)
  have i: "client_inv opened interest sys env (?s\<lparr>connector := c\<rparr>)"
    if "connector_inv opened interest c" "started c = started (connector s)" "ctasks c = ctasks (connector s)" for c
    using D that al by (simp add: client_inv_def conns_wf_def no_late_def)
  have st: "started (connector s)" "TaskStart \<notin> set (ctasks (connector s))" if "cliConns s \<noteq> []"
    using D(5) that by (simp_all add: conns_wf_def)
  show ?thesis
  proof (cases "cliRetry s")
    case False
    then show ?thesis using i [of "connector s"] D(4) by (simp add: Client_HandleClose_def)
  next
    case True
    have "cliConns s \<noteq> []" using D(5) cl by (auto simp: conns_wf_def)
    note st = st [OF this]
    have "or_fatal (client_inv opened interest sys env)
        (rbind (Restart sys a True (connector s)) (\<lambda>c. Inr (?s\<lparr>connector := c\<rparr>)))"
    proof (rule or_fatal_rbind [OF Restart_inv [OF D(1) D(4) st fresh]])
      fix c assume "Restart sys a True (connector s) = Inr c" "connector_inv opened interest c"
      then show "or_fatal (client_inv opened interest sys env) (Inr (?s\<lparr>connector := c\<rparr>))"
        using i [of c] Restart_frame [OF D(1) D(4) fresh] by simp
    qed
    then show ?thesis using True by (simp add: Client_HandleClose_def)
  qed
qed

lemma settings_simps:
  fixes s :: "('cb, 'k, 'c) TcpClient" and on wc msg :: bool
  defines "t \<equiv> s\<lparr>cliRetry := on, cliWriteComplete := wc, cliMessage := msg\<rparr>"
  shows "conns_wf t = conns_wf s" "no_late t = no_late s" "one_alive t = one_alive s" "connector t = connector s"
  unfolding t_def by (cases "connection s"; simp add: conns_wf_def no_late_def one_alive_def)+

lemma client_step_inv:
  assumes inv: "client_inv opened interest sys env s" and st: "client_step opened interest sys env s t"
  shows "client_inv opened interest sys env t"
  using st
proof cases
  case (connect a inLoop)
  note D = client_invD [OF inv]
  obtain c where c: "Connector_Start sys a inLoop (connector s) = Inr c" "t = s\<lparr>connector := c\<rparr>"
    using connect by (auto simp: Client_Connect_def res_simps)
  have none: "cliConns s = []" "connection s = None" using D(5) connect by (auto simp: conns_wf_def)
  moreover have "connector_inv opened interest c"
    by (rule or_fatal_Inr [OF Start_inv [OF D(1) D(4)] c(1)]) (use connect in simp_all)
  ultimately show ?thesis using D c(2) connect(1) by (simp add: client_inv_def conns_wf_def one_alive_def)
next
  case (stop inLoop)
  note D = client_invD [OF inv]
  obtain c where c: "Connector_Stop sys inLoop (connector s) = Inr c" "t = s\<lparr>connector := c\<rparr>"
    using stop by (auto simp: Client_Stop_def res_simps)
  show ?thesis unfolding c(2)
    by (rule client_connector_inv [OF inv or_fatal_Inr [OF Stop_inv [OF D(1) D(4)] c(1)] Stop_calm [OF D(1) D(4) c(1)]])
next
  case (disconnect inLoop)
  note D = client_invD [OF inv]
  obtain i c where i: "connection s = Some i" "Shutdown inLoop (snd (cliConns s ! i)) = Inr c" "t = conn_done i c s"
    using disconnect by (auto simp: Client_Disconnect_def res_simps split: option.splits)
  have "i < length (cliConns s)" "conn_inv 0 (snd (cliConns s ! i))" using D(5) i(1) by (simp_all add: conns_wf_def)
  then show ?thesis unfolding i(3)
    using conn_done_inv [OF inv disconnect(1)] Shutdown_inv [OF _ i(2)] grows_ages [OF reading_grows(6) [OF i(2)]] by blast
next
  case (settings on wc msg)
  then show ?thesis using inv by (simp add: client_inv_def settings_simps)
next
  case (task a c)
  note D = client_invD [OF inv]
  show ?thesis unfolding task(1)
    by (rule client_connector_inv [OF inv or_fatal_Inr [OF run_connector_task_inv [OF D(1) D(4)]] run_connector_task_calm [OF D(1) D(4)]])
      (fact task)+
next
  case (expire a c)
  note D = client_invD [OF inv]
  show ?thesis unfolding expire(1)
    by (rule client_connector_inv [OF inv or_fatal_Inr [OF retry_expires_inv [OF D(1) D(4)]] retry_expires_calm [OF D(1) D(4)]])
      (fact expire)+
next
  case writable
  then show ?thesis by (intro HandleWrite_client_inv [OF inv])
next
  case (io i c)
  note D = client_invD [OF inv]
  have "conn_inv 0 (snd (cliConns s ! i))" using D(5) io(3) by (simp add: conns_wf_def)
  then show ?thesis unfolding io(1)
    using conn_done_inv [OF inv io(2,3)] conn_step_inv [OF D(2) _ io(4)] conn_step_ages [OF D(3) io(4)] by blast
next
  case (closed a)
  then show ?thesis using or_fatal_Inr [OF HandleClose_client_inv [OF inv]] by blast
next
  case (others p)
  have "connector_inv opened interest ((connector s)\<lparr>cp := p\<rparr>)"
    using others(2) client_invD(4) [OF inv] by (simp add: connector_inv_def retry_ok_def quiet_def)
  then show ?thesis unfolding others(1) by (rule client_connector_inv [OF inv]) (simp add: calm_def quiet_def)
qed

interpretation client: invariant "client_init opened interest sys env" "client_step opened interest sys env"
  "client_inv opened interest sys env" for opened interest sys env
proof unfold_locales
  fix s assume s: "client_init opened interest sys env s"
  then obtain p addr name where p: "registry interest p" "s = TcpClient_new p addr name" "kernel_spec opened interest sys"
    by (auto simp: client_init_def)
  have "keeps env" "grows_env env" using s call_back_keeps the_env_grows by (auto simp: client_init_def)
  moreover have "connector_inv opened interest (Connector_new p addr True)"
    using connector.inv_init [of opened interest sys "Connector_new p addr True"] p
    by (auto simp: connector_init_def)
  ultimately show "client_inv opened interest sys env s"
    using p by (simp add: client_inv_def TcpClient_new_def conns_wf_def one_alive_def)
qed (use client_step_inv in blast)

section \<open>Properties\<close>


text \<open>A client connects, and the peer hangs up.\<close>

definition demo_client_env :: "unit conn_env" where
  "demo_client_env = the_env one_byte no_calls SameLoop 1"

definition demo_client :: "(nat, demo_kernel, unit) TcpClient" where
  "demo_client = TcpClient_new
     \<lparr>loopId = 7, chans = (\<lambda>a. None), kernel = ([], []), channels = [], eventListSize = 16\<rparr> (InetAddress_any 80) ''c''"

abbreviation demo_client_reach :: "(nat, demo_kernel, unit) TcpClient \<Rightarrow> bool" where
  "demo_client_reach \<equiv> reach (client_init demo_open demo_interest (demo_sys ConnINPROGRESS) demo_client_env)
     (client_step demo_open demo_interest (demo_sys ConnINPROGRESS) demo_client_env)"

lemma client_reach_step:
  "reach I (client_step opened interest sys env) s \<Longrightarrow> client_step opened interest sys env s t \<Longrightarrow>
    reach I (client_step opened interest sys env) t"
  by (rule reach_step)

lemma demo_connecting_writable:
  "\<exists>c. Connector_HandleWrite (demo_sys ConnINPROGRESS) True demo_connecting = Inr c \<and> handed c = [3] \<and>
     handed demo_connecting = []"
proof -
  have "htobe16 80 \<noteq> htobe16 81" by (simp add: htobe16_def)
  then show ?thesis
    by (simp add: demo_connecting_def inr_of_def connector_eval Connector_HandleWrite_def UnregisterForConnecting_def
        RemoveFromPoller_def Loop_RemoveChannel_def Poller_RemoveChannel_def ErrorCode_def IsSelfConnect_def LocalAddress_def
        PeerAddress_def InetAddress_any_def)
qed

lemma demo_client_connected:
  "\<exists>s. demo_client_reach s \<and> connection s = Some 0 \<and> closing s = 0 \<and> length (cliConns s) = 1 \<and>
     \<not> lateForce (snd (cliConns s ! 0))"
proof -
  let ?sys = "demo_sys ConnINPROGRESS"
  have "demo_client_reach demo_client"
    by (rule reach_init)
      (auto simp: client_init_def demo_kernel_spec demo_client_def demo_client_env_def registry_def demo_interest_def
        map_wf_def one_byte_spec intro!: exI [of _ one_byte] exI [of _ no_calls]
        exI [of _ "\<lparr>loopId = 7, chans = (\<lambda>a. None), kernel = ([], []), channels = [], eventListSize = 16\<rparr>"])
  moreover have k: "connector demo_client = demo_connector" by (simp add: demo_client_def TcpClient_new_def demo_connector_def)
  moreover have "client_step demo_open demo_interest ?sys demo_client_env demo_client (demo_client\<lparr>connector := demo_connecting\<rparr>)"
    by (rule client_step.connect [of _ 0 _ True])
      (use demo_connecting_eq(1) k in \<open>simp_all add: Client_Connect_def demo_client_def TcpClient_new_def
        demo_connector_def Connector_new_def\<close>)
  ultimately have 1: "demo_client_reach (demo_client\<lparr>connector := demo_connecting\<rparr>)"
    by (blast intro: client_reach_step)
  obtain c where c: "Connector_HandleWrite ?sys True demo_connecting = Inr c" "handed c = [3]" "handed demo_connecting = []"
    using demo_connecting_writable by blast
  let ?s = "demo_client\<lparr>connector := demo_connecting\<rparr>"
  obtain t where t: "Client_HandleWrite ?sys demo_client_env ?s = Inr t" "connection t = Some 0" "closing t = 0"
    "length (cliConns t) = 1" "\<not> lateForce (snd (cliConns t ! 0))"
    using c by (simp add: TcpConnection_new_eq Client_HandleWrite_def Client_NewConnection_def demo_client_def TcpClient_new_def
        demo_client_env_def LocalAddress_def demo_sys_def demo_api_def conn_done_def conn_eval)
  have "client_step demo_open demo_interest ?sys demo_client_env ?s t"
    by (rule client_step.writable [OF _ _ t(1)]) (simp_all add: demo_client_def TcpClient_new_def demo_connecting_eq)
  then show ?thesis using client_reach_step [OF 1] t by blast
qed


end
