(* ===== verification/EchoClients.thy ===== *)
theory EchoClients
  imports Clients EventLoops
begin

text \<open>
  The echo client of \<^verbatim>\<open>src/net/tests/EchoClient.cc\<close>, a program over \<^verbatim>\<open>TcpClient\<close> (theory
  \<open>Clients\<close>): it sends what is typed and prints what arrives.  What a session with the server looks like
  from the client is the subject of theory \<open>Sessions\<close>.
\<close>

section \<open>The program\<close>

text \<open>\<open>ecChannel\<close> is the channel on the standard input in the poller of the client's loop.\<close>

record ('cb, 'k, 'c) EchoClient =
  ecClient :: "('cb, 'k, 'c) TcpClient"
  ecChannel :: nat

definition EchoClient_new :: "'k epoll_ctl \<Rightarrow> bool \<Rightarrow> nat \<Rightarrow> 'cb \<Rightarrow> InetAddress \<Rightarrow> string \<Rightarrow> ('cb, 'k) Poller \<Rightarrow>
    ('cb, 'k, 'c) EchoClient res" where
  "EchoClient_new ectl inLoop a cb addr name p =
     rbind (SetReadCallback a cb (Channel_create a (loopId p) 0 p)) (\<lambda>p1.
     rbind (change_events ectl inLoop EnableReading a p1) (\<lambda>p2.
       Inr \<lparr>ecClient = (TcpClient_new p2 addr name)\<lparr>cliMessage := True\<rparr>, ecChannel = a\<rparr>))"

text \<open>The destructor's body.\<close>

definition EchoClient_close :: "'k epoll_ctl \<Rightarrow> bool \<Rightarrow> ('cb, 'k, 'c) EchoClient \<Rightarrow> ('cb, 'k, 'c) EchoClient res" where
  "EchoClient_close ectl inLoop s =
     (let c = connector (ecClient s) in
      rbind (change_events ectl inLoop DisableAll (ecChannel s) (cp c)) (\<lambda>p1.
      rbind (RemoveFromPoller ectl inLoop (ecChannel s) p1) (\<lambda>p2.
        Inr (s\<lparr>ecClient := (ecClient s)\<lparr>connector := c\<lparr>cp := p2\<rparr>\<rparr>\<rparr>))))"

definition EchoClient_Start :: "('cb, 'k) conn_sys \<Rightarrow> nat \<Rightarrow> bool \<Rightarrow> ('cb, 'k, 'c) EchoClient \<Rightarrow> ('cb, 'k, 'c) EchoClient res" where
  "EchoClient_Start sys a inLoop s = rbind (Client_Connect sys a inLoop (ecClient s)) (\<lambda>t. Inr (s\<lparr>ecClient := t\<rparr>))"

text \<open>\<^verbatim>\<open>OnConnection\<close> ends the loop when the connection is gone; the output on the terminal is left out.\<close>

definition EchoClient_OnConnection :: "bool \<Rightarrow> 'f EventLoop \<Rightarrow> 'f EventLoop" where
  "EchoClient_OnConnection isConnected l = (if isConnected then l else Quit True l)"

text \<open>The callbacks' calls on the connection.\<close>

definition echo_client_script :: "conn_event \<Rightarrow> 'c TcpConnection \<Rightarrow> 'c conn_op list" where
  "echo_client_script ev s = (case ev of EvMessage \<Rightarrow> [OpRetrieve (length (content (inputBuffer s)))] | _ \<Rightarrow> [])"

text \<open>
  \<open>input\<close> is the answer of \<^verbatim>\<open>read\<close> on the standard input, \<open>None\<close> for -1 and \<open>[]\<close> at its end.  The pointer to
  the connection is not tested; after an error the length is \<^verbatim>\<open>static_cast<size_t>(-1)\<close>, and a send on a
  connection that is up reads beyond the array.
\<close>

definition EchoClient_OnInput :: "'c conn_env \<Rightarrow> string option \<Rightarrow> ('cb, 'k, 'c) EchoClient \<Rightarrow> ('cb, 'k, 'c) EchoClient res" where
  "EchoClient_OnInput env input s =
     (case connection (ecClient s) of
        None \<Rightarrow> Inl Undefined
      | Some i \<Rightarrow>
          let c = snd (cliConns (ecClient s) ! i) in
          (case input of
             None \<Rightarrow> if tstate c = kConnected then Inl Undefined else Inr s
           | Some d \<Rightarrow> rbind (Send env True d c) (\<lambda>c1. Inr (s\<lparr>ecClient := conn_done i c1 (ecClient s)\<rparr>))))"

section \<open>What it does\<close>

lemma EchoClient_loop_ends: "quit (EchoClient_OnConnection isConnected l) \<longleftrightarrow> quit l \<or> \<not> isConnected"
  by (simp add: EchoClient_OnConnection_def Quit_def)

text \<open>Everything that arrives is taken out of the buffer.\<close>

lemma echo_client_prints_all:
  assumes "buf_inv (inputBuffer c)"
  shows "\<exists>t. rfold (run_op env True) (echo_client_script EvMessage c) c = Inr t \<and> content (inputBuffer t) = [] \<and>
    consumed t = consumed c @ content (inputBuffer c) \<and> accepted t = accepted c"
  using retrieve_all_ok [OF assms, of env] by (simp add: echo_client_script_def)

text \<open>
  A line typed while the connection is up is taken over whole; a line typed before the connection is up, or
  after it has gone, goes through a null pointer, and an error of the standard input reads outside the array.
\<close>

lemma EchoClient_input:
  assumes sw: "write_spec (sockWrite env)" "sock_never_fatal (sockWrite env)"
  shows "connection (ecClient s) = None \<Longrightarrow> EchoClient_OnInput env input s = Inl Undefined"
    and "connection (ecClient s) = Some i \<Longrightarrow> tstate (snd (cliConns (ecClient s) ! i)) = kConnected \<Longrightarrow>
      EchoClient_OnInput env None s = Inl Undefined"
    and "connection (ecClient s) = Some i \<Longrightarrow> c = snd (cliConns (ecClient s) ! i) \<Longrightarrow> i < length (cliConns (ecClient s)) \<Longrightarrow>
      tstate c = kConnected \<Longrightarrow> \<not> hasHighWater c \<Longrightarrow> \<not> hasWriteComplete c \<Longrightarrow> conn_inv 0 c \<Longrightarrow>
      buf_room (length d) (outputBuffer c) \<Longrightarrow>
      \<exists>t c'. EchoClient_OnInput env (Some d) s = Inr t \<and> cliConns (ecClient t) ! i = (fst (cliConns (ecClient s) ! i), c') \<and>
        accepted c' = accepted c @ d"
proof -
  show "EchoClient_OnInput env input s = Inl Undefined" if "connection (ecClient s) = None"
    using that by (simp add: EchoClient_OnInput_def)
  show "EchoClient_OnInput env None s = Inl Undefined"
    if "connection (ecClient s) = Some i" "tstate (snd (cliConns (ecClient s) ! i)) = kConnected"
    using that by (simp add: EchoClient_OnInput_def)
  show "\<exists>t c'. EchoClient_OnInput env (Some d) s = Inr t \<and> cliConns (ecClient t) ! i = (fst (cliConns (ecClient s) ! i), c') \<and>
      accepted c' = accepted c @ d"
    if h: "connection (ecClient s) = Some i" "c = snd (cliConns (ecClient s) ! i)" "i < length (cliConns (ecClient s))"
      "tstate c = kConnected" "\<not> hasHighWater c" "\<not> hasWriteComplete c" "conn_inv 0 c" "buf_room (length d) (outputBuffer c)"
  proof -
    have "buf_inv (outputBuffer c)" using h(7) by (simp add: conn_inv_def sending_ok_def)
    from Send_ok [OF sw h(4-6) this h(8)] obtain c' where "Send env True d c = Inr c'" "accepted c' = accepted c @ d" by blast
    with h(1-3) show ?thesis by (simp add: EchoClient_OnInput_def conn_done_def)
  qed
qed

text \<open>At the end of the standard input nothing is sent and the channel stays as it is: the loop spins.\<close>

lemma EchoClient_end_of_input:
  assumes "EchoClient_OnInput env (Some []) s = Inr t"
  shows "cp (connector (ecClient t)) = cp (connector (ecClient s)) \<and> ecChannel t = ecChannel s"
  using assms by (auto simp: EchoClient_OnInput_def res_simps conn_done_def Let_def split: option.splits)

end
