(* ===== verification/HttpLines.thy ===== *)
theory HttpLines
  imports Http
begin

text \<open>
  A reference for the header phase of \<^verbatim>\<open>HttpContext::ParseRequest\<close>, written on strings without a
  buffer, indices or regular expressions: a header line is split at its first colon, the lines at
  the first CR LF.  The parser of the code is equal to it, and so gives the same result whether
  the bytes of the headers arrive at once or in pieces.
\<close>

section \<open>The reference\<close>

text \<open>
  The name is what stands before the first colon, the value what follows it after the white space.
  When only white space follows, \<^verbatim>\<open>\s*\<close> gives its last character back and that is the value.
\<close>

definition header_fields :: "string \<Rightarrow> (string \<times> string) option" where
  "header_fields line =
     (let name = takeWhile (\<lambda>c. c \<noteq> CHR '':'') line;
          v = drop (Suc (length name)) line;
          w = dropWhile is_space v
      in if name = [] \<or> v = [] then None
         else if w \<noteq> [] then (if list_all is_dot w then Some (name, w) else None)
         else if is_dot (last v) then Some (name, [last v]) else None)"

fun split_crlf :: "string \<Rightarrow> (string \<times> string) option" where
  "split_crlf (x # y # s) =
     (if x = CHR 0x0D \<and> y = CHR 0x0A then Some ([], s)
      else map_option (\<lambda>(l, r). (x # l, r)) (split_crlf (y # s)))"
| "split_crlf _ = None"

lemma split_crlf_Some: "split_crlf s = Some (l, r) \<Longrightarrow> s = l @ kCRLF @ r"
  by (induction s arbitrary: l rule: split_crlf.induct) (auto simp: kCRLF_def split: if_splits)

lemma split_crlf_shorter: "split_crlf s = Some (l, r) \<Longrightarrow> length r < length s"
  by (frule split_crlf_Some) (simp add: kCRLF_def)

text \<open>The headers: the result of the parser, its context and what is left of the text.\<close>

function parse_headers :: "HttpRequest \<Rightarrow> string \<Rightarrow> bool \<times> HttpContext \<times> string" where
  "parse_headers r s =
     (case split_crlf s of
        None \<Rightarrow> (True, \<lparr>request = r, state = kExpectHeaders\<rparr>, s)
      | Some (line, rest) \<Rightarrow>
          (case header_fields line of
             Some (name, value) \<Rightarrow> parse_headers (AddHeader name value r) rest
           | None \<Rightarrow>
               if line = [] then (True, \<lparr>request = r\<lparr>req_body := rest\<rparr>, state = kGotAll\<rparr>, rest)
               else (False, \<lparr>request = r, state = kExpectHeaders\<rparr>, s)))"
  by pat_completeness auto
termination
  by (relation "measure (\<lambda>(r, s). length s)") (auto dest: split_crlf_shorter)

declare parse_headers.simps [simp del]

section \<open>Header lines\<close>

lemma star_splits_takeWhile:
  "star_splits P s = map (\<lambda>n. (take n s, drop n s)) (rev [0..<Suc (length (takeWhile P s))])"
proof (induction s)
  case (Cons x xs)
  show ?case
  proof (cases "P x")
    case True
    have "rev [0..<Suc (Suc n)] = map Suc (rev [0..<Suc n]) @ [0]" for n
      by (simp add: rev_map [symmetric] map_Suc_upt upt_conv_Cons del: upt_Suc)
    with True Cons.IH show ?thesis by (simp del: upt_Suc add: comp_def)
  qed simp
qed simp

text \<open>The greedy name: only the longest split is followed by a colon.\<close>

abbreviation (input) no_colon :: "char \<Rightarrow> bool" where
  "no_colon c \<equiv> c \<noteq> CHR '':''"

lemma colon_split:
  "concat (map (\<lambda>(a, b). case b of [] \<Rightarrow> [] | y # ys \<Rightarrow> if y = CHR '':'' then f a ys else []) (star_splits no_colon s)) =
    (case dropWhile no_colon s of [] \<Rightarrow> [] | y # ys \<Rightarrow> f (takeWhile no_colon s) ys)"
proof (induction s arbitrary: f)
  case (Cons x s)
  show ?case
  proof (cases "no_colon x")
    case True
    with Cons.IH [of "\<lambda>a. f (x # a)"] show ?thesis
      by (simp add: comp_def case_prod_unfold cong: list.case_cong if_cong)
  qed simp
qed simp

lemma run_name_colon:
  "rx_run (Seq (Group 1 (PlusC no_colon)) (Seq (Cls (\<lambda>c. c = CHR '':'')) e)) s =
    (if takeWhile no_colon s = [] then []
     else case dropWhile no_colon s of [] \<Rightarrow> []
          | y # v \<Rightarrow> map (\<lambda>(c, r, k). (takeWhile no_colon s @ CHR '':'' # c, r, (1, takeWhile no_colon s) # k)) (rx_run e v))"
proof (cases "takeWhile no_colon s = []")
  case True
  then show ?thesis by (cases s) (auto simp: PlusC_def split: if_splits)
next
  case False
  then obtain x xs where s: "s = x # xs" "no_colon x" by (cases s) (auto split: if_splits)
  let ?f = "\<lambda>a v. map (\<lambda>(c, r, k). (x # a @ CHR '':'' # c, r, (1, x # a) # k)) (rx_run e v)"
  have "rx_run (Seq (Group 1 (PlusC no_colon)) (Seq (Cls (\<lambda>c. c = CHR '':'')) e)) s =
      concat (map (\<lambda>(a, b). case b of [] \<Rightarrow> [] | y # ys \<Rightarrow> if y = CHR '':'' then ?f a ys else [])
        (star_splits no_colon xs))"
    using s
    by (simp add: PlusC_def comp_def case_prod_unfold)
      (auto intro!: arg_cong [where f = concat] simp: comp_def split: list.split)
  then show ?thesis using s by (simp add: colon_split del: rx_run.simps cong: list.case_cong)
qed

text \<open>The value, with the white space before it.\<close>

abbreviation (input) value_rx :: rx where
  "value_rx \<equiv> Seq (StarC is_space) (Group 2 (PlusC is_dot))"

lemma value_run_set:
  "(c, r, k) \<in> set (rx_run value_rx v) \<longleftrightarrow>
    (\<exists>a d. v = a @ d @ r \<and> list_all is_space a \<and> d \<noteq> [] \<and> list_all is_dot d \<and> c = a @ d \<and> k = [(2, d)])"
proof -
  have plus: "(d, r, k) \<in> set (rx_run (PlusC is_dot) u) \<longleftrightarrow> u = d @ r \<and> d \<noteq> [] \<and> list_all is_dot d \<and> k = []" for d r u k
    by (cases u; cases d) (auto simp: PlusC_def star_splits_sound image_iff Bex_def)
  show ?thesis
    by (auto simp: plus image_iff star_splits_sound Bex_def)
qed

lemma value_match_space:
  assumes "list_all is_space (u @ [z])" "is_dot z"
  shows "regex_match value_rx (u @ [z]) = Some [(2, [z])]"
proof -
  have "takeWhile is_space (u @ [z]) = u @ [z]" using assms(1) by (simp add: takeWhile_eq_all_conv list_all_iff)
  then obtain ws where "star_splits is_space (u @ [z]) = (u @ [z], []) # (u, [z]) # ws"
    by (simp add: star_splits_takeWhile)
  with assms(2) show ?thesis by (simp add: regex_match_def PlusC_def)
qed

lemma value_match:
  "regex_match value_rx v =
    (let w = dropWhile is_space v
     in if v = [] then None
        else if w \<noteq> [] then (if list_all is_dot w then Some [(2, w)] else None)
        else if is_dot (last v) then Some [(2, [last v])] else None)"
proof -
  let ?w = "dropWhile is_space v"
  have none: "regex_match value_rx v = None" if "\<And>a d. v = a @ d \<Longrightarrow> list_all is_space a \<Longrightarrow> d \<noteq> [] \<Longrightarrow> \<not> list_all is_dot d"
    using that by (intro regex_match_None) (auto simp: value_run_set simp del: rx_run.simps)
  consider "v = []" | "?w \<noteq> []" "list_all is_dot ?w" | "?w \<noteq> []" "\<not> list_all is_dot ?w"
    | "v \<noteq> []" "?w = []" "is_dot (last v)" | "v \<noteq> []" "?w = []" "\<not> is_dot (last v)" by blast
  then show ?thesis
  proof cases
    case 1
    then show ?thesis using none by simp
  next
    case 2
    have "first_way value_rx (takeWhile is_space v @ ?w @ []) (takeWhile is_space v @ ?w, [], [] @ [(2, ?w)])"
      using 2 hd_dropWhile [of is_space v]
      by (intro first_Seq [where r = "?w @ []"] first_StarC first_Group first_PlusC)
        (auto simp: list_all_iff dest: set_takeWhileD)
    from regex_match_first [OF this [simplified]] show ?thesis using 2 by (auto simp: Let_def)
  next
    case 3
    have "\<not> list_all is_dot d" if "v = a @ d" "list_all is_space a" for a d
    proof -
      have "?w = dropWhile is_space d" using that by (auto simp: dropWhile_append list_all_iff)
      then show ?thesis using 3(2) set_dropWhileD by (fastforce simp: list_all_iff)
    qed
    then show ?thesis using none 3 by (auto simp: Let_def)
  next
    case 4
    then have "list_all is_space (butlast v @ [last v])" by (simp add: list_all_iff)
    then show ?thesis using value_match_space [of "butlast v" "last v"] 4 by simp
  next
    case 5
    have "\<not> list_all is_dot d" if "v = a @ d" "d \<noteq> []" for a d
      using that 5(3) by (auto simp: list_all_iff)
    with none have "regex_match value_rx v = None" by blast
    then show ?thesis using 5 by (simp only: Let_def if_True if_False simp_thms)
  qed
qed

lemma regex_match_map:
  assumes "rx_run e s = map (\<lambda>(c, r, k). (f c, r, g k)) (rx_run e' s')"
  shows "regex_match e s = map_option g (regex_match e' s')"
proof -
  have F: "filter (\<lambda>(c, r, k). r = []) (map (\<lambda>(c, r, k). (f c, r, g k)) ws) =
      map (\<lambda>(c, r, k). (f c, r, g k)) (filter (\<lambda>(c, r, k). r = []) ws)"
    for ws :: "(string \<times> string \<times> captures) list" by (induction ws) auto
  show ?thesis
  proof (cases "filter (\<lambda>(c, r, k). r = []) (rx_run e' s')")
    case Nil
    then show ?thesis by (simp add: regex_match_def assms F)
  next
    case (Cons w ws)
    then show ?thesis by (cases w) (simp add: regex_match_def assms F)
  qed
qed

text \<open>The expression of the code and the reference agree on every line.\<close>

lemma header_rx_fields:
  "regex_match header_rx line = map_option (\<lambda>(n, v). [(1, n), (2, v)]) (header_fields line)"
proof -
  let ?n = "takeWhile no_colon line" and ?y = "dropWhile no_colon line"
  have tl: "drop (Suc (length ?n)) line = tl ?y"
    by (metis drop_Suc dropWhile_eq_drop tl_drop)
  show ?thesis
  proof (cases "?n = [] \<or> ?y = []")
    case True
    then have "rx_run header_rx line = []"
      unfolding header_rx_def run_name_colon by (rule disjE) (simp_all only: if_True list.case if_cancel simp_thms)
    then have "regex_match header_rx line = None" by (simp add: regex_match_def)
    moreover have "header_fields line = None"
      unfolding header_fields_def Let_def tl using True by (rule disjE) (simp_all only: list.sel simp_thms if_True)
    ultimately show ?thesis by simp
  next
    case False
    then have n: "?n \<noteq> []" by blast
    from False obtain y v where yv: "?y = y # v" by (cases ?y) auto
    have "rx_run header_rx line = map (\<lambda>(c, r, k). (?n @ CHR '':'' # c, r, (1, ?n) # k)) (rx_run value_rx v)"
      unfolding header_rx_def run_name_colon by (simp only: yv n if_False list.case)
    from regex_match_map [OF this] show ?thesis
      unfolding header_fields_def Let_def tl value_match yv list.sel
      by (simp only: n simp_thms if_False) (simp split: if_split)
  qed
qed

section \<open>The parser of the code equals the reference\<close>

lemma FindCRLF_split:
  assumes inv: "buf_inv b"
  shows "FindCRLF b = map_option (\<lambda>(l, r). Peek b + length l) (split_crlf (content b))"
proof -
  have *: "(split_crlf s = None \<longrightarrow> std_search kCRLF s = length s) \<and>
      (\<forall>l r. split_crlf s = Some (l, r) \<longrightarrow> std_search kCRLF s = length l)" for s
    by (induction s rule: split_crlf.induct) (auto simp: kCRLF_def)
  show ?thesis
  proof (cases "split_crlf (content b)")
    case None
    then show ?thesis using * [of "content b"] inv
      by (simp add: FindCRLF_def Let_def buf_simps Peek_def BeginWrite_def buf_inv_def)
  next
    case (Some lr)
    obtain l r where lr: "lr = (l, r)" by (cases lr)
    with Some * have "std_search kCRLF (content b) = length l" by auto
    moreover have "length l < length (content b)"
      using split_crlf_Some Some lr by (fastforce simp: kCRLF_def)
    ultimately show ?thesis using Some lr inv
      by (simp add: FindCRLF_def Let_def buf_simps Peek_def BeginWrite_def buf_inv_def)
  qed
qed

lemma split_line:
  assumes inv: "buf_inv b" and s: "split_crlf (content b) = Some (line, rest)"
  shows "between (Peek b) (Peek b + length line) b = line"
    and "\<exists>b'. RetrieveUntil (Peek b + length line + 2) b = Inr b' \<and> buf_inv b' \<and> content b' = rest"
proof -
  note c = split_crlf_Some [OF s]
  show "between (Peek b) (Peek b + length line) b = line"
    using between_content [OF _ inv, of "length line"] by (simp add: c)
  show "\<exists>b'. RetrieveUntil (Peek b + length line + 2) b = Inr b' \<and> buf_inv b' \<and> content b' = rest"
    using RetrieveUntil_ok [OF inv, of "length line + 2"] by (auto simp: c kCRLF_def add.assoc)
qed

lemma ParseRequest_parse_headers:
  assumes "buf_inv b"
  shows "\<exists>b1. ParseRequest now \<lparr>request = r, state = kExpectHeaders\<rparr> b =
      Some (Inr (fst (parse_headers r (content b)), fst (snd (parse_headers r (content b))), b1)) \<and>
    buf_inv b1 \<and> content b1 = snd (snd (parse_headers r (content b)))"
  using assms
proof (induction r "content b" arbitrary: b rule: parse_headers.induct)
  case (1 r)
  note inv = 1(2)
  show ?case
  proof (cases "split_crlf (content b)")
    case None
    then show ?thesis using inv
      by (subst ParseRequest.simps, subst (1 2 3) parse_headers.simps) (simp add: parse_iter_def FindCRLF_split)
  next
    case (Some lr)
    obtain line rest where lr: "lr = (line, rest)" by (cases lr)
    note s = Some [unfolded lr]
    from split_line [OF inv s] obtain b' where
      line: "between (Peek b) (Peek b + length line) b = line" and
      b': "RetrieveUntil (Peek b + length line + 2) b = Inr b'" "buf_inv b'" "content b' = rest" by blast
    have F: "FindCRLF b = Some (Peek b + length line)" using s inv by (simp add: FindCRLF_split)
    show ?thesis
    proof (cases "header_fields line")
      case (Some nv)
      obtain n v where nv: "nv = (n, v)" by (cases nv)
      have e: "(line, content b') = (line, rest)" using b'(3) by simp
      from 1(1) [OF s e Some [unfolded nv] refl b'(2)] Some b' nv s F line show ?thesis
        by (subst ParseRequest.simps, subst (1 2 3) parse_headers.simps)
          (simp add: parse_iter_def header_rx_fields submatch_def)
    next
      case None
      then show ?thesis
      proof (cases "line = []")
        case True
        let ?c = "\<lparr>request = r, state = kExpectBody\<rparr>"
        have "ParseRequest now ?c b' =
            Some (Inr (True, \<lparr>request = r\<lparr>req_body := rest\<rparr>, state = kGotAll\<rparr>, b'))"
          using between_all [OF b'(2)] b'(3) by (subst ParseRequest.simps) (simp add: parse_iter_def)
        with None True s F line b' show ?thesis
          by (subst ParseRequest.simps, subst (1 2 3) parse_headers.simps)
            (simp add: parse_iter_def header_rx_fields)
      next
        case False
        with None s F line b' inv show ?thesis
          by (subst ParseRequest.simps, subst (1 2 3) parse_headers.simps)
            (simp add: parse_iter_def header_rx_fields)
      qed
    qed
  qed
qed

lemma ParseRequest_headers_ref:
  assumes "buf_inv b" "state ctx = kExpectHeaders"
  obtains b1 where "buf_inv b1" "content b1 = snd (snd (parse_headers (request ctx) (content b)))"
    "ParseRequest now ctx b = Some (Inr (fst (parse_headers (request ctx) (content b)),
       fst (snd (parse_headers (request ctx) (content b))), b1))"
proof -
  have "ctx = \<lparr>request = request ctx, state = kExpectHeaders\<rparr>" using assms(2) by simp
  with ParseRequest_parse_headers [OF assms(1), of now "request ctx"] that show ?thesis by auto
qed

section \<open>Bytes that arrive in pieces\<close>

lemma split_crlf_append: "split_crlf s = Some (l, r) \<Longrightarrow> split_crlf (s @ t) = Some (l, r @ t)"
  by (induction s arbitrary: l rule: split_crlf.induct) (auto split: if_splits)

text \<open>
  The parser on more text: stopping for want of a line and going on later is the same as seeing
  everything at once; the end of the headers and a malformed line are where they were.
\<close>

lemma parse_headers_append:
  "parse_headers r s = (ok, c, v) \<Longrightarrow>
    parse_headers r (s @ t) =
      (if \<not> ok then (False, c, v @ t)
       else if state c = kExpectHeaders then parse_headers (request c) (v @ t)
       else (True, c\<lparr>request := (request c)\<lparr>req_body := v @ t\<rparr>\<rparr>, v @ t)) \<and>
    (state c = kExpectHeaders \<or> ok \<and> state c = kGotAll)"
proof (induction r s rule: parse_headers.induct)
  case (1 r s)
  show ?case
  proof (cases "split_crlf s")
    case None
    with "1.prems" show ?thesis by (auto simp: parse_headers.simps [of r s])
  next
    case (Some lr)
    obtain line rest where lr: "lr = (line, rest)" by (cases lr)
    note s = Some [unfolded lr] and st = split_crlf_append [OF Some [unfolded lr], of t]
    show ?thesis
    proof (cases "header_fields line")
      case None
      have "parse_headers r (s @ t) =
          (if line = [] then (True, \<lparr>request = r\<lparr>req_body := rest @ t\<rparr>, state = kGotAll\<rparr>, rest @ t)
           else (False, \<lparr>request = r, state = kExpectHeaders\<rparr>, s @ t))"
        using None st by (simp add: parse_headers.simps [of r "s @ t"])
      with None "1.prems" s show ?thesis
        by (cases "line = []") (auto simp: parse_headers.simps [of r s])
    next
      case (Some nv)
      obtain n v' where nv: "nv = (n, v')" by (cases nv)
      have "parse_headers (AddHeader n v' r) rest = (ok, c, v)"
        using "1.prems" s Some nv by (simp add: parse_headers.simps [of r s])
      from "1.IH" [OF s refl Some [unfolded nv] refl this]
      show ?thesis using st Some nv by (simp add: parse_headers.simps [of r "s @ t"])
    qed
  qed
qed

lemma parse_headers_body:
  assumes "parse_headers r s = (True, c, body)" and "state c = kGotAll"
  shows "body = req_body (request c)"
proof -
  have "c = c\<lparr>request := (request c)\<lparr>req_body := body\<rparr>\<rparr>"
    using parse_headers_append [OF assms(1), of "[]"] assms by (auto split: if_splits)
  then have "request c = (request c)\<lparr>req_body := body\<rparr>" by (cases c) simp
  then show ?thesis by (cases "request c") simp
qed

text \<open>Text that ends within the headers only makes the parser wait.\<close>

lemma parse_headers_prefix:
  assumes "parse_headers r (u @ t) = (True, c, body)" and "state c = kGotAll" and "length body < length t"
  obtains r' u' where "parse_headers r u = (True, \<lparr>request = r', state = kExpectHeaders\<rparr>, u')"
    "parse_headers r' (u' @ t) = (True, c, body)"
proof -
  obtain ok c1 v where p: "parse_headers r u = (ok, c1, v)" by (cases "parse_headers r u")
  note a = parse_headers_append [OF p, of t, unfolded assms(1)]
  have ok: "ok" using a by (auto split: if_splits)
  have "state c1 = kExpectHeaders"
  proof (rule ccontr)
    assume "state c1 \<noteq> kExpectHeaders"
    then have "body = v @ t" using a ok by (auto split: if_splits)
    with assms(3) show False by simp
  qed
  moreover from this have "c1 = \<lparr>request = request c1, state = kExpectHeaders\<rparr>" by simp
  ultimately show ?thesis using that [of "request c1" v] a ok p by simp
qed

section \<open>Well-formed headers\<close>

lemma split_crlf_line: "CHR 0x0D \<notin> set line \<Longrightarrow> split_crlf (line @ kCRLF @ rest) = Some (line, rest)"
proof (induction line)
  case (Cons x line)
  then show ?case by (cases "line @ kCRLF @ rest") (auto simp: kCRLF_def)
qed (simp add: kCRLF_def)

lemma header_fields_wf:
  assumes "wf_header (f, v)"
  shows "header_fields (f @ '': '' @ v) = Some (f, v)"
proof -
  have "map_option (\<lambda>(n, v). [(1 :: nat, n), (2, v)]) (header_fields (f @ '': '' @ v)) = Some [(1, f), (2, v)]"
    using match_header [OF assms] by (simp only: header_rx_fields)
  then show ?thesis by (cases "header_fields (f @ '': '' @ v)") auto
qed

lemma parse_headers_wf:
  "list_all wf_header hs \<Longrightarrow> parse_headers r (render_headers hs @ kCRLF @ body) =
    (True, \<lparr>request = r\<lparr>req_body := body, req_headers := fold (\<lambda>(k, x). map_set k x) hs (req_headers r)\<rparr>,
       state = kGotAll\<rparr>, body)"
proof (induction hs arbitrary: r)
  case Nil
  have "split_crlf (kCRLF @ body) = Some ([], body)" using split_crlf_line [of "[]" body] by simp
  then show ?case by (simp add: render_headers_def parse_headers.simps [of r "kCRLF @ body"] header_fields_def Let_def)
next
  case (Cons h hs)
  obtain f v where h: "h = (f, v)" by (cases h)
  then have wf: "wf_header (f, v)" "list_all wf_header hs" using Cons.prems by simp_all
  let ?line = "f @ '': '' @ v" and ?rest = "render_headers hs @ kCRLF @ body"
  have e: "render_headers (h # hs) @ kCRLF @ body = ?line @ kCRLF @ ?rest" by (simp add: render_headers_def h)
  have s: "split_crlf (?line @ kCRLF @ ?rest) = Some (?line, ?rest)" by (rule split_crlf_line [OF no_CR(2) [OF wf(1)]])
  have "parse_headers r (?line @ kCRLF @ ?rest) = parse_headers (AddHeader f v r) ?rest"
    unfolding parse_headers.simps [of r "?line @ kCRLF @ ?rest"] s option.case prod.case header_fields_wf [OF wf(1)] ..
  then show ?case unfolding e using Cons.IH [OF wf(2), of "AddHeader f v r"] by (simp add: AddHeader_def h)
qed

section \<open>Properties\<close>

text \<open>
  C32. Equivalence: in the header phase \<^verbatim>\<open>ParseRequest\<close>, with its buffer, its index arithmetic
  and its regular expression, returns exactly what the reference on strings returns, which splits
  lines at CR LF and each line at its first colon; what is left in the buffer is what the
  reference leaves.
\<close>

theorem ParseRequest_header_phase:
  assumes "buf_inv buf" and "state ctx = kExpectHeaders"
  shows "\<exists>buf1. buf_inv buf1 \<and>
    ParseRequest now ctx buf =
      (case parse_headers (request ctx) (content buf) of (ok, ctx1, rest) \<Rightarrow> Some (Inr (ok, ctx1, buf1))) \<and>
    content buf1 = snd (snd (parse_headers (request ctx) (content buf)))"
  by (rule ParseRequest_headers_ref [OF assms, of now]) (auto simp: case_prod_unfold)

theorem ParseRequest_header_phase_witness:
  "\<exists>buf1. buf_inv buf1 \<and>
    ParseRequest Timestamp_default \<lparr>request = HttpRequest_new, state = kExpectHeaders\<rparr>
        (buffer_of (''Host:  a'' @ kCRLF @ kCRLF @ ''xy'')) =
      Some (Inr (True, \<lparr>request = HttpRequest_new\<lparr>req_headers := [(''Host'', ''a'')], req_body := ''xy''\<rparr>,
        state = kGotAll\<rparr>, buf1)) \<and>
    content buf1 = ''xy''"
proof -
  define t where "t = ''Host:  a'' @ kCRLF @ kCRLF @ ''xy''"
  have b: "buf_inv (buffer_of t)" "content (buffer_of t) = t"
    by (simp_all add: buffer_of_ok t_def kCRLF_def)
  have "parse_headers HttpRequest_new t = (True, \<lparr>request = HttpRequest_new\<lparr>req_headers := [(''Host'', ''a'')],
      req_body := ''xy''\<rparr>, state = kGotAll\<rparr>, ''xy'')"
    by (simp add: t_def parse_headers.simps kCRLF_def header_fields_def Let_def is_space_def is_dot_def
        AddHeader_def HttpRequest_new_def map_set_def)
  with ParseRequest_header_phase [OF b(1), of "\<lparr>request = HttpRequest_new, state = kExpectHeaders\<rparr>" Timestamp_default]
  show ?thesis unfolding t_def [symmetric] by (simp add: b(2))
qed

text \<open>
  C33. The split of the headers into packets does not matter: when the bytes that have arrived end
  within the headers, the parser stops without an error, and parsing what is left after the next
  bytes gives the same result, the same request and the same remaining bytes as parsing everything
  in one piece.
\<close>

theorem ParseRequest_incremental:
  assumes "buf_inv buf" and "state ctx = kExpectHeaders"
    and "ParseRequest now ctx buf = Some (Inr (True, ctx1, buf1))" and "state ctx1 = kExpectHeaders"
    and "length data < 2 ^ 63" and "Append data buf1 = Inr buf2"
    and "buf_inv whole" and "content whole = content buf @ data"
  shows "\<exists>ok ctx3 buf3 whole3. ParseRequest later ctx1 buf2 = Some (Inr (ok, ctx3, buf3)) \<and>
    ParseRequest now ctx whole = Some (Inr (ok, ctx3, whole3)) \<and> content buf3 = content whole3"
proof -
  obtain b1 where "buf_inv b1" "content b1 = snd (snd (parse_headers (request ctx) (content buf)))"
    "ParseRequest now ctx buf = Some (Inr (fst (parse_headers (request ctx) (content buf)),
       fst (snd (parse_headers (request ctx) (content buf))), b1))"
    using ParseRequest_headers_ref [OF assms(1,2)] by metis
  with assms(3) have i: "buf_inv buf1" and p: "parse_headers (request ctx) (content buf) =
      (True, \<lparr>request = request ctx1, state = kExpectHeaders\<rparr>, content buf1)"
    using assms(4) by (auto simp: prod_eq_iff)
  have b2: "buf_inv buf2" "content buf2 = content buf1 @ data"
    using buffer_put_wf [OF i assms(5,6)] by simp_all
  have e: "parse_headers (request ctx) (content whole) = parse_headers (request ctx1) (content buf2)"
    using parse_headers_append [OF p, of data] by (simp add: assms(8) b2(2))
  obtain w where "content w = snd (snd (parse_headers (request ctx) (content whole)))"
    "ParseRequest now ctx whole = Some (Inr (fst (parse_headers (request ctx) (content whole)),
       fst (snd (parse_headers (request ctx) (content whole))), w))"
    using ParseRequest_headers_ref [OF assms(7,2)] by metis
  moreover obtain v where "content v = snd (snd (parse_headers (request ctx1) (content buf2)))"
    "ParseRequest later ctx1 buf2 = Some (Inr (fst (parse_headers (request ctx1) (content buf2)),
       fst (snd (parse_headers (request ctx1) (content buf2))), v))"
    using ParseRequest_headers_ref [OF b2(1) assms(4)] by metis
  ultimately show ?thesis unfolding e by auto
qed

text \<open>The bytes are cut between the carriage return and the line feed.\<close>

theorem ParseRequest_incremental_witness:
  "\<exists>buf2 ctx3 buf3 whole3.
    Append (CHR 0x0A # kCRLF) (buffer_of (''Host: a'' @ [CHR 0x0D])) = Inr buf2 \<and>
    ParseRequest (Timestamp 7) \<lparr>request = HttpRequest_new, state = kExpectHeaders\<rparr> buf2 = Some (Inr (True, ctx3, buf3)) \<and>
    ParseRequest Timestamp_default \<lparr>request = HttpRequest_new, state = kExpectHeaders\<rparr>
      (buffer_of (''Host: a'' @ kCRLF @ kCRLF)) = Some (Inr (True, ctx3, whole3)) \<and>
    req_headers (request ctx3) = [(''Host'', ''a'')]"
proof -
  let ?ctx = "\<lparr>request = HttpRequest_new, state = kExpectHeaders\<rparr>"
  define t where "t = ''Host: a'' @ [CHR 0x0D]"
  define u where "u = ''Host: a'' @ kCRLF @ kCRLF"
  define d where "d = CHR 0x0A # kCRLF"
  have b: "buf_inv (buffer_of t)" "content (buffer_of t) = t" "buf_inv (buffer_of u)" "content (buffer_of u) = u"
    by (simp_all add: buffer_of_ok t_def u_def kCRLF_def)
  have tu: "u = t @ d" by (simp add: t_def u_def d_def kCRLF_def)
  have "split_crlf t = None" by (simp add: t_def)
  then have p: "ParseRequest Timestamp_default ?ctx (buffer_of t) = Some (Inr (True, ?ctx, buffer_of t))"
    using b(1,2) by (subst ParseRequest.simps) (simp add: parse_iter_def FindCRLF_split)
  have "buf_fits (length d) (buffer_of t)"
    by (simp add: buf_fits_def buf_room_def buffer_of_def t_def d_def kCRLF_def vector_max_def)
  moreover have l: "length d < 2 ^ 63" by (simp add: d_def kCRLF_def)
  ultimately obtain b2 where b2: "Append d (buffer_of t) = Inr b2" using Append_fits [OF b(1)] by blast
  have r: "parse_headers HttpRequest_new u =
      (True, \<lparr>request = HttpRequest_new\<lparr>req_headers := [(''Host'', ''a'')], req_body := []\<rparr>, state = kGotAll\<rparr>, [])"
    by (simp add: u_def parse_headers.simps kCRLF_def header_fields_def Let_def is_space_def is_dot_def
        AddHeader_def HttpRequest_new_def map_set_def)
  obtain w where w: "ParseRequest Timestamp_default ?ctx (buffer_of u) = Some (Inr (True,
      \<lparr>request = HttpRequest_new\<lparr>req_headers := [(''Host'', ''a'')], req_body := []\<rparr>, state = kGotAll\<rparr>, w))"
    using ParseRequest_headers_ref [OF b(3), of ?ctx Timestamp_default] b(4) r by auto
  have "content (buffer_of u) = content (buffer_of t) @ d" unfolding b(2,4) by (rule tu)
  from ParseRequest_incremental [OF b(1) _ p _ l b2 b(3) this, of "Timestamp 7"] b2 w
  show ?thesis unfolding t_def [symmetric] u_def [symmetric] d_def [symmetric] by auto
qed

end
