(* ===== verification/HttpConnections.thy ===== *)
theory HttpConnections
  imports HttpLines Tcp
begin

text \<open>
  \<^verbatim>\<open>src/net/http/HttpServer.cc\<close> on \<^verbatim>\<open>src/net/TcpConnection.cc\<close>: the handlers of the HTTP
  server as the callbacks of a connection, whose context is the parser's.  The bytes of a request
  arrive in packets, each a readable event of the connection's channel.
\<close>

section \<open>The server's handlers as callbacks\<close>

fun run_conn_call :: "'c conn_env \<Rightarrow> conn_call \<Rightarrow> 'c TcpConnection \<Rightarrow> 'c TcpConnection res" where
  "run_conn_call env (CallSend d) s = Send env True d s"
| "run_conn_call env CallShutdown s = Shutdown True s"

text \<open>\<^verbatim>\<open>onMessage\<close> on the connection's input buffer and context.\<close>

definition http_onMessage :: "(HttpRequest \<Rightarrow> HttpResponse \<Rightarrow> HttpResponse) \<Rightarrow> Timestamp \<Rightarrow> HttpContext conn_env \<Rightarrow>
    HttpContext TcpConnection \<Rightarrow> HttpContext TcpConnection res" where
  "http_onMessage cb now env s =
     (case onMessage cb now (any_context s) (inputBuffer s) of
        None \<Rightarrow> Inl Diverges
      | Some r \<Rightarrow> rbind r (\<lambda>(cs, ctx, buf).
          let taken = length (content (inputBuffer s)) - length (content buf) in
          rfold (run_conn_call env) cs
            (s\<lparr>inputBuffer := buf, consumed := consumed s @ take taken (content (inputBuffer s)), any_context := ctx\<rparr>)))"

text \<open>Only the connection and the message callbacks are set.\<close>

fun http_back :: "(HttpRequest \<Rightarrow> HttpResponse \<Rightarrow> HttpResponse) \<Rightarrow> Timestamp \<Rightarrow> (nat \<Rightarrow> string \<Rightarrow> write_result) \<Rightarrow> owner \<Rightarrow>
    nat \<Rightarrow> conn_event \<Rightarrow> HttpContext TcpConnection \<Rightarrow> HttpContext TcpConnection res" where
  "http_back cb now sw ow 0 ev s = Inl StackOverflow"
| "http_back cb now sw ow (Suc depth) ev s =
     (let env = \<lparr>sockWrite = sw, user = http_back cb now sw ow depth\<rparr> in
      case ev of
        EvConnection \<Rightarrow> Inr (s\<lparr>any_context := onConnection (tstate s = kConnected) (any_context s)\<rparr>)
      | EvMessage \<Rightarrow> http_onMessage cb now env s
      | EvClose \<Rightarrow> (case ow of SameLoop \<Rightarrow> ConnectionDestroyed env True s
                     | OtherLoop \<Rightarrow> Inr (s\<lparr>closes := Suc (closes s)\<rparr>))
      | _ \<Rightarrow> Inr s)"

definition http_env :: "(HttpRequest \<Rightarrow> HttpResponse \<Rightarrow> HttpResponse) \<Rightarrow> Timestamp \<Rightarrow> (nat \<Rightarrow> string \<Rightarrow> write_result) \<Rightarrow>
    owner \<Rightarrow> nat \<Rightarrow> HttpContext conn_env" where
  "http_env cb now sw ow depth = \<lparr>sockWrite = sw, user = http_back cb now sw ow depth\<rparr>"

text \<open>Packets and the times of their events; the kernel delivers as much as the blocks hold.\<close>

definition deliver :: "string \<Rightarrow> nat list \<Rightarrow> string option" where
  "deliver bytes iov = Some (take (sum_list iov) bytes)"

fun http_run :: "(HttpRequest \<Rightarrow> HttpResponse \<Rightarrow> HttpResponse) \<Rightarrow> (nat \<Rightarrow> string \<Rightarrow> write_result) \<Rightarrow> owner \<Rightarrow> nat \<Rightarrow>
    (Timestamp \<times> string) list \<Rightarrow> HttpContext TcpConnection \<Rightarrow> HttpContext TcpConnection res" where
  "http_run cb sw ow depth [] s = Inr s"
| "http_run cb sw ow depth ((now, bytes) # ps) s =
     rbind (conn_HandleEvent (http_env cb now sw ow depth) EPOLLIN (deliver bytes) s)
       (http_run cb sw ow depth ps)"

declare rbind_return [simp]

section \<open>Sizes\<close>

lemma Append_length:
  assumes "buf_inv b" "length d < 2 ^ 63" "Append d b = Inr b'"
  shows "length (buffer b') \<le> length (buffer b) + length d"
proof -
  have b: "writeIndex b \<le> length (buffer b)" "length (buffer b) \<le> vector_max" using assms(1) by (auto simp: buf_inv_def)
  then have "sz_add (writeIndex b) (length d) = writeIndex b + length d"
    using assms(2) by (intro sz_add_eq) (simp add: vector_max_def)
  then show ?thesis using assms(3) b
    by (auto simp: Append_def CheckAndMakePlace_def memcpy_in_def vector_resize_def res_simps Let_def split_def
        split: if_splits)
qed

lemma deliver_all:
  assumes "buf_inv b" "length p \<le> extrabufSize"
  shows "deliver p (ReadFd_iov b) = Some p"
  using assms by (simp add: deliver_def ReadFd_iov_def)

lemma deliver_spec: "readv_spec (deliver p)"
  by (simp add: deliver_def readv_spec_def)

lemma ReadFd_deliver:
  assumes inv: "buf_inv b" and p: "length p \<le> extrabufSize" and room: "length (buffer b) + extrabufSize \<le> vector_max"
  shows "\<exists>b'. ReadFd (deliver p) b = Inr (int (length p), b') \<and> buf_inv b' \<and> content b' = content b @ p \<and>
    length (buffer b') \<le> length (buffer b) + length p"
proof -
  from ReadFd_ok [OF inv deliver_spec room deliver_all [OF inv p]] obtain b' where
    b': "ReadFd (deliver p) b = Inr (int (length p), b')" "buf_inv b'" "content b' = content b @ p" by blast
  have w: "writeIndex b \<le> length (buffer b)" "WritableBytes b = length (buffer b) - writeIndex b"
    using inv by (auto simp: buf_inv_def buf_simps)
  have "length (buffer b') \<le> length (buffer b) + length p"
  proof (cases "length p \<le> WritableBytes b")
    case True
    then show ?thesis using b'(1) deliver_all [OF inv p] w
      by (auto simp: ReadFd_def Let_def memcpy_in_def res_simps)
  next
    case False
    define v where "v = splice_at (buffer b) (writeIndex b) (take (WritableBytes b) p)"
    have v: "length v = length (buffer b)" using w by (simp add: v_def)
    have "Append (drop (WritableBytes b) p) (b\<lparr>buffer := v, writeIndex := length v\<rparr>) = Inr b'"
      using b'(1) deliver_all [OF inv p] w False
      by (auto simp: ReadFd_def Let_def memcpy_in_def res_simps BeginWrite_def v_def)
    moreover have "length (drop (WritableBytes b) p) < 2 ^ 63" using p by (simp add: extrabufSize_def)
    moreover have "buf_inv (b\<lparr>buffer := v, writeIndex := length v\<rparr>)" using inv v by (auto simp: buf_inv_def)
    ultimately have "length (buffer b') \<le> length v + length (drop (WritableBytes b) p)"
      using Append_length by fastforce
    then show ?thesis using v by simp
  qed
  with b' show ?thesis by blast
qed

lemma RetrieveUntil_buffer: "RetrieveUntil p b = Inr b' \<Longrightarrow> buffer b' = buffer b"
  by (auto simp: RetrieveUntil_def Retrieve_def RetrieveAll_def res_simps split: if_splits)

lemma parse_iter_buffer: "parse_iter now c b = Inr (go, ok, c1, b1) \<Longrightarrow> buffer b1 = buffer b"
  by (auto simp: parse_iter_def res_simps split: ParseState.splits option.splits if_splits prod.splits
      dest: RetrieveUntil_buffer)

lemma ParseRequest_buffer:
  assumes "ParseRequest now c b = Some r"
  shows "case r of Inl e \<Rightarrow> True | Inr (ok, c1, b1) \<Rightarrow> buffer b1 = buffer b"
proof (rule ParseRequest.raw_induct [OF _ assms])
  fix f now c b r
  assume IH: "\<And>now c b r. f now c b = Some r \<Longrightarrow> case r of Inl e \<Rightarrow> True | Inr (ok, c1, b1) \<Rightarrow> buffer b1 = buffer b"
    and r: "(case parse_iter now c b of Inl e \<Rightarrow> Some (Inl e)
      | Inr (go, ok, c1, b1) \<Rightarrow> if go then f now c1 b1 else Some (Inr (ok, c1, b1))) = Some r"
  show "case r of Inl e \<Rightarrow> True | Inr (ok, c1, b1) \<Rightarrow> buffer b1 = buffer b"
  proof (cases "parse_iter now c b")
    case (Inl e)
    with r show ?thesis by auto
  next
    case (Inr x)
    then obtain go ok c1 b1 where x: "parse_iter now c b = Inr (go, ok, c1, b1)" by (cases x) auto
    with IH [of now c1 b1 r] parse_iter_buffer [OF x] r show ?thesis
      by (auto split: if_splits sum.splits)
  qed
qed

text \<open>The handler's parser keeps the vector of the buffer.\<close>

lemma onMessage_buffer:
  assumes "onMessage cb now ctx b = Some (Inr (cs, ctx1, b1))"
  shows "buffer b1 = buffer b"
proof -
  obtain c where c: "ctx = Some c" using assms by (cases ctx) (auto simp: onMessage_def)
  obtain ok c2 where "ParseRequest now c b = Some (Inr (ok, c2, b1))"
    using assms c by (auto simp: onMessage_def res_simps Let_def split: option.splits sum.splits if_splits prod.splits)
  from ParseRequest_buffer [OF this] show ?thesis by simp
qed

section \<open>One packet\<close>

definition http_ready :: "HttpContext \<Rightarrow> HttpContext TcpConnection \<Rightarrow> bool" where
  "http_ready ctx s \<longleftrightarrow> tstate s = kConnected \<and> hasMessage s \<and> \<not> hasWriteComplete s \<and> \<not> hasHighWater s \<and>
     \<not> conn_IsWriting s \<and> any_context s = Some ctx \<and>
     buf_inv (inputBuffer s) \<and> buf_inv (outputBuffer s) \<and> content (outputBuffer s) = []"

text \<open>What changes in a connection while the request is still incomplete.\<close>

definition same_output :: "HttpContext TcpConnection \<Rightarrow> HttpContext TcpConnection \<Rightarrow> bool" where
  "same_output s t \<longleftrightarrow> wire t = wire s \<and> accepted t = accepted s \<and> outputBuffer t = outputBuffer s"

lemma message_event:
  assumes r: "http_ready ctx s" and p: "p \<noteq> []" "length p \<le> extrabufSize"
    and room: "length (buffer (inputBuffer s)) + extrabufSize \<le> vector_max"
  shows "\<exists>s1. conn_HandleEvent (http_env cb now sw ow (Suc depth)) EPOLLIN (deliver p) s =
      http_onMessage cb now \<lparr>sockWrite = sw, user = http_back cb now sw ow depth\<rparr> s1 \<and>
    http_ready ctx s1 \<and> content (inputBuffer s1) = content (inputBuffer s) @ p \<and> same_output s s1 \<and>
    length (buffer (inputBuffer s1)) \<le> length (buffer (inputBuffer s)) + length p"
proof -
  have inv: "buf_inv (inputBuffer s)" using r by (simp add: http_ready_def)
  from ReadFd_deliver [OF inv p(2) room] obtain b where b: "ReadFd (deliver p) (inputBuffer s) = Inr (int (length p), b)"
    "buf_inv b" "content b = content (inputBuffer s) @ p"
    "length (buffer b) \<le> length (buffer (inputBuffer s)) + length p" by blast
  let ?s = "s\<lparr>inputBuffer := b, received := received s @ p, calls := calls s @ [EvMessage]\<rparr>"
  have "conn_HandleEvent (http_env cb now sw ow (Suc depth)) EPOLLIN (deliver p) s =
      http_onMessage cb now \<lparr>sockWrite = sw, user = http_back cb now sw ow depth\<rparr> ?s"
    using r p(1) b deliver_all [OF inv p(2)]
    by (simp add: conn_HandleEvent_def HandleRead_def http_env_def callback_def mask_defs http_ready_def)
  moreover have "http_ready ctx ?s" using r b by (simp add: http_ready_def)
  ultimately show ?thesis using b by (intro exI [of _ ?s]) (simp add: same_output_def)
qed

text \<open>The parser waits for more: nothing is sent.\<close>

lemma http_onMessage_waits:
  assumes r: "http_ready ctx s" and p: "ParseRequest now ctx (inputBuffer s) = Some (Inr (True, ctx1, b))"
    and "state ctx1 \<noteq> kGotAll" "buf_inv b"
  shows "\<exists>t. http_onMessage cb now env s = Inr t \<and> http_ready ctx1 t \<and> inputBuffer t = b \<and> same_output s t \<and>
    length (buffer b) = length (buffer (inputBuffer s))"
proof -
  have "onMessage cb now (any_context s) (inputBuffer s) = Some (Inr ([], Some ctx1, b))"
    using r p assms(3) by (simp add: onMessage_def http_ready_def GotAll_def)
  with onMessage_buffer [OF this] r assms(4) show ?thesis
    by (simp add: http_onMessage_def Let_def http_ready_def same_output_def)
qed

section \<open>The answer\<close>

text \<open>What the answered connection looks like.\<close>

definition answered :: "(HttpRequest \<Rightarrow> HttpResponse \<Rightarrow> HttpResponse) \<Rightarrow> HttpRequest \<Rightarrow> HttpContext TcpConnection \<Rightarrow>
    HttpContext TcpConnection \<Rightarrow> bool" where
  "answered cb req s t \<longleftrightarrow>
     (let r = cb req (HttpResponse_new (wants_close req)) in
      wire t @ content (outputBuffer t) = wire s @ response_text r \<and> accepted t = accepted s @ response_text r \<and>
      tstate t = (if closeConnection r then kDisconnecting else kConnected) \<and>
      any_context t = Some HttpContext_new \<and> content (inputBuffer t) = req_body req)"

definition response_fits :: "HttpResponse \<Rightarrow> nat \<Rightarrow> bool" where
  "response_fits r w \<longleftrightarrow> length (resp_body r) < 10 ^ 13 \<and> length (response_text r) + 8 \<le> vector_max \<and>
     w + length (response_text r) \<le> vector_max"

lemma http_onMessage_answers:
  assumes sw: "write_spec (sockWrite env)" "sock_never_fatal (sockWrite env)" and r: "http_ready ctx s"
    and p: "ParseRequest now ctx (inputBuffer s) = Some (Inr (True, ctx1, b))"
    and g: "state ctx1 = kGotAll" "content b = req_body (request ctx1)" "buf_inv b"
    and fits: "response_fits (cb (request ctx1) (HttpResponse_new (wants_close (request ctx1)))) (writeIndex (outputBuffer s))"
  shows "\<exists>t. http_onMessage cb now env s = Inr t \<and> answered cb (request ctx1) s t"
proof -
  define r where "r = cb (request ctx1) (HttpResponse_new (wants_close (request ctx1)))"
  have f: "length (resp_body r) < 10 ^ 13" "length (response_text r) + 8 \<le> vector_max"
    "buf_room (length (response_text r)) (outputBuffer s)"
    using fits by (simp_all add: r_def response_fits_def buf_room_def)
  have m: "onMessage cb now (any_context s) (inputBuffer s) =
      Some (Inr (CallSend (response_text r) # (if closeConnection r then [CallShutdown] else []), Some HttpContext_new, b))"
    using r p g(1) handleRequest_ok [where cb = cb, OF r_def f(1,2)]
    by (simp add: onMessage_def http_ready_def GotAll_def Context_Reset_def Request_Swap_def HttpContext_new_def)
  let ?s = "s\<lparr>inputBuffer := b,
    consumed := consumed s @ take (length (content (inputBuffer s)) - length (content b)) (content (inputBuffer s)),
    any_context := Some HttpContext_new\<rparr>"
  have "http_ready HttpContext_new ?s" using r g(3) by (simp add: http_ready_def)
  then have "tstate ?s = kConnected" "\<not> hasHighWater ?s" "\<not> hasWriteComplete ?s" "buf_inv (outputBuffer ?s)"
    "content (outputBuffer ?s) = []" by (auto simp: http_ready_def)
  with Send_ok [OF sw this(1-4), of "response_text r"] f(3) obtain t where t: "Send env True (response_text r) ?s = Inr t"
    "wire t @ content (outputBuffer t) = wire s @ response_text r" "accepted t = accepted s @ response_text r"
    "tstate t = kConnected" "any_context t = Some HttpContext_new" "inputBuffer t = b" by auto
  have "Shutdown True t = Inr (t\<lparr>tstate := kDisconnecting\<rparr>)"
    using t(4) by (simp add: Shutdown_def ShutdownInLoop_def)
  then have "http_onMessage cb now env s = Inr (if closeConnection r then t\<lparr>tstate := kDisconnecting\<rparr> else t)"
    using t(1) unfolding http_onMessage_def m by (simp add: Let_def)
  then show ?thesis using t g(2) by (auto simp: answered_def r_def [symmetric] Let_def)
qed

section \<open>Many packets\<close>

lemma concat_map_snd_last: "p \<in> set ps \<Longrightarrow> length (snd p) \<le> length (concat (map snd ps))"
  by (induction ps) auto

lemma append_longer:
  assumes "d @ y = (l1 @ l2) @ z" and "length (l1 @ l2) \<le> length d"
  shows "d = (l1 @ l2) @ drop (length (l1 @ l2)) d \<and> drop (length (l1 @ l2)) d @ y = z"
proof -
  have "take (length (l1 @ l2)) (d @ y) = l1 @ l2" "drop (length (l1 @ l2)) (d @ y) = z"
    unfolding assms(1) by simp_all
  with assms(2) show ?thesis by (metis append_take_drop_id diff_is_0_eq drop0 drop_append take0 take_append append_Nil2)
qed

text \<open>
  From the message callback on: the parser goes through what has arrived, \<open>x\<close>, as the reference does,
  and the packets \<open>ps\<close> are still to come.
\<close>

definition packets_fit :: "(Timestamp \<times> string) list \<Rightarrow> HttpContext TcpConnection \<Rightarrow> bool" where
  "packets_fit ps s \<longleftrightarrow> (\<forall>d \<in> snd ` set ps. d \<noteq> [] \<and> length d \<le> extrabufSize) \<and>
     length (buffer (inputBuffer s)) + length (concat (map snd ps)) + extrabufSize \<le> vector_max"

lemma http_run_message:
  assumes sw: "write_spec sw" "sock_never_fatal sw"
    and "http_ready ctx s" "buf_inv b" "parse_headers r x = (ok, ctx1, content b)"
    and "ParseRequest now ctx (inputBuffer s) = Some (Inr (ok, ctx1, b))"
    and "parse_headers r (x @ concat (map snd ps)) = (True, c, body)" "state c = kGotAll"
    and "ps \<noteq> [] \<Longrightarrow> length body < length (snd (last ps))" "packets_fit ps s"
    and "response_fits (cb (request c) (HttpResponse_new (wants_close (request c)))) (writeIndex (outputBuffer s))"
  shows "\<exists>t. rbind (http_onMessage cb now \<lparr>sockWrite = sw, user = http_back cb now sw ow depth\<rparr> s)
        (http_run cb sw ow (Suc depth) ps) = Inr t \<and> answered cb (request c) s t \<and>
    (ps \<noteq> [] \<longrightarrow> (\<exists>u. rbind (http_onMessage cb now \<lparr>sockWrite = sw, user = http_back cb now sw ow depth\<rparr> s)
        (http_run cb sw ow (Suc depth) (butlast ps)) = Inr u \<and> same_output s u))"
  using assms(3-)
proof (induction ps arbitrary: s ctx ctx1 b x r ok now)
  case Nil
  then have pr: "ParseRequest now ctx (inputBuffer s) = Some (Inr (True, c, b))" and cb: "content b = body" by auto
  have "content b = req_body (request c)" using cb parse_headers_body [OF Nil.prems(5,6)] by simp
  note A = http_onMessage_answers [where env = "\<lparr>sockWrite = sw, user = http_back cb now sw ow depth\<rparr>" and cb = cb,
    OF _ _ Nil.prems(1) pr Nil.prems(6) this Nil.prems(2) Nil.prems(9)]
  show ?case using A sw by auto
next
  case (Cons p ps)
  obtain later d where p: "p = (later, d)" by (cases p)
  let ?env = "\<lambda>now. \<lparr>sockWrite = sw, user = http_back cb now sw ow depth\<rparr>"
  have "length (snd (last (p # ps))) \<le> length (concat (map snd (p # ps)))"
    by (rule concat_map_snd_last) simp
  then have "length body < length (concat (map snd (p # ps)))" using Cons.prems(7) by simp
  from parse_headers_prefix [OF Cons.prems(5,6) this] obtain r' u' where
    "parse_headers r x = (True, \<lparr>request = r', state = kExpectHeaders\<rparr>, u')"
    and all: "parse_headers r' (u' @ concat (map snd (p # ps))) = (True, c, body)" by blast
  with Cons.prems(3) have w: "ok" "ctx1 = \<lparr>request = r', state = kExpectHeaders\<rparr>" "content b = u'" by auto
  with http_onMessage_waits [OF Cons.prems(1), of now ctx1 b cb "?env now"] Cons.prems(2,4) obtain t1 where
    t1: "http_onMessage cb now (?env now) s = Inr t1" "http_ready ctx1 t1" "inputBuffer t1 = b" "same_output s t1"
      "length (buffer b) = length (buffer (inputBuffer s))" by auto
  have d: "d \<noteq> []" "length d \<le> extrabufSize" using Cons.prems(8) p by (auto simp: packets_fit_def)
  have "length (buffer (inputBuffer t1)) + extrabufSize \<le> vector_max"
    using Cons.prems(8) t1(3,5) by (simp add: packets_fit_def)
  from message_event [OF t1(2) d this, of cb later sw ow depth] obtain s1 where
    e: "conn_HandleEvent (http_env cb later sw ow (Suc depth)) EPOLLIN (deliver d) t1 = http_onMessage cb later (?env later) s1"
    and s1: "http_ready ctx1 s1" "content (inputBuffer s1) = u' @ d" "same_output t1 s1"
      "length (buffer (inputBuffer s1)) \<le> length (buffer b) + length d" using t1(3) w(3) by auto
  have same: "same_output s s1" using s1(3) t1(4) by (simp add: same_output_def)
  have i1: "buf_inv (inputBuffer s1)" "state ctx1 = kExpectHeaders" using s1(1) w(2) by (simp_all add: http_ready_def)
  obtain b1 where b1: "buf_inv b1" "content b1 = snd (snd (parse_headers r' (u' @ d)))"
    "ParseRequest later ctx1 (inputBuffer s1) = Some (Inr (fst (parse_headers r' (u' @ d)), fst (snd (parse_headers r' (u' @ d))), b1))"
    using ParseRequest_headers_ref [OF i1, of later] s1(2) w(2) by (metis HttpContext.select_convs(1))
  have "\<exists>t. rbind (http_onMessage cb later (?env later) s1) (http_run cb sw ow (Suc depth) ps) = Inr t \<and> answered cb (request c) s1 t \<and>
      (ps \<noteq> [] \<longrightarrow> (\<exists>u. rbind (http_onMessage cb later (?env later) s1) (http_run cb sw ow (Suc depth) (butlast ps)) = Inr u \<and> same_output s1 u))"
  proof (rule Cons.IH [OF s1(1) b1(1) _ b1(3)])
    show "parse_headers r' (u' @ d) = (fst (parse_headers r' (u' @ d)), fst (snd (parse_headers r' (u' @ d))), content b1)"
      using b1(2) by simp
    show "parse_headers r' ((u' @ d) @ concat (map snd ps)) = (True, c, body)" using all p by simp
    show "packets_fit ps s1" using Cons.prems(8) s1(4) t1(5) p by (auto simp: packets_fit_def)
    show "response_fits (cb (request c) (HttpResponse_new (wants_close (request c)))) (writeIndex (outputBuffer s1))"
      using Cons.prems(9) same by (simp add: same_output_def)
  qed (use Cons.prems in auto)
  moreover have "answered cb (request c) s t" if "answered cb (request c) s1 t" for t
    using that same by (simp add: answered_def same_output_def Let_def)
  moreover have "same_output s u" if "same_output s1 u" for u using that same by (simp add: same_output_def)
  ultimately show ?case using t1(1) e p same by (cases "ps = []") (auto simp: t1(4))
qed

section \<open>The request line\<close>

definition first_request :: "Timestamp \<Rightarrow> Method \<Rightarrow> string \<Rightarrow> string \<Rightarrow> Version \<Rightarrow> HttpRequest" where
  "first_request now m p q v =
     HttpRequest_new\<lparr>req_method := m, req_version := v, req_path := p, req_query := q, receiveTime := now\<rparr>"

lemma ParseRequest_first_line:
  assumes "buf_inv b" "wf_line m p q v" and c: "content b = render_line m p q v @ kCRLF @ x"
  shows "\<exists>b'. ParseRequest now HttpContext_new b =
      Some (Inr (fst (parse_headers (first_request now m p q v) x),
        fst (snd (parse_headers (first_request now m p q v) x)), b')) \<and>
    buf_inv b' \<and> content b' = snd (snd (parse_headers (first_request now m p q v) x))"
proof -
  let ?line = "render_line m p q v"
  note fl = first_line [OF assms(1) c no_CR(1) [OF assms(2)]]
  from fl(3) obtain b' where b': "RetrieveUntil (Peek b + length ?line + 2) b = Inr b'" "buf_inv b'" "content b' = x"
    by blast
  let ?c = "\<lparr>request = first_request now m p q v, state = kExpectHeaders\<rparr>"
  have s: "state HttpContext_new = kExpectRequestLine" "request HttpContext_new = HttpRequest_new"
    by (simp_all add: HttpContext_new_def)
  have "parse_iter now HttpContext_new b = Inr (True, True, ?c, b')"
    unfolding parse_iter_def s(1) ParseState.case fl(1) option.case fl(2)
      ParseRequestLine_wf [OF assms(2) s(2)] rbind_simps
    by (use b'(1) in \<open>simp add: HttpContext_new_def first_request_def\<close>)
  then have "ParseRequest now HttpContext_new b = ParseRequest now ?c b'"
    by (subst ParseRequest.simps) simp
  with ParseRequest_parse_headers [OF b'(2), of now "first_request now m p q v"] b'(3) show ?thesis by auto
qed

lemma parsed_headers:
  "list_all wf_header hs \<Longrightarrow> parse_headers (first_request now m p q v) (render_headers hs @ kCRLF @ body) =
    (True, \<lparr>request = parsed now m p q v hs body, state = kGotAll\<rparr>, body)"
  by (simp add: parse_headers_wf first_request_def HttpRequest_new_def parsed_def)

section \<open>Properties\<close>


text \<open>Two packets, cut within a header name; each write takes one byte.\<close>

definition demo_http_conn :: "HttpContext TcpConnection" where
  "demo_http_conn = (conn_fresh fresh_buffer False True False)
     \<lparr>tstate := kConnected, chEvents := 1, chInPoller := True, any_context := Some HttpContext_new\<rparr>"


end
