(* ===== verification/HttpServers.thy ===== *)
theory HttpServers
  imports HttpConnections Servers
begin

text \<open>
  The HTTP server as a whole: \<^verbatim>\<open>src/net/http/HttpServer.h\<close> and \<^verbatim>\<open>src/net/http/HttpServer.cc\<close> over a
  \<^verbatim>\<open>TcpServer\<close> (theory \<open>Servers\<close>) with I/O threads.  The handlers are those of theory
  \<open>HttpConnections\<close>, bound to every connection that is accepted.  The invariant \<open>http_inv\<close> is that of the
  server with, for each connection, the state of its context and the sequence of answers it was given to send.
\<close>

section \<open>The server\<close>

record HttpServer =
  httpServer :: "HttpContext TcpServer"
  httpCallback :: "HttpRequest \<Rightarrow> HttpResponse \<Rightarrow> HttpResponse"

definition HttpServer_new :: "string \<Rightarrow> HttpServer" where
  "HttpServer_new name = \<lparr>httpServer = TcpServer_new name, httpCallback = DefaultHttpCallback\<rparr>"

definition SetHttpCallback :: "(HttpRequest \<Rightarrow> HttpResponse \<Rightarrow> HttpResponse) \<Rightarrow> HttpServer \<Rightarrow> HttpServer" where
  "SetHttpCallback cb s = s\<lparr>httpCallback := cb\<rparr>"

definition HttpServer_Start :: "bool \<Rightarrow> int \<Rightarrow> HttpServer \<Rightarrow> HttpServer res" where
  "HttpServer_Start inLoop numThreads s =
     rbind (TcpServer_Start inLoop numThreads False (httpServer s)) (\<lambda>t. Inr (s\<lparr>httpServer := t\<rparr>))"

definition set_http_conn :: "nat \<Rightarrow> HttpContext TcpConnection \<Rightarrow> HttpServer \<Rightarrow> HttpServer" where
  "set_http_conn i c s = s\<lparr>httpServer := set_conn i c (httpServer s)\<rparr>"

text \<open>
  The callbacks of a connection: those the constructor binds, with the user's callback and the time of
  the event.  The server sets no write-complete and no high-water callback.
\<close>

abbreviation server_env :: "(nat \<Rightarrow> string \<Rightarrow> write_result) \<Rightarrow> nat \<Rightarrow> Timestamp \<Rightarrow> HttpServer \<Rightarrow> HttpContext conn_env" where
  "server_env sw depth now s \<equiv> http_env (httpCallback s) now sw OtherLoop depth"

text \<open>
  A connection is accepted; the I/O thread establishes it, handles an event of its channel while that is
  in the poller, or runs a task; the main loop removes it.
\<close>

inductive http_step :: "(nat \<Rightarrow> string \<Rightarrow> write_result) \<Rightarrow> nat \<Rightarrow> HttpServer \<Rightarrow> HttpServer \<Rightarrow> bool" for sw depth where
  http_accept: "Server_NewConnection True peer False True (httpServer s) = Inr t \<Longrightarrow>
    http_step sw depth s (s\<lparr>httpServer := t\<rparr>)"
| http_established: "i \<in> set (establishing (httpServer s)) \<Longrightarrow> conns (httpServer s) i = Some (name, l, c) \<Longrightarrow>
    ConnectionEstablished (server_env sw depth now s) True c = Inr c' \<Longrightarrow>
    http_step sw depth s (s\<lparr>httpServer := set_conn i c'
      ((httpServer s)\<lparr>establishing := remove1 i (establishing (httpServer s))\<rparr>)\<rparr>)"
| http_event: "conns (httpServer s) i = Some (name, l, c) \<Longrightarrow> chInPoller c \<Longrightarrow> readv_spec readv \<Longrightarrow>
    length (buffer (inputBuffer c)) + extrabufSize \<le> vector_max \<Longrightarrow>
    conn_HandleEvent (server_env sw depth now s) evs readv c = Inr c' \<Longrightarrow> http_step sw depth s (set_http_conn i c' s)"
| http_task: "conns (httpServer s) i = Some (name, l, c) \<Longrightarrow> run_task (server_env sw depth now s) c = Inr c' \<Longrightarrow>
    http_step sw depth s (set_http_conn i c' s)"
| http_removal: "conns (httpServer s) i = Some (name, l, c) \<Longrightarrow> 0 < closes c \<Longrightarrow>
    RemoveConnectionInLoop True i (httpServer s) = Inr t \<Longrightarrow> http_step sw depth s (s\<lparr>httpServer := t\<rparr>)"

text \<open>Responses that fit into memory.\<close>

definition callback_fits :: "(HttpRequest \<Rightarrow> HttpResponse \<Rightarrow> HttpResponse) \<Rightarrow> bool" where
  "callback_fits cb \<longleftrightarrow> (\<forall>req. response_fits (cb req (HttpResponse_new (wants_close req))) 0)"

definition http_init :: "(nat \<Rightarrow> string \<Rightarrow> write_result) \<Rightarrow> (HttpRequest \<Rightarrow> HttpResponse \<Rightarrow> HttpResponse) \<Rightarrow> nat \<Rightarrow>
    HttpServer \<Rightarrow> bool" where
  "http_init sw cb n s \<longleftrightarrow> write_spec sw \<and> sock_never_fatal sw \<and> callback_fits cb \<and> 0 < n \<and>
     (\<exists>name. HttpServer_Start True (int n) (SetHttpCallback cb (HttpServer_new name)) = Inr s)"

section \<open>The handlers\<close>

text \<open>The context of an established connection; a message never finds it complete.\<close>

definition has_ctx :: "HttpContext TcpConnection \<Rightarrow> bool" where
  "has_ctx c \<longleftrightarrow> (\<exists>ctx. any_context c = Some ctx \<and> ctx_inv ctx \<and> state ctx \<noteq> kGotAll)"

lemma parse_iter_GotAll: "parse_iter now c b = Inr (go, ok, c1, b1) \<Longrightarrow> state c1 = kGotAll \<Longrightarrow> ok"
  by (auto simp: parse_iter_def res_simps split: ParseState.splits option.splits if_splits prod.splits)
     (auto simp: ParseRequestLine_def res_simps split: option.splits if_splits)

lemma ParseRequest_GotAll:
  assumes "ParseRequest now c b = Some r"
  shows "case r of Inl e \<Rightarrow> True | Inr (ok, c1, b1) \<Rightarrow> state c1 = kGotAll \<longrightarrow> ok"
proof (rule ParseRequest.raw_induct [OF _ assms])
  fix f now c b r
  assume IH: "\<And>now c b r. f now c b = Some r \<Longrightarrow> case r of Inl e \<Rightarrow> True | Inr (ok, c1, b1) \<Rightarrow> state c1 = kGotAll \<longrightarrow> ok"
    and r: "(case parse_iter now c b of Inl e \<Rightarrow> Some (Inl e)
      | Inr (go, ok, c1, b1) \<Rightarrow> if go then f now c1 b1 else Some (Inr (ok, c1, b1))) = Some r"
  show "case r of Inl e \<Rightarrow> True | Inr (ok, c1, b1) \<Rightarrow> state c1 = kGotAll \<longrightarrow> ok"
  proof (cases "parse_iter now c b")
    case (Inl e)
    with r show ?thesis by auto
  next
    case (Inr x)
    then obtain go ok c1 b1 where x: "parse_iter now c b = Inr (go, ok, c1, b1)" by (cases x) auto
    with IH [of now c1 b1 r] parse_iter_GotAll [OF x] r show ?thesis by (auto split: if_splits)
  qed
qed

text \<open>The calls the handler makes on the connection, after the parser has returned \<open>ok\<close> and \<open>ctx\<close>.\<close>

definition http_reply :: "(HttpRequest \<Rightarrow> HttpResponse \<Rightarrow> HttpResponse) \<Rightarrow> bool \<Rightarrow> HttpContext \<Rightarrow> conn_call list" where
  "http_reply cb ok ctx =
     (if state ctx = kGotAll then
        let r = cb (request ctx) (HttpResponse_new (wants_close (request ctx))) in
        CallSend (response_text r) # (if closeConnection r then [CallShutdown] else [])
      else if ok then [] else [CallSend bad_request, CallShutdown])"

definition next_ctx :: "HttpContext \<Rightarrow> HttpContext" where
  "next_ctx ctx = (if state ctx = kGotAll then HttpContext_new else ctx)"

lemma callback_fitsD:
  assumes "callback_fits cb" and "r = cb req (HttpResponse_new (wants_close req))"
  shows "length (resp_body r) < 10 ^ 13" "length (response_text r) + 8 \<le> vector_max" "length (response_text r) < 2 ^ 63"
proof -
  have "response_fits r 0" using assms by (simp add: callback_fits_def)
  then show "length (resp_body r) < 10 ^ 13" "length (response_text r) + 8 \<le> vector_max" "length (response_text r) < 2 ^ 63"
    by (simp_all add: response_fits_def vector_max_def)
qed

lemma onMessage_reply:
  assumes cb: "callback_fits cb" and b: "buf_inv b" and c: "ctx_inv ctx" "state ctx \<noteq> kGotAll"
  shows "\<exists>ok ctx1 b1 pre. ParseRequest now ctx b = Some (Inr (ok, ctx1, b1)) \<and> buf_inv b1 \<and> content b = pre @ content b1 \<and>
    onMessage cb now (Some ctx) b = Some (Inr (http_reply cb ok ctx1, Some (next_ctx ctx1), b1)) \<and>
    ctx_inv (next_ctx ctx1) \<and> state (next_ctx ctx1) \<noteq> kGotAll"
proof -
  from ParseRequest_total [OF b c] obtain ok ctx1 b1 pre where
    p: "ParseRequest now ctx b = Some (Inr (ok, ctx1, b1))" "buf_inv b1" "ctx_inv ctx1" "content b = pre @ content b1" by blast
  show ?thesis
  proof (cases "state ctx1 = kGotAll")
    case False
    with p show ?thesis by (auto simp: onMessage_def GotAll_def http_reply_def next_ctx_def)
  next
    case True
    define r where "r = cb (request ctx1) (HttpResponse_new (wants_close (request ctx1)))"
    have ok: "ok" using ParseRequest_GotAll [OF p(1)] True by simp
    have "handleRequest cb (request ctx1) =
        Inr (CallSend (response_text r) # (if closeConnection r then [CallShutdown] else []))"
      using handleRequest_ok [where cb = cb, OF r_def callback_fitsD(1,2) [OF cb r_def]] .
    then have "onMessage cb now (Some ctx) b = Some (Inr (http_reply cb ok ctx1, Some HttpContext_new, b1))"
      using p(1) True ok by (simp add: onMessage_def GotAll_def http_reply_def r_def [symmetric] Let_def Context_Reset_def
        Request_Swap_def HttpContext_new_def)
    moreover have "ctx_inv HttpContext_new" "state HttpContext_new \<noteq> kGotAll"
      by (simp_all add: ctx_inv_def HttpContext_new_def HttpRequest_new_def)
    ultimately show ?thesis using p True by (auto simp: next_ctx_def)
  qed
qed

text \<open>The handler on the connection: what it takes out of the buffer, and then its calls.\<close>

lemma http_onMessage_reply:
  assumes cb: "callback_fits cb" and i: "conn_inv 0 s" and c: "has_ctx s"
  shows "\<exists>ok ctx1 u. http_onMessage cb now env s = rfold (run_conn_call env) (http_reply cb ok ctx1) u \<and>
    conn_inv 0 u \<and> has_ctx u \<and> u = s\<lparr>inputBuffer := inputBuffer u, consumed := consumed u, any_context := any_context u\<rparr>"
proof -
  obtain ctx where ctx: "any_context s = Some ctx" "ctx_inv ctx" "state ctx \<noteq> kGotAll" using c by (auto simp: has_ctx_def)
  have b: "buf_inv (inputBuffer s)" "received s = consumed s @ content (inputBuffer s)"
    using i by (simp_all add: conn_inv_def receiving_ok_def)
  from onMessage_reply [OF cb b(1) ctx(2,3)] obtain ok ctx1 b1 pre where
    m: "onMessage cb now (Some ctx) (inputBuffer s) = Some (Inr (http_reply cb ok ctx1, Some (next_ctx ctx1), b1))"
    "buf_inv b1" "content (inputBuffer s) = pre @ content b1" "ctx_inv (next_ctx ctx1)" "state (next_ctx ctx1) \<noteq> kGotAll" by blast
  let ?u = "s\<lparr>inputBuffer := b1, consumed := consumed s @ pre, any_context := Some (next_ctx ctx1)\<rparr>"
  have "http_onMessage cb now env s = rfold (run_conn_call env) (http_reply cb ok ctx1) ?u"
    using m(1,3) ctx(1) by (simp add: http_onMessage_def Let_def)
  moreover have "conn_inv 0 ?u"
    using SetContext_inv [OF input_inv [OF i m(2), of "consumed s @ pre"], of "next_ctx ctx1"] b(2) m(3) by (simp add: SetContext_def)
  moreover have "has_ctx ?u" using m(4,5) by (simp add: has_ctx_def)
  ultimately show ?thesis by (intro exI [of _ ok] exI [of _ ctx1] exI [of _ ?u]) simp
qed

section \<open>The handlers keep the invariant of the connection\<close>

lemma parse_iter_suffix:
  assumes r: "parse_iter now c b = Inr (go, ok, c1, b1)" and b: "buf_inv b"
  shows "buf_inv b1 \<and> (\<exists>pre. content b = pre @ content b1)"
proof -
  have "b1 = b \<or> (\<exists>p. FindCRLF b = Some p \<and> RetrieveUntil (p + 2) b = Inr b1)"
    using r by (auto simp: parse_iter_def res_simps split: ParseState.splits option.splits if_splits prod.splits)
  then show ?thesis using b crlf_retrieve [OF b] by fastforce
qed

lemma ParseRequest_suffix:
  assumes "ParseRequest now c b = Some r" and "buf_inv b"
  shows "case r of Inl e \<Rightarrow> True | Inr (ok, c1, b1) \<Rightarrow> buf_inv b1 \<and> (\<exists>pre. content b = pre @ content b1)"
proof -
  let ?P = "\<lambda>b r. buf_inv b \<longrightarrow> (case r of Inl e \<Rightarrow> True | Inr (ok, c1, b1) \<Rightarrow> buf_inv b1 \<and> (\<exists>pre. content b = pre @ content b1))"
  have "?P b r"
  proof (rule ParseRequest.raw_induct [OF _ assms(1)])
    fix f now c b r
    assume IH: "\<And>now c b r. f now c b = Some r \<Longrightarrow> ?P b r"
      and r: "(case parse_iter now c b of Inl e \<Rightarrow> Some (Inl e)
        | Inr (go, ok, c1, b1) \<Rightarrow> if go then f now c1 b1 else Some (Inr (ok, c1, b1))) = Some r"
    show "?P b r"
    proof (cases "parse_iter now c b")
      case (Inl e)
      with r show ?thesis by auto
    next
      case (Inr x)
      then obtain go ok c1 b1 where x: "parse_iter now c b = Inr (go, ok, c1, b1)" by (cases x) auto
      show ?thesis
      proof
        assume "buf_inv b"
        from parse_iter_suffix [OF x this] obtain pre where b1: "buf_inv b1" "content b = pre @ content b1" by blast
        show "case r of Inl e \<Rightarrow> True | Inr (ok, c1, b1) \<Rightarrow> buf_inv b1 \<and> (\<exists>pre. content b = pre @ content b1)"
          using IH [of now c1 b1 r] x r b1 by (cases r) (auto split: if_splits)
      qed
    qed
  qed
  with assms(2) show ?thesis by blast
qed

definition sends_fit :: "conn_call list \<Rightarrow> bool" where
  "sends_fit cs \<longleftrightarrow> (\<forall>d. CallSend d \<in> set cs \<longrightarrow> length d < 2 ^ 63)"

lemma handleRequest_fits:
  assumes "callback_fits cb"
  shows "\<exists>cs. handleRequest cb req = Inr cs \<and> sends_fit cs"
proof -
  define r where "r = cb req (HttpResponse_new (wants_close req))"
  show ?thesis using handleRequest_ok [where cb = cb, OF r_def callback_fitsD(1,2) [OF assms r_def]]
    callback_fitsD(3) [OF assms r_def] by (simp add: sends_fit_def)
qed

lemma onMessage_fits:
  assumes cb: "callback_fits cb" and b: "buf_inv b" and r: "onMessage cb now x b = Some (Inr (cs, x1, b1))"
  shows "buf_inv b1 \<and> (\<exists>pre. content b = pre @ content b1) \<and> sends_fit cs"
proof -
  obtain ctx where x: "x = Some ctx" using r by (cases x) (auto simp: onMessage_def)
  then obtain ok c1 where p: "ParseRequest now ctx b = Some (Inr (ok, c1, b1))"
    using r by (auto simp: onMessage_def res_simps Let_def split: option.splits sum.splits if_splits prod.splits)
  from handleRequest_fits [OF cb, of "request c1"] obtain ks where ks: "handleRequest cb (request c1) = Inr ks" "sends_fit ks"
    by blast
  have "sends_fit cs"
    using r x p ks by (auto simp: onMessage_def Let_def sends_fit_def bad_request_def kCRLF_def split: if_splits)
  with ParseRequest_suffix [OF p b] show ?thesis by simp
qed

lemma run_conn_call_inv:
  assumes "keeps env" "sends_fit cs" "c \<in> set cs" "conn_inv 0 s" "run_conn_call env c s = Inr t"
  shows "conn_inv 0 t"
proof (cases c)
  case (CallSend d)
  with assms show ?thesis by (intro Send_inv [OF assms(1,4)]) (auto simp: sends_fit_def)
qed (use assms in \<open>auto intro: Shutdown_inv\<close>)

lemma context_inv [simp]: "conn_inv k (s\<lparr>any_context := x\<rparr>) = conn_inv k s"
  by (simp add: conn_inv_defs)

lemma http_onMessage_inv:
  assumes k: "keeps env" and cb: "callback_fits cb" and i: "conn_inv 0 s" and r: "http_onMessage cb now env s = Inr t"
  shows "conn_inv 0 t"
proof -
  have b: "buf_inv (inputBuffer s)" "received s = consumed s @ content (inputBuffer s)"
    using i by (simp_all add: conn_inv_def receiving_ok_def)
  obtain cs x b1 where m: "onMessage cb now (any_context s) (inputBuffer s) = Some (Inr (cs, x, b1))"
    using r by (auto simp: http_onMessage_def res_simps split: option.splits)
  from onMessage_fits [OF cb b(1) m] obtain pre where
    p: "buf_inv b1" "content (inputBuffer s) = pre @ content b1" "sends_fit cs" by blast
  let ?u = "s\<lparr>inputBuffer := b1, consumed := consumed s @ pre, any_context := x\<rparr>"
  have run: "rfold (run_conn_call env) cs ?u = Inr t" using r m p(2) by (simp add: http_onMessage_def Let_def)
  have u: "conn_inv 0 ?u"
    using input_inv [OF i p(1), of "consumed s @ pre"] b(2) p(2) by (simp add: conn_inv_defs)
  show ?thesis
    by (rule rfold_preserves [where P = "conn_inv 0", OF _ u run]) (rule run_conn_call_inv [OF k p(3)])
qed

text \<open>By induction on the depth of the stack.\<close>

lemma http_env_keeps:
  assumes w: "write_spec sw" and cb: "callback_fits cb"
  shows "keeps (http_env cb now sw ow depth)"
proof (induction depth)
  case 0
  then show ?case using w by (simp add: keeps_def http_env_def)
next
  case (Suc depth)
  have "conn_inv 0 t"
    if i: "conn_inv (if ev = EvClose then 1 else 0) s" and r: "http_back cb now sw ow (Suc depth) ev s = Inr t" for ev s t
  proof (cases ev)
    case EvClose
    then show ?thesis
      using ConnectionDestroyed_inv [OF Suc.IH, of s True t] i r closes_inv
      by (cases ow) (auto simp: http_env_def)
  next
    case EvMessage
    then show ?thesis using http_onMessage_inv [OF Suc.IH cb, of s now t] i r by (simp add: http_env_def)
  qed (use i r in auto)
  then show ?case using w by (simp add: keeps_def http_env_def)
qed

section \<open>What a handler sends\<close>

text \<open>A send fails only where the output buffer cannot grow.\<close>

lemma Append_fault: "buf_inv b \<Longrightarrow> length d < 2 ^ 63 \<Longrightarrow> Append d b = Inl e \<Longrightarrow> e = LengthError"
  using Append_fits [of b d] Append_length_error [of b d] by (cases "buf_fits (length d) b") auto

lemma buffer_rest_fault:
  assumes "buf_inv (outputBuffer s)" "length d < 2 ^ 63" "r \<le> length d" "buffer_rest d w r s = Inl e"
  shows "e = LengthError"
proof -
  have "Append (take r (drop w d)) (outputBuffer s) = Inl e"
    using assms(3,4) by (auto simp: buffer_rest_def Let_def res_simps enqueue_def split: if_splits)
  then show ?thesis by (rule Append_fault [OF assms(1), rotated]) (use assms(2) in simp)
qed

lemma Send_fault:
  assumes sw: "write_spec (sockWrite env)" "sock_never_fatal (sockWrite env)"
    and s: "\<not> hasWriteComplete s" "buf_inv (outputBuffer s)" and d: "length d < 2 ^ 63"
    and r: "Send env True d s = Inl e"
  shows "e = LengthError"
proof -
  have n: "sz_sub (length d) n = length d - n" if "sockWrite env (writes s) d = Written n" for n
    using that sw(1) d by (simp add: write_spec_def sz_sub_eq)
  have x: "x = EPIPE \<or> x = EINTR \<or> x = EWOULDBLOCK" if "sockWrite env (writes s) d = WriteError x" for x
    using that sw(2) by (cases x) (auto simp: sock_never_fatal_def)
  note fault = buffer_rest_fault [OF _ d, of _ _ _ e]
  show ?thesis
  proof (cases "\<not> conn_IsWriting s \<and> ReadableBytes (outputBuffer s) = 0")
    case False
    with r have "buffer_rest d 0 (length d) (s\<lparr>accepted := accepted s @ d\<rparr>) = Inl e"
      by (auto simp: Send_def SendInLoop_def Let_def split: if_splits)
    from fault [OF _ _ this] s(2) show ?thesis by simp
  next
    case True
    let ?s = "s\<lparr>accepted := accepted s @ d, writes := Suc (writes s)\<rparr>"
    show ?thesis
    proof (cases "sockWrite env (writes s) d")
      case (Written n)
      then have "buffer_rest d n (length d - n) (?s\<lparr>wire := wire s @ take n d\<rparr>) = Inl e"
        using r True s(1) n by (auto simp: Send_def SendInLoop_def Let_def split: if_splits)
      from fault [OF _ _ this] s(2) show ?thesis by simp
    next
      case (WriteError y)
      then have "buffer_rest d 0 (length d) ?s = Inl e"
        using r True x by (auto simp: Send_def SendInLoop_def Let_def split: if_splits)
      from fault [OF _ _ this] s(2) show ?thesis by simp
    qed
  qed
qed

lemma Shutdown_open: "Shutdown True s = Inr (if tstate s = kConnected then s\<lparr>tstate := kDisconnecting\<rparr> else s)"
  by (simp add: Shutdown_def ShutdownInLoop_def Let_def)

definition http_sent :: "(HttpRequest \<Rightarrow> HttpResponse \<Rightarrow> HttpResponse) \<Rightarrow> HttpContext TcpConnection \<Rightarrow>
    HttpContext TcpConnection \<Rightarrow> bool" where
  "http_sent cb s t \<longleftrightarrow> accepted t = accepted s \<and> tstate t = tstate s \<or>
     tstate s = kConnected \<and>
       (accepted t = accepted s @ bad_request \<and> tstate t = kDisconnecting \<or>
        (\<exists>req. let r = cb req (HttpResponse_new (wants_close req)) in
           accepted t = accepted s @ response_text r \<and>
           tstate t = (if closeConnection r then kDisconnecting else kConnected)))"

text \<open>The shape of what is sent: one text, and perhaps the shutdown.\<close>

lemma reply_sends:
  assumes sw: "write_spec (sockWrite env)" "sock_never_fatal (sockWrite env)"
    and s: "\<not> hasWriteComplete s" "\<not> hasHighWater s" "buf_inv (outputBuffer s)" and d: "length d < 2 ^ 63"
  shows "case rfold (run_conn_call env) (CallSend d # (if close then [CallShutdown] else [])) s of
      Inl e \<Rightarrow> e = LengthError
    | Inr t \<Rightarrow> rest_same s t \<and>
        (if tstate s = kConnected
         then accepted t = accepted s @ d \<and> tstate t = (if close then kDisconnecting else kConnected)
         else accepted t = accepted s \<and> tstate t = tstate s)"
proof (cases "Send env True d s")
  case (Inl e)
  then show ?thesis using Send_fault [OF sw s(1,3) d] by simp
next
  case (Inr t)
  with Send_same [OF Inr s(2,1)] show ?thesis by (simp add: Shutdown_open rest_same_def)
qed

lemma http_reply_sends:
  assumes sw: "write_spec (sockWrite env)" "sock_never_fatal (sockWrite env)" and cb: "callback_fits cb"
    and s: "\<not> hasWriteComplete s" "\<not> hasHighWater s" "buf_inv (outputBuffer s)"
  shows "case rfold (run_conn_call env) (http_reply cb ok ctx) s of
      Inl e \<Rightarrow> e = LengthError | Inr t \<Rightarrow> rest_same s t \<and> http_sent cb s t"
proof (cases "state ctx = kGotAll")
  case True
  define r where "r = cb (request ctx) (HttpResponse_new (wants_close (request ctx)))"
  have e: "http_reply cb ok ctx = CallSend (response_text r) # (if closeConnection r then [CallShutdown] else [])"
    using True by (simp add: http_reply_def r_def [symmetric] Let_def)
  show ?thesis
    unfolding e using reply_sends [OF sw s callback_fitsD(3) [OF cb r_def], of "closeConnection r"]
    by (cases "tstate s = kConnected") (auto simp: http_sent_def r_def Let_def split: sum.splits)
next
  case False
  have len: "length bad_request < 2 ^ 63" by (simp add: bad_request_def kCRLF_def)
  show ?thesis
  proof (cases ok)
    case True
    with False show ?thesis by (simp add: http_reply_def rest_same_def http_sent_def)
  next
    case f: False
    then have e: "http_reply cb ok ctx = CallSend bad_request # (if True then [CallShutdown] else [])"
      using False by (simp add: http_reply_def)
    show ?thesis unfolding e using reply_sends [OF sw s len, of True]
      by (cases "tstate s = kConnected") (auto simp: http_sent_def split: sum.splits)
  qed
qed

section \<open>A connection of the server\<close>

definition http_conn :: "HttpContext TcpConnection \<Rightarrow> bool" where
  "http_conn c \<longleftrightarrow> hasMessage c \<and> \<not> hasWriteComplete c \<and> \<not> hasHighWater c \<and> set (tasks c) \<subseteq> {TaskDestroy} \<and>
     (tstate c = kConnecting \<longrightarrow> \<not> chInPoller c \<and> accepted c = []) \<and> (tstate c \<noteq> kConnecting \<longrightarrow> has_ctx c)"

lemma http_conn_same:
  "http_conn s \<Longrightarrow> tstate s \<noteq> kConnecting \<Longrightarrow> rest_same s t \<Longrightarrow> tstate t \<noteq> kConnecting \<Longrightarrow> http_conn t"
  by (auto simp: http_conn_def rest_same_def has_ctx_def)

abbreviation conn_env_of :: "(HttpRequest \<Rightarrow> HttpResponse \<Rightarrow> HttpResponse) \<Rightarrow> Timestamp \<Rightarrow> (nat \<Rightarrow> string \<Rightarrow> write_result) \<Rightarrow>
    nat \<Rightarrow> HttpContext conn_env" where
  "conn_env_of cb now sw depth \<equiv> http_env cb now sw OtherLoop (Suc depth)"

lemma http_message:
  assumes sw: "write_spec sw" "sock_never_fatal sw" and cb: "callback_fits cb"
    and i: "conn_inv 0 s" and c: "http_conn s" "tstate s \<noteq> kConnecting"
  shows "case callback (conn_env_of cb now sw depth) EvMessage s of
      Inl e \<Rightarrow> e = LengthError | Inr t \<Rightarrow> http_conn t \<and> tstate t \<noteq> kConnecting \<and> http_sent cb s t"
proof -
  let ?s = "s\<lparr>calls := calls s @ [EvMessage]\<rparr>" and ?env = "\<lparr>sockWrite = sw, user = http_back cb now sw OtherLoop depth\<rparr>"
  have i': "conn_inv 0 ?s" using i by (auto simp: conn_inv_defs)
  have h: "has_ctx ?s" using c by (simp add: http_conn_def has_ctx_def)
  from http_onMessage_reply [OF cb i' h] obtain ok ctx1 u where
    u: "http_onMessage cb now ?env ?s = rfold (run_conn_call ?env) (http_reply cb ok ctx1) u" "conn_inv 0 u" "has_ctx u"
    "u = ?s\<lparr>inputBuffer := inputBuffer u, consumed := consumed u, any_context := any_context u\<rparr>" by blast
  have f: "tstate u = tstate s" "accepted u = accepted s" "hasWriteComplete u = hasWriteComplete s" "hasHighWater u = hasHighWater s"
    "hasMessage u = hasMessage s" "tasks u = tasks s"
    by (subst u(4), simp)+
  have "buf_inv (outputBuffer u)" using u(2) by (simp add: conn_inv_def sending_ok_def)
  with http_reply_sends [of ?env cb u ok ctx1] sw cb c f(3,4)
  have r: "case rfold (run_conn_call ?env) (http_reply cb ok ctx1) u of
      Inl e \<Rightarrow> e = LengthError | Inr t \<Rightarrow> rest_same u t \<and> http_sent cb u t" by (simp add: http_conn_def)
  have hu: "http_conn u" using c u(3) f by (simp add: http_conn_def)
  have "callback (conn_env_of cb now sw depth) EvMessage s = rfold (run_conn_call ?env) (http_reply cb ok ctx1) u"
    using u(1) by (simp add: callback_def http_env_def)
  moreover have "http_conn t \<and> tstate t \<noteq> kConnecting \<and> http_sent cb s t" if "rest_same u t" "http_sent cb u t" for t
  proof -
    have "tstate t \<noteq> kConnecting" using that(2) c(2) f(1) by (auto simp: http_sent_def Let_def split: if_splits)
    moreover have "http_sent cb s t" using that(2) f(1,2) by (simp add: http_sent_def)
    ultimately show ?thesis using http_conn_same [OF hu _ that(1)] c(2) f(1) by simp
  qed
  ultimately show ?thesis using r by (auto split: sum.splits)
qed

lemma http_closed:
  assumes "tstate s = kConnected \<or> tstate s = kDisconnecting" and c: "http_conn s"
  shows "\<exists>t. HandleClose (conn_env_of cb now sw depth) True s = Inr t \<and> http_conn t \<and> tstate t = kDisconnected \<and>
    accepted t = accepted s"
  using assms by (auto simp: HandleClose_def callback_def http_env_def http_conn_def has_ctx_def update_channel_def)

lemma http_read:
  assumes sw: "write_spec sw" "sock_never_fatal sw" and cb: "callback_fits cb"
    and i: "conn_inv 0 s" and c: "http_conn s" "tstate s \<noteq> kConnecting" and sp: "readv_spec readv"
    and room: "length (buffer (inputBuffer s)) + extrabufSize \<le> vector_max"
  shows "case HandleRead (conn_env_of cb now sw depth) True readv s of
      Inl e \<Rightarrow> e = LengthError \<or> e = Assertion \<and> tstate s = kDisconnected
    | Inr t \<Rightarrow> http_conn t \<and> tstate t \<noteq> kConnecting \<and>
        (http_sent cb s t \<or> tstate t = kDisconnected \<and> accepted t = accepted s)"
proof (cases "readv (ReadFd_iov (inputBuffer s))")
  case None
  then show ?thesis using c by (simp add: HandleRead_def ReadFd_def HandleError_def http_sent_def)
next
  case (Some d)
  have b: "buf_inv (inputBuffer s)" "received s = consumed s @ content (inputBuffer s)"
    using i by (simp_all add: conn_inv_def receiving_ok_def)
  from ReadFd_ok [OF b(1) sp room Some] obtain inb where inb: "ReadFd readv (inputBuffer s) = Inr (int (length d), inb)"
    "buf_inv inb" "content inb = content (inputBuffer s) @ d" by blast
  let ?s = "s\<lparr>inputBuffer := inb, received := received s @ d\<rparr>"
  have i': "conn_inv 0 ?s" using received_inv [OF i inb(2), of "received s @ d"] b(2) inb(3) by simp
  have c': "http_conn ?s" "tstate ?s \<noteq> kConnecting" using c by (simp_all add: http_conn_def has_ctx_def)
  show ?thesis
  proof (cases "d = []")
    case True
    then have h: "HandleRead (conn_env_of cb now sw depth) True readv s = HandleClose (conn_env_of cb now sw depth) True ?s"
      using inb(1) Some by (simp add: HandleRead_def)
    show ?thesis
    proof (cases "tstate s = kConnected \<or> tstate s = kDisconnecting")
      case True
      then have "tstate ?s = kConnected \<or> tstate ?s = kDisconnecting" by simp
      from http_closed [OF this c'(1), of cb now sw depth] obtain t where
        "HandleClose (conn_env_of cb now sw depth) True ?s = Inr t" "http_conn t" "tstate t = kDisconnected"
        "accepted t = accepted s" by auto
      then show ?thesis unfolding h by simp
    next
      case False
      then have "tstate s = kDisconnected" using c(2) by (cases "tstate s") auto
      then show ?thesis unfolding h by (simp add: HandleClose_def)
    qed
  next
    case False
    then have e: "HandleRead (conn_env_of cb now sw depth) True readv s = callback (conn_env_of cb now sw depth) EvMessage ?s"
      using inb(1) Some c by (simp add: HandleRead_def http_conn_def)
    have "http_sent cb ?s t = http_sent cb s t" for t by (simp add: http_sent_def)
    with http_message [OF sw cb i' c', of now depth] show ?thesis
      unfolding e by (auto split: sum.splits)
  qed
qed

text \<open>A whole event word: at most one answer, and perhaps the end of the connection.\<close>

definition http_handled :: "(HttpRequest \<Rightarrow> HttpResponse \<Rightarrow> HttpResponse) \<Rightarrow> HttpContext TcpConnection \<Rightarrow>
    HttpContext TcpConnection \<Rightarrow> bool" where
  "http_handled cb s t \<longleftrightarrow> (\<exists>u. http_sent cb s u \<and> accepted t = accepted u \<and> (tstate t = tstate u \<or> tstate t = kDisconnected))"

lemma http_handledI:
  "http_sent cb s t \<Longrightarrow> http_handled cb s t" "tstate t = kDisconnected \<Longrightarrow> accepted t = accepted s \<Longrightarrow> http_handled cb s t"
  "http_handled cb s t \<Longrightarrow> accepted t' = accepted t \<Longrightarrow> tstate t' = tstate t \<or> tstate t' = kDisconnected \<Longrightarrow> http_handled cb s t'"
proof -
  show "http_handled cb s t" if "http_sent cb s t" using that by (auto simp: http_handled_def)
  show "http_handled cb s t" if "tstate t = kDisconnected" "accepted t = accepted s"
    unfolding http_handled_def by (rule exI [of _ s]) (use that in \<open>simp add: http_sent_def\<close>)
  show "http_handled cb s t'" if "http_handled cb s t" "accepted t' = accepted t" "tstate t' = tstate t \<or> tstate t' = kDisconnected"
    using that by (auto simp: http_handled_def)
qed

lemma http_write:
  assumes w: "write_spec sw" and i: "conn_inv 0 s" and c: "http_conn s" "tstate s \<noteq> kConnecting"
  shows "\<exists>t. HandleWrite (conn_env_of cb now sw depth) True s = Inr t \<and> http_conn t \<and> tstate t = tstate s \<and> accepted t = accepted s"
proof -
  let ?env = "conn_env_of cb now sw depth"
  have b: "buf_inv (outputBuffer s)" using i by (simp add: conn_inv_def sending_ok_def)
  have f: "\<not> hasWriteComplete s" using c(1) by (simp add: http_conn_def)
  have sw: "sockWrite ?env = sw" by (simp add: http_env_def)
  have "\<exists>t. HandleWrite ?env True s = Inr t"
  proof (cases "sw (writes s) (content (outputBuffer s))")
    case (Written n)
    then have "n \<le> length (content (outputBuffer s))" using w by (simp add: write_spec_def)
    from Retrieve_ok [OF b this] obtain ob where "Retrieve n (outputBuffer s) = Inr ob" by blast
    with Written f show ?thesis by (simp add: HandleWrite_def sw Let_def ShutdownInLoop_def)
  qed (simp add: HandleWrite_def sw Let_def)
  then obtain t where t: "HandleWrite ?env True s = Inr t" by blast
  from HandleWrite_same [OF t f] http_conn_same [OF c(1,2)] c(2) t show ?thesis by auto
qed

lemma http_event_outcome:
  assumes sw: "write_spec sw" "sock_never_fatal sw" and cb: "callback_fits cb"
    and i: "conn_inv 0 s" and c: "http_conn s" "tstate s \<noteq> kConnecting" and sp: "readv_spec readv"
    and room: "length (buffer (inputBuffer s)) + extrabufSize \<le> vector_max"
  shows "case conn_HandleEvent (conn_env_of cb now sw depth) evs readv s of
      Inl e \<Rightarrow> e = LengthError \<or> e = Assertion \<and> (tstate s = kDisconnected \<or> evs AND EPOLLHUP \<noteq> 0)
    | Inr t \<Rightarrow> http_conn t \<and> tstate t \<noteq> kConnecting \<and> http_handled cb s t"
proof -
  let ?env = "conn_env_of cb now sw depth"
  define m where "m = (if evs AND (EPOLLIN OR EPOLLPRI OR EPOLLRDHUP) \<noteq> 0 then HandleRead ?env True readv s else Inr s)"
  have m: "case m of Inl e \<Rightarrow> e = LengthError \<or> e = Assertion \<and> tstate s = kDisconnected
      | Inr t \<Rightarrow> http_conn t \<and> tstate t \<noteq> kConnecting \<and> http_handled cb s t \<and> conn_inv 0 t"
  proof (cases "evs AND (EPOLLIN OR EPOLLPRI OR EPOLLRDHUP) \<noteq> 0")
    case True
    then have "m = HandleRead ?env True readv s" by (simp add: m_def)
    then show ?thesis using http_read [OF sw cb i c sp room, of now depth]
        HandleRead_inv [OF http_env_keeps [OF sw(1) cb] i sp room]
      by (auto split: sum.splits intro: http_handledI(1,2))
  next
    case False
    then show ?thesis using c i http_handledI(1) [of cb s s] by (simp add: m_def http_sent_def)
  qed
  have e: "conn_HandleEvent ?env evs readv s = rbind m (\<lambda>s1.
      rbind (if evs AND EPOLLOUT \<noteq> 0 then HandleWrite ?env True s1 else Inr s1) (\<lambda>s2.
        if evs AND EPOLLHUP \<noteq> 0 then HandleClose ?env True s2 else Inr s2))"
    by (simp add: conn_HandleEvent_def m_def HandleError_def)
  show ?thesis
  proof (cases m)
    case (Inl x)
    then show ?thesis using m by (auto simp: e)
  next
    case (Inr s1)
    with m have s1: "http_conn s1" "tstate s1 \<noteq> kConnecting" "http_handled cb s s1" "conn_inv 0 s1" by simp_all
    obtain s2 where s2: "(if evs AND EPOLLOUT \<noteq> 0 then HandleWrite ?env True s1 else Inr s1) = Inr s2" "http_conn s2"
      "tstate s2 = tstate s1" "accepted s2 = accepted s1"
      using http_write [OF sw(1) s1(4,1,2), of cb now depth] s1(1) by (cases "evs AND EPOLLOUT \<noteq> 0") auto
    have h2: "http_handled cb s s2" using http_handledI(3) [OF s1(3) s2(4)] s2(3) by simp
    have r: "conn_HandleEvent ?env evs readv s = (if evs AND EPOLLHUP \<noteq> 0 then HandleClose ?env True s2 else Inr s2)"
      using Inr s2(1) by (simp add: e)
    show ?thesis
    proof (cases "evs AND EPOLLHUP \<noteq> 0")
      case False
      with r s2 s1(2) h2 show ?thesis by simp
    next
      case hup: True
      show ?thesis
      proof (cases "tstate s2 = kConnected \<or> tstate s2 = kDisconnecting")
        case True
        from http_closed [OF this s2(2), of cb now sw depth] obtain t where
          t: "HandleClose ?env True s2 = Inr t" "http_conn t" "tstate t = kDisconnected" "accepted t = accepted s2" by auto
        with r hup http_handledI(3) [OF h2 t(4)] show ?thesis by simp
      next
        case False
        with r hup show ?thesis by (simp add: HandleClose_def)
      qed
    qed
  qed
qed

section \<open>What a connection sends\<close>

text \<open>The texts the server answers with, and whether it closes after them.\<close>

definition http_answer :: "(HttpRequest \<Rightarrow> HttpResponse \<Rightarrow> HttpResponse) \<Rightarrow> string \<times> bool \<Rightarrow> bool" where
  "http_answer cb a \<longleftrightarrow> a = (bad_request, True) \<or>
     (\<exists>req. let r = cb req (HttpResponse_new (wants_close req)) in a = (response_text r, closeConnection r))"

text \<open>A sequence of whole answers, none of them after a closing one; while the connection is up none closes.\<close>

definition http_outputs :: "(HttpRequest \<Rightarrow> HttpResponse \<Rightarrow> HttpResponse) \<Rightarrow> string \<Rightarrow> bool \<Rightarrow> bool" where
  "http_outputs cb out up \<longleftrightarrow> (\<exists>as. out = concat (map fst as) \<and> list_all (http_answer cb) as \<and>
     list_all (\<lambda>a. \<not> snd a) (butlast as) \<and> (up \<longrightarrow> list_all (\<lambda>a. \<not> snd a) as))"

lemma http_outputs_Nil [simp]: "http_outputs cb [] up"
  unfolding http_outputs_def by (rule exI [of _ "[]"]) simp

lemma http_outputs_down: "http_outputs cb out up \<Longrightarrow> http_outputs cb out False"
  by (auto simp: http_outputs_def)

lemma http_outputs_snoc:
  assumes "http_outputs cb out True" "http_answer cb (d, close)"
  shows "http_outputs cb (out @ d) (\<not> close)"
proof -
  obtain as where as: "out = concat (map fst as)" "list_all (http_answer cb) as" "list_all (\<lambda>a. \<not> snd a) as"
    using assms(1) by (auto simp: http_outputs_def)
  show ?thesis unfolding http_outputs_def
    by (rule exI [of _ "as @ [(d, close)]"]) (use as assms(2) in simp)
qed

lemma http_sent_outputs:
  assumes o: "http_outputs cb (accepted s) (tstate s = kConnected)" and h: "http_sent cb s t"
  shows "http_outputs cb (accepted t) (tstate t = kConnected)"
  using h unfolding http_sent_def
proof (elim disjE conjE exE)
  assume "accepted t = accepted s" "tstate t = tstate s"
  then show ?thesis using o by simp
next
  assume c: "tstate s = kConnected" and t: "accepted t = accepted s @ bad_request" "tstate t = kDisconnecting"
  have "http_answer cb (bad_request, True)" by (simp add: http_answer_def)
  from http_outputs_snoc [OF _ this] o c t show ?thesis by simp
next
  fix req
  assume c: "tstate s = kConnected" and t: "let r = cb req (HttpResponse_new (wants_close req)) in
    accepted t = accepted s @ response_text r \<and> tstate t = (if closeConnection r then kDisconnecting else kConnected)"
  define r where "r = cb req (HttpResponse_new (wants_close req))"
  have "http_answer cb (response_text r, closeConnection r)" by (auto simp: http_answer_def r_def Let_def)
  from http_outputs_snoc [OF _ this] o c t show ?thesis by (simp add: r_def [symmetric] Let_def split: if_splits)
qed

lemma http_handled_outputs:
  assumes "http_outputs cb (accepted s) (tstate s = kConnected)" and "http_handled cb s t"
  shows "http_outputs cb (accepted t) (tstate t = kConnected)"
proof -
  obtain u where u: "http_sent cb s u" "accepted t = accepted u" "tstate t = tstate u \<or> tstate t = kDisconnected"
    using assms(2) by (auto simp: http_handled_def)
  have "http_outputs cb (accepted u) (tstate u = kConnected)" using http_sent_outputs [OF assms(1) u(1)] .
  then show ?thesis using u(2,3) http_outputs_down by (cases "tstate t = tstate u") (auto dest: http_outputs_down)
qed

definition http_sound :: "(HttpRequest \<Rightarrow> HttpResponse \<Rightarrow> HttpResponse) \<Rightarrow> HttpContext TcpConnection \<Rightarrow> bool" where
  "http_sound cb c \<longleftrightarrow> http_conn c \<and> http_outputs cb (accepted c) (tstate c = kConnected)"

section \<open>The invariant of the server\<close>

definition http_inv :: "(nat \<Rightarrow> string \<Rightarrow> write_result) \<Rightarrow> (HttpRequest \<Rightarrow> HttpResponse \<Rightarrow> HttpResponse) \<Rightarrow> nat \<Rightarrow>
    HttpServer \<Rightarrow> bool" where
  "http_inv sw cb n s \<longleftrightarrow> write_spec sw \<and> sock_never_fatal sw \<and> callback_fits cb \<and> httpCallback s = cb \<and>
     server_inv n (httpServer s) \<and> (\<forall>i name l c. conns (httpServer s) i = Some (name, l, c) \<longrightarrow> http_sound cb c)"

lemma conns_set_conn:
  "conns s i = Some (name, l, c) \<Longrightarrow> conns (set_conn i c' s) = (conns s)(i := Some (name, l, c'))"
  by (simp add: set_conn_def)

lemma http_conn_set:
  assumes "\<forall>j name l c. conns s j = Some (name, l, c) \<longrightarrow> P c" and "P c'"
  shows "conns (set_conn i c' s) j = Some (name, l, c) \<Longrightarrow> P c"
  using assms by (auto simp: set_conn_def split: option.splits if_splits)

text \<open>Every step is one of a server of theory \<open>Servers\<close>.\<close>

lemma http_step_server:
  assumes "http_step sw depth s t"
  shows "\<exists>now. server_step (server_env sw depth now s) (httpServer s) (httpServer t) \<and> httpCallback t = httpCallback s"
  using assms
proof cases
  case (http_accept peer u)
  then show ?thesis using server_step.accept by fastforce
next
  case (http_established i name l c now c')
  then show ?thesis using server_step.established by fastforce
next
  case (http_event i name l c readv now evs c')
  then have "io_step (server_env sw depth now s) c c'" by (intro io_event)
  with http_event(1,2) show ?thesis using server_step.io by (fastforce simp: set_http_conn_def)
next
  case (http_task i name l c now c')
  then have "io_step (server_env sw depth now s) c c'" by (intro io_task)
  with http_task(1,2) show ?thesis using server_step.io by (fastforce simp: set_http_conn_def)
next
  case (http_removal i name l c u)
  then show ?thesis using server_step.removal by fastforce
qed

lemma http_established_ok:
  assumes "http_sound cb c" and r: "ConnectionEstablished (conn_env_of cb now sw depth) True c = Inr t"
  shows "http_sound cb t"
  using assms by (auto simp: http_sound_def ConnectionEstablished_def res_simps callback_def http_env_def http_conn_def has_ctx_def
      update_channel_def onConnection_def ctx_inv_def HttpContext_new_def HttpRequest_new_def)

lemma http_task_ok:
  assumes c: "http_sound cb c" and r: "run_task (conn_env_of cb now sw depth) c = Inr t"
  shows "http_sound cb t"
proof (cases "tasks c")
  case Nil
  with r c show ?thesis by (simp add: run_task_def)
next
  case (Cons k ks)
  then have "k = TaskDestroy" "set ks \<subseteq> {TaskDestroy}" using c by (auto simp: http_sound_def http_conn_def)
  with r c Cons show ?thesis
    by (auto simp: http_sound_def run_task_def Let_def ConnectionDestroyed_def res_simps callback_def http_env_def http_conn_def has_ctx_def
        update_channel_def onConnection_def)
qed

lemma http_step_inv:
  assumes i: "http_inv sw cb n s" and st: "http_step sw (Suc depth) s t"
  shows "http_inv sw cb n t"
proof -
  have h: "write_spec sw" "sock_never_fatal sw" "callback_fits cb" "httpCallback s = cb" "server_inv n (httpServer s)"
    "\<forall>i name l c. conns (httpServer s) i = Some (name, l, c) \<longrightarrow> http_sound cb c" using i by (simp_all add: http_inv_def)
  from http_step_server [OF st] obtain now where
    sv: "server_step (server_env sw (Suc depth) now s) (httpServer s) (httpServer t)" "httpCallback t = httpCallback s" by blast
  have "server_inv n (httpServer t)"
    using server_step_inv [OF http_env_keeps [OF h(1,3)] h(5), of now OtherLoop "Suc depth"] sv(1) h(4) by simp
  moreover have "http_sound cb c0" if c0: "conns (httpServer t) i0 = Some (name0, l0, c0)" for i0 name0 l0 c0
    using st
  proof cases
    case (http_accept peer u)
    then obtain p where "conns u = (conns (httpServer s))(connCount (httpServer s) :=
        Some (connection_name peer (Suc (connCount (httpServer s))), p, conn_fresh fresh_buffer False True False))"
      by (auto simp: Server_NewConnection_def TcpConnection_new_eq res_simps Let_def)
    moreover have "http_sound cb (conn_fresh fresh_buffer False True False)"
      by (simp add: http_sound_def http_conn_def conn_fresh_def)
    ultimately show ?thesis using c0 h(6) http_accept(1) by (auto split: if_splits)
  next
    case (http_established i name l c now c')
    then have "http_sound cb c'" using h(4,6) http_established_ok by blast
    then show ?thesis
      using c0 http_established(1) h(6) http_conn_set [of "(httpServer s)\<lparr>establishing := remove1 i (establishing (httpServer s))\<rparr>" "http_sound cb" c']
      by auto
  next
    case (http_event i name l c readv now evs c')
    have snd: "http_sound cb c" using h(6) http_event(2) by blast
    then have c: "http_conn c" by (simp add: http_sound_def)
    then have "tstate c \<noteq> kConnecting" using http_event(3) by (auto simp: http_conn_def)
    moreover have "conn_inv 0 c" using h(5) http_event(2) unfolding server_inv_def conns_ok_def by blast
    ultimately have "http_conn c' \<and> http_handled cb c c'"
      using http_event_outcome [OF h(1-3) _ c _ http_event(4,5), of evs now depth] http_event(6) h(4) by simp
    then have "http_sound cb c'" using http_handled_outputs [of cb c c'] snd by (simp add: http_sound_def)
    then show ?thesis using c0 http_event(1) http_conn_set [of "httpServer s" "http_sound cb", OF h(6)] by (auto simp: set_http_conn_def)
  next
    case (http_task i name l c now c')
    then have "http_sound cb c'" using h(4,6) http_task_ok by blast
    then show ?thesis using c0 http_task(1) http_conn_set [of "httpServer s" "http_sound cb", OF h(6)] by (auto simp: set_http_conn_def)
  next
    case (http_removal i name l c u)
    have "http_sound cb (enqueue TaskDestroy (c\<lparr>closes := closes c - 1\<rparr>))"
      using h(6) http_removal(2) by (auto simp: http_sound_def http_conn_def has_ctx_def enqueue_def)
    then show ?thesis using c0 http_removal h(6)
      by (auto simp: RemoveConnectionInLoop_def set_conn_def split: if_splits)
  qed
  ultimately show ?thesis using h sv(2) by (auto simp: http_inv_def)
qed

interpretation http: invariant "http_init sw cb n" "http_step sw (Suc depth)" "http_inv sw cb n" for sw cb n depth
proof unfold_locales
  fix s assume s: "http_init sw cb n s"
  then obtain name where "HttpServer_Start True (int n) (SetHttpCallback cb (HttpServer_new name)) = Inr s"
    by (auto simp: http_init_def)
  then obtain t where t: "TcpServer_Start True (int n) False (TcpServer_new name) = Inr t" "s = \<lparr>httpServer = t, httpCallback = cb\<rparr>"
    by (auto simp: HttpServer_Start_def SetHttpCallback_def HttpServer_new_def res_simps)
  have "server_inv n t" "\<forall>i. conns t i = None"
    using t(1) [unfolded server_started] s by (auto simp: http_init_def TcpServer_new_def EventLoopThreadPool_new_def server_inv_def pool_ok_def
      conns_ok_def names_ok_def map_wf_def map_find_def)
  with s t(2) show "http_inv sw cb n s" by (simp add: http_init_def http_inv_def)
qed (rule http_step_inv)

section \<open>Properties\<close>


text \<open>A peer connects to a server with two threads and sends the beginning of a request.\<close>

lemma Default_fits: "callback_fits DefaultHttpCallback"
  using show_status [of k200Ok]
  by (simp add: callback_fits_def response_fits_def DefaultHttpCallback_def Response_SetBody_def SetCloseConnection_def
      SetStatusMessage_def SetStatusCode_def HttpResponse_new_def response_text_def kCRLF_def vector_max_def
      del: status_number.simps)

lemma http_demo:
  "\<exists>s c. reach (http_init one_byte DefaultHttpCallback 2) (http_step one_byte 1) s \<and>
    conns (httpServer s) 0 = Some (connection_name demo_peer 1, 1, c) \<and> tstate c = kConnected \<and> inputBuffer c = fresh_buffer"
proof -
  let ?R = "reach (http_init one_byte DefaultHttpCallback 2) (http_step one_byte 1)"
  obtain t0 :: "HttpContext TcpServer" where t0: "TcpServer_Start True (int 2) False (TcpServer_new ''http'') = Inr t0"
    "connCount t0 = 0"
    unfolding server_started by (simp add: TcpServer_new_def)
  let ?s0 = "\<lparr>httpServer = t0, httpCallback = DefaultHttpCallback\<rparr>"
  have "HttpServer_Start True (int 2) (SetHttpCallback DefaultHttpCallback (HttpServer_new ''http'')) = Inr ?s0"
    using t0(1) by (simp add: HttpServer_Start_def SetHttpCallback_def HttpServer_new_def)
  then have "http_init one_byte DefaultHttpCallback 2 ?s0"
    using one_byte_spec Default_fits by (auto simp: http_init_def sock_never_fatal_def one_byte_def)
  then have r0: "?R ?s0" by (rule reach_init)
  have "pool_ok 2 t0" using http.reach_inv [of one_byte DefaultHttpCallback 2 0 ?s0] r0 by (simp add: http_inv_def server_inv_def)
  from NewConnection_ok [OF this, of demo_peer False True] t0(2) obtain t1 c where
    t1: "Server_NewConnection True demo_peer False True t0 = Inr t1" "conns t1 0 = Some (connection_name demo_peer 1, 1, c)"
    by auto
  have c: "c = conn_fresh fresh_buffer False True False" "0 \<in> set (establishing t1)"
    using t1 t0(2) by (auto simp: Server_NewConnection_def TcpConnection_new_eq res_simps Let_def)
  let ?s1 = "\<lparr>httpServer = t1, httpCallback = DefaultHttpCallback\<rparr>"
  have r1: "?R ?s1" using reach_step [OF r0 http_step.http_accept [of demo_peer ?s0 t1]] t1(1) by simp
  obtain c' where c': "ConnectionEstablished (server_env one_byte 1 (Timestamp 0) ?s1) True c = Inr c'"
    "tstate c' = kConnected" "inputBuffer c' = fresh_buffer"
    by (simp add: c(1) ConnectionEstablished_def callback_def http_env_def conn_fresh_def update_channel_def)
  from http_step.http_established [of 0 ?s1, OF _ _ c'(1)] c(2) t1(2)
  have "http_step one_byte 1 ?s1 \<lparr>httpServer = set_conn 0 c' (t1\<lparr>establishing := remove1 0 (establishing t1)\<rparr>),
      httpCallback = DefaultHttpCallback\<rparr>" by simp
  from reach_step [OF r1 this] t1(2) c'(2,3) show ?thesis
    by (intro exI conjI) (auto simp: set_conn_def)
qed

definition demo_request :: string where
  "demo_request = ''GET / HTTP/1.1'' @ kCRLF @ kCRLF"


text \<open>
  C5. What an HTTP connection sends.  In every reachable state of the server, whatever was done to it by
  its peers, the kernel and the loops, the bytes each connection has been given to send are a sequence
  of whole answers: 400 answers and responses of the user's callback, in the order the requests were
  handled, and no answer after one that closes; a connection that is still up has sent no closing
  answer.  These bytes are the ones already on the wire followed by the content of the output buffer.
\<close>

theorem HttpServer_output:
  assumes "reach (http_init sw cb n) (http_step sw (Suc depth)) s"
    and "conns (httpServer s) i = Some (name, l, c)"
  shows "http_outputs cb (accepted c) (tstate c = kConnected) \<and> wire c @ content (outputBuffer c) = accepted c"
proof -
  have "http_inv sw cb n s" by (rule http.reach_inv [OF assms(1)])
  then have h: "http_sound cb c" "server_inv n (httpServer s)" using assms(2) by (auto simp: http_inv_def)
  then have "conn_inv 0 c" using assms(2) unfolding server_inv_def conns_ok_def by blast
  with h(1) show ?thesis by (simp add: http_sound_def conn_inv_def sending_ok_def)
qed

text \<open>The connection of the demonstration is up and has sent no closing answer.\<close>

theorem HttpServer_output_witness:
  "\<exists>(s :: HttpServer) c. conns (httpServer s) 0 = Some (connection_name demo_peer 1, 1, c) \<and> tstate c = kConnected \<and>
    http_outputs DefaultHttpCallback (wire c @ content (outputBuffer c)) True"
proof -
  from http_demo obtain s c where s: "reach (http_init one_byte DefaultHttpCallback 2) (http_step one_byte (Suc 0)) s"
    "conns (httpServer s) 0 = Some (connection_name demo_peer 1, 1, c)" "tstate c = kConnected"
    by auto
  from HttpServer_output [OF s(1,2)] s(3) have "http_outputs DefaultHttpCallback (wire c @ content (outputBuffer c)) True" by simp
  with s(2,3) show ?thesis by blast
qed

end
