(* ===== verification/LoopObjects.thy ===== *)
theory LoopObjects
  imports Channels
begin

text \<open>
  The construction and destruction of an event loop with its descriptors and channels:
  \<^verbatim>\<open>src/reactor/EventLoop.cc\<close> (lines 16 to 77), the constructor and destructor of
  \<^verbatim>\<open>src/reactor/TimerQueue.cc\<close> and of \<^verbatim>\<open>src/reactor/Poller.cc\<close>.  The answers of
  \<^verbatim>\<open>eventfd\<close>, \<^verbatim>\<open>epoll_create1\<close> and \<^verbatim>\<open>timerfd_create\<close> are arguments.
\<close>

section \<open>State\<close>

text \<open>The open descriptors of the process and the loop of the calling thread.\<close>

record thread_state =
  openFds :: "int set"
  t_loopOfCurrentThread :: "nat option"

record fd_answers =
  ansEventfd :: int
  ansEpoll :: int
  ansTimerfd :: int

text \<open>The loop with its poller, and the addresses of its two channels.\<close>

record ('cb, 'k) LoopObject =
  loopPoller :: "('cb, 'k) Poller"
  epollFd :: int
  eventFd :: int
  eventChannel :: nat
  timerFd :: int
  timerChannel :: nat

definition open_fd :: "int \<Rightarrow> thread_state \<Rightarrow> thread_state" where
  "open_fd fd w = w\<lparr>openFds := insert fd (openFds w)\<rparr>"

definition close_fd :: "int \<Rightarrow> thread_state \<Rightarrow> thread_state" where
  "close_fd fd w = w\<lparr>openFds := openFds w - {fd}\<rparr>"

definition CreateEventfd :: "int \<Rightarrow> thread_state \<Rightarrow> (int \<times> thread_state) res" where
  "CreateEventfd fd w = (if fd < 0 then Inl Fatal else Inr (fd, open_fd fd w))"

definition CreateTimerfd :: "int \<Rightarrow> thread_state \<Rightarrow> (int \<times> thread_state) res" where
  "CreateTimerfd fd w = (if fd < 0 then Inl Fatal else Inr (fd, open_fd fd w))"

definition CurrentThreadLoop :: "thread_state \<Rightarrow> nat option" where
  "CurrentThreadLoop w = t_loopOfCurrentThread w"

section \<open>Construction and destruction\<close>

text \<open>\<^verbatim>\<open>TimerQueue(loop)\<close>, with the address of its channel and the callback for it.\<close>

definition TimerQueue_create :: "'k epoll_ctl \<Rightarrow> int \<Rightarrow> nat \<Rightarrow> 'cb \<Rightarrow> ('cb, 'k) Poller \<Rightarrow> thread_state \<Rightarrow>
    (int \<times> ('cb, 'k) Poller \<times> thread_state) res" where
  "TimerQueue_create ctl tfd a cb p w =
     rbind (CreateTimerfd tfd w) (\<lambda>(fd, w1).
     rbind (SetReadCallback a cb (Channel_create a (loopId p) fd p)) (\<lambda>p1.
     rbind (change_events ctl True EnableReading a p1) (\<lambda>p2. Inr (fd, p2, w1))))"

definition EventLoop_create :: "'k epoll_ctl \<Rightarrow> fd_answers \<Rightarrow> nat \<Rightarrow> nat \<Rightarrow> 'cb \<Rightarrow> 'cb \<Rightarrow> nat \<Rightarrow> 'k \<Rightarrow> thread_state \<Rightarrow>
    (('cb, 'k) LoopObject \<times> thread_state) res" where
  "EventLoop_create ctl ans ea ta eventCb timerCb loop k w =
     rbind (CreateEventfd (ansEventfd ans) w) (\<lambda>(efd, w1).
     rbind (Poller_new loop (\<lambda>_. ansEpoll ans) k) (\<lambda>p0.
     rbind (TimerQueue_create ctl (ansTimerfd ans) ta timerCb (Channel_create ea loop efd p0) (open_fd (ansEpoll ans) w1))
       (\<lambda>(tfd, p1, w2).
         if t_loopOfCurrentThread w2 \<noteq> None then Inl Fatal
         else
           rbind (SetReadCallback ea eventCb p1) (\<lambda>p2.
           rbind (change_events ctl True EnableReading ea p2) (\<lambda>p3.
             Inr (\<lparr>loopPoller = p3, epollFd = ansEpoll ans, eventFd = efd, eventChannel = ea, timerFd = tfd,
                    timerChannel = ta\<rparr>, w2\<lparr>t_loopOfCurrentThread := Some loop\<rparr>))))))"

text \<open>The timers that are left are deleted in theory \<open>Timers\<close>; the channel dies as a member.\<close>

definition TimerQueue_close :: "'k epoll_ctl \<Rightarrow> bool \<Rightarrow> int \<Rightarrow> nat \<Rightarrow> ('cb, 'k) Poller \<Rightarrow> thread_state \<Rightarrow>
    (('cb, 'k) Poller \<times> thread_state) res" where
  "TimerQueue_close ctl inLoop fd a p w =
     rbind (change_events ctl inLoop DisableAll a p) (\<lambda>p1.
     rbind (RemoveFromPoller ctl inLoop a p1) (\<lambda>p2.
     rbind (Channel_destroy a p2) (\<lambda>p3. Inr (p3, close_fd fd w))))"

text \<open>The body of the destructor, then the members in reverse order: timer queue, poller, channel.\<close>

definition EventLoop_destroy :: "'k epoll_ctl \<Rightarrow> bool \<Rightarrow> ('cb, 'k) LoopObject \<Rightarrow> thread_state \<Rightarrow>
    (('cb, 'k) Poller \<times> thread_state) res" where
  "EventLoop_destroy ctl inLoop l w =
     rbind (change_events ctl inLoop DisableAll (eventChannel l) (loopPoller l)) (\<lambda>p1.
     rbind (RemoveFromPoller ctl inLoop (eventChannel l) p1) (\<lambda>p2.
       let w1 = (close_fd (eventFd l) w)\<lparr>t_loopOfCurrentThread := None\<rparr> in
     rbind (TimerQueue_close ctl inLoop (timerFd l) (timerChannel l) p2 w1) (\<lambda>(p3, w2).
       let w3 = close_fd (epollFd l) w2 in
     rbind (Channel_destroy (eventChannel l) p3) (\<lambda>p4. Inr (p4, w3)))))"

section \<open>Enrolling and retiring a channel\<close>

lemma retire_ok:
  assumes spec: "epoll_ctl_spec ctl interest" and reg: "registry interest s" and c: "chans s a = Some c"
    and own: "ownerLoop c = loopId s" and r: "registeredToPoller c"
  shows "\<exists>s1 s2. change_events ctl True DisableAll a s = Inr s1 \<and> RemoveFromPoller ctl True a s1 = Inr s2 \<and>
    registry interest s2 \<and> interest (kernel s2) = (interest (kernel s))(chFd c := None) \<and> loopId s2 = loopId s \<and>
    chans s2 = (chans s)(a := Some (c\<lparr>events := kNoneEvent, registeredToPoller := False\<rparr>))"
proof -
  obtain k where k: "change_events ctl True DisableAll a s = Inr (after_change DisableAll a c k s)"
    "interest k = (interest (kernel s))(chFd c := Some (apply_mask DisableAll (events c), a))"
    by (rule change_events_cases [OF spec reg c own, of DisableAll]) (use r in blast)+
  let ?s1 = "after_change DisableAll a c k s"
  have reg1: "registry interest ?s1" by (rule change_events_registry [OF spec reg c own k(1)])
  have c1: "chans ?s1 a = Some (changed DisableAll c)" by (simp add: after_change_def)
  have own1: "ownerLoop (changed DisableAll c) = loopId ?s1" "registeredToPoller (changed DisableAll c)"
    "events (changed DisableAll c) = kNoneEvent" using own by (simp_all add: changed_def after_change_def)
  from RemoveFromPoller_registered [OF spec reg1 c1 own1] obtain k2 where
    k2: "RemoveFromPoller ctl True a ?s1 = Inr (after_remove a (changed DisableAll c) k2 ?s1)"
    "interest k2 = (interest (kernel ?s1))(chFd (changed DisableAll c) := None)" by blast
  have "registry interest (after_remove a (changed DisableAll c) k2 ?s1)"
    by (rule after_remove_registry [OF reg1 c1 own1(2) k2(2)])
  with k(1) k2 show ?thesis
    by (intro exI [of _ ?s1] exI [of _ "after_remove a (changed DisableAll c) k2 ?s1"])
      (simp add: after_remove_def after_change_def changed_def k(2))
qed

lemma enroll_ok:
  assumes spec: "epoll_ctl_spec ctl interest" and reg: "registry interest s" and c: "chans s a = Some c"
    and own: "ownerLoop c = loopId s" and r: "\<not> registeredToPoller c"
    and s1: "rbind (SetReadCallback a cb s) (change_events ctl True EnableReading a) = Inr s1"
  shows "registry interest s1 \<and> interest (kernel s1) = (interest (kernel s))(chFd c := Some (apply_mask EnableReading (events c), a)) \<and>
    loopId s1 = loopId s \<and> interest (kernel s) (chFd c) = None \<and>
    chans s1 = (chans s)(a := Some (changed EnableReading (c\<lparr>readCallback := Some cb\<rparr>)))"
proof -
  let ?c = "c\<lparr>readCallback := Some cb\<rparr>" let ?s = "set_chan a ?c s"
  have e: "change_events ctl True EnableReading a ?s = Inr s1"
    using s1 c by (simp add: SetReadCallback_def deref_def)
  have reg': "registry interest ?s" by (rule registry_set_chan [OF reg c]) simp_all
  have c': "chans ?s a = Some ?c" and own': "ownerLoop ?c = loopId ?s" using own by (simp_all add: set_chan_def)
  show ?thesis
  proof (cases rule: change_events_cases [OF spec reg' c' own', of EnableReading])
    case 1
    with e show ?thesis by simp
  next
    case (2 k)
    with e have s1': "s1 = after_change EnableReading a ?c k ?s" by simp
    from change_events_registry [OF spec reg' c' own' e] have "registry interest s1" .
    with 2(2,3) r show ?thesis by (simp add: s1' after_change_def set_chan_def)
  qed
qed

section \<open>The destructor\<close>

text \<open>
  Whatever was registered with the loop meanwhile, its own two channels leave the poller, and the three
  descriptors are closed.
\<close>

lemma EventLoop_destroy_ok:
  assumes spec: "epoll_ctl_spec ctl interest" and reg: "registry interest (loopPoller l)"
    and e: "chans (loopPoller l) (eventChannel l) = Some ce" "ownerLoop ce = loopId (loopPoller l)" "registeredToPoller ce"
    and t: "chans (loopPoller l) (timerChannel l) = Some ct" "ownerLoop ct = loopId (loopPoller l)" "registeredToPoller ct"
    and d: "eventChannel l \<noteq> timerChannel l"
  shows "\<exists>p. EventLoop_destroy ctl True l w =
      Inr (p, \<lparr>openFds = openFds w - {eventFd l, timerFd l, epollFd l}, t_loopOfCurrentThread = None\<rparr>) \<and>
    interest (kernel p) = (interest (kernel (loopPoller l)))(chFd ce := None, chFd ct := None) \<and>
    chans p = (chans (loopPoller l))(eventChannel l := None, timerChannel l := None)"
proof -
  from retire_ok [OF spec reg e] obtain p1 p2 where
    1: "change_events ctl True DisableAll (eventChannel l) (loopPoller l) = Inr p1"
      "RemoveFromPoller ctl True (eventChannel l) p1 = Inr p2" "registry interest p2"
      "interest (kernel p2) = (interest (kernel (loopPoller l)))(chFd ce := None)" "loopId p2 = loopId (loopPoller l)"
      "chans p2 = (chans (loopPoller l))(eventChannel l := Some (ce\<lparr>events := kNoneEvent, registeredToPoller := False\<rparr>))"
    by blast
  have "chans p2 (timerChannel l) = Some ct" "ownerLoop ct = loopId p2" using t d 1(5,6) by simp_all
  from retire_ok [OF spec 1(3) this t(3)] obtain p3 p4 where
    2: "change_events ctl True DisableAll (timerChannel l) p2 = Inr p3" "RemoveFromPoller ctl True (timerChannel l) p3 = Inr p4"
      "interest (kernel p4) = (interest (kernel p2))(chFd ct := None)"
      "chans p4 = (chans p2)(timerChannel l := Some (ct\<lparr>events := kNoneEvent, registeredToPoller := False\<rparr>))"
    by blast
  have "w\<lparr>t_loopOfCurrentThread := None, openFds := openFds w - {eventFd l} - {timerFd l} - {epollFd l}\<rparr> =
      \<lparr>openFds = openFds w - {eventFd l, timerFd l, epollFd l}, t_loopOfCurrentThread = None\<rparr>"
    by (cases w) auto
  with 1 2 d show ?thesis
    by (auto simp: EventLoop_destroy_def TimerQueue_close_def Channel_destroy_def deref_def close_fd_def Let_def)
qed

section \<open>The constructor\<close>

lemma Channel_create_registry:
  "registry interest s \<Longrightarrow> chans s a = None \<Longrightarrow> registry interest (Channel_create a loop fd s)"
  unfolding Channel_create_def set_chan_def by (rule registry_unregistered) (simp_all add: Channel_new_def)

lemma EventLoop_create_ok:
  assumes spec: "epoll_ctl_spec ctl interest" and k: "interest k = (\<lambda>_. None)" and d: "ea \<noteq> ta"
    and r: "EventLoop_create ctl ans ea ta eventCb timerCb loop k w = Inr (l, w1)"
  shows "registry interest (loopPoller l) \<and> loopId (loopPoller l) = loop \<and>
    interest (kernel (loopPoller l)) = (\<lambda>_. None)(ansTimerfd ans := Some (kReadEvent, ta), ansEventfd ans := Some (kReadEvent, ea)) \<and>
    chans (loopPoller l) = (\<lambda>_. None)(ea := Some (changed EnableReading ((Channel_new loop (ansEventfd ans))\<lparr>readCallback := Some eventCb\<rparr>)),
      ta := Some (changed EnableReading ((Channel_new loop (ansTimerfd ans))\<lparr>readCallback := Some timerCb\<rparr>))) \<and>
    ansEventfd ans \<noteq> ansTimerfd ans \<and> t_loopOfCurrentThread w = None \<and>
    eventFd l = ansEventfd ans \<and> timerFd l = ansTimerfd ans \<and> epollFd l = ansEpoll ans \<and> eventChannel l = ea \<and> timerChannel l = ta \<and>
    w1 = \<lparr>openFds = openFds w \<union> {ansEventfd ans, ansTimerfd ans, ansEpoll ans}, t_loopOfCurrentThread = Some loop\<rparr>"
proof -
  define p0 :: "('b, 'a) Poller" where
    "p0 = \<lparr>loopId = loop, chans = (\<lambda>a. None), kernel = k, channels = [], eventListSize = kEventListSize\<rparr>"
  define p1 where "p1 = Channel_create ta loop (ansTimerfd ans) (Channel_create ea loop (ansEventfd ans) p0)"
  have p0: "registry interest p0" by (simp add: registry_def p0_def k map_wf_def)
  have "registry interest (Channel_create ea loop (ansEventfd ans) p0)"
    by (rule Channel_create_registry [OF p0]) (simp add: p0_def)
  then have p1: "registry interest p1"
    unfolding p1_def by (rule Channel_create_registry) (use d in \<open>simp add: p0_def Channel_create_def set_chan_def\<close>)
  have c1: "chans p1 = (\<lambda>_. None)(ea := Some (Channel_new loop (ansEventfd ans)), ta := Some (Channel_new loop (ansTimerfd ans)))"
    "loopId p1 = loop" "interest (kernel p1) = (\<lambda>_. None)"
    by (simp_all add: p1_def p0_def Channel_create_def set_chan_def k)
  obtain p2 p3 where e: "rbind (SetReadCallback ta timerCb p1) (change_events ctl True EnableReading ta) = Inr p2"
    "rbind (SetReadCallback ea eventCb p2) (change_events ctl True EnableReading ea) = Inr p3" and
    l: "l = \<lparr>loopPoller = p3, epollFd = ansEpoll ans, eventFd = ansEventfd ans, eventChannel = ea, timerFd = ansTimerfd ans,
      timerChannel = ta\<rparr>" and t: "t_loopOfCurrentThread w = None" and
    w1: "w1 = (open_fd (ansTimerfd ans) (open_fd (ansEpoll ans) (open_fd (ansEventfd ans) w)))\<lparr>t_loopOfCurrentThread := Some loop\<rparr>"
    using r unfolding EventLoop_create_def TimerQueue_create_def CreateEventfd_def CreateTimerfd_def Poller_new_def
    by (auto simp: res_simps p1_def p0_def open_fd_def Channel_create_def set_chan_def split: if_splits)
  have "chans p1 ta = Some (Channel_new loop (ansTimerfd ans))" "ownerLoop (Channel_new loop (ansTimerfd ans)) = loopId p1"
    "\<not> registeredToPoller (Channel_new loop (ansTimerfd ans))" by (simp_all add: c1 Channel_new_def)
  note 2 = enroll_ok [OF spec p1 this e(1)]
  have "chans p2 ea = Some (Channel_new loop (ansEventfd ans))" "ownerLoop (Channel_new loop (ansEventfd ans)) = loopId p2"
    "\<not> registeredToPoller (Channel_new loop (ansEventfd ans))" using 2 d by (simp_all add: c1 Channel_new_def)
  note 3 = enroll_ok [OF spec _ this e(2)]
  have "apply_mask EnableReading (events (Channel_new loop fd)) = kReadEvent" for fd
    by (simp add: Channel_new_def mask_defs)
  moreover have "w1 = \<lparr>openFds = openFds w \<union> {ansEventfd ans, ansTimerfd ans, ansEpoll ans}, t_loopOfCurrentThread = Some loop\<rparr>"
    unfolding w1 by (cases w) (auto simp: open_fd_def)
  ultimately show ?thesis using 2 3 c1 d l t by (auto simp: Channel_new_def split: if_splits)
qed

text \<open>From another thread the first change of a channel fails its assertion.\<close>

lemma change_events_elsewhere:
  "chans s a = Some c \<Longrightarrow> ownerLoop c = loopId s \<Longrightarrow> change_events ctl False m a s = Inl Assertion"
  by (simp add: change_events_def deref_def RegisterToPoller_def Loop_UpdateChannel_def set_chan_def)

section \<open>Properties\<close>

text \<open>
  C11. The life of a loop: when the constructor returns, the kernel monitors exactly the wakeup and the
  timer descriptor for reading, with the addresses of their channels, and the thread knows its loop; another loop
  in the same thread ends the process.  Destroying it in its thread succeeds, removes both
  channels, closes what the constructor opened and leaves the thread as it was before; destroying
  it in another thread fails an assertion.
\<close>

theorem EventLoop_lifecycle:
  assumes "epoll_ctl_spec ctl interest" and "interest k = (\<lambda>_. None)" and "ea \<noteq> ta"
    and "openFds w \<inter> {ansEventfd ans, ansTimerfd ans, ansEpoll ans} = {}"
    and "EventLoop_create ctl ans ea ta eventCb timerCb loop k w = Inr (l, w1)"
  shows "interest (kernel (loopPoller l)) =
      (\<lambda>_. None)(ansTimerfd ans := Some (kReadEvent, ta), ansEventfd ans := Some (kReadEvent, ea)) \<and>
    CurrentThreadLoop w1 = Some loop \<and>
    (\<nexists>r. EventLoop_create ctl ans2 ea2 ta2 eventCb timerCb loop2 k2 w1 = Inr r) \<and>
    (\<exists>p. EventLoop_destroy ctl True l w1 = Inr (p, w) \<and> interest (kernel p) = (\<lambda>_. None) \<and> chans p = (\<lambda>_. None)) \<and>
    EventLoop_destroy ctl False l w1 = Inl Assertion"
proof -
  note c = EventLoop_create_ok [OF assms(1,2,3,5)]
  let ?e = "changed EnableReading ((Channel_new loop (ansEventfd ans))\<lparr>readCallback := Some eventCb\<rparr>)"
  let ?t = "changed EnableReading ((Channel_new loop (ansTimerfd ans))\<lparr>readCallback := Some timerCb\<rparr>)"
  have e: "chans (loopPoller l) (eventChannel l) = Some ?e" "ownerLoop ?e = loopId (loopPoller l)" "registeredToPoller ?e"
    "chFd ?e = ansEventfd ans"
    using c assms(3) by (simp_all add: changed_def Channel_new_def)
  have t: "chans (loopPoller l) (timerChannel l) = Some ?t" "ownerLoop ?t = loopId (loopPoller l)" "registeredToPoller ?t"
    "chFd ?t = ansTimerfd ans"
    using c assms(3) by (simp_all add: changed_def Channel_new_def)
  have reg: "registry interest (loopPoller l)" and d: "eventChannel l \<noteq> timerChannel l" using c assms(3) by auto
  obtain p where p: "EventLoop_destroy ctl True l w1 =
      Inr (p, \<lparr>openFds = openFds w1 - {eventFd l, timerFd l, epollFd l}, t_loopOfCurrentThread = None\<rparr>)"
    "interest (kernel p) = (interest (kernel (loopPoller l)))(chFd ?e := None, chFd ?t := None)"
    "chans p = (chans (loopPoller l))(eventChannel l := None, timerChannel l := None)"
    using EventLoop_destroy_ok [OF assms(1) reg e(1-3) t(1-3) d] by blast
  have w: "\<lparr>openFds = openFds w1 - {eventFd l, timerFd l, epollFd l}, t_loopOfCurrentThread = None\<rparr> = w"
    using c assms(4) by (cases w) auto
  have i: "interest (kernel p) = (\<lambda>_. None)" "chans p = (\<lambda>_. None)"
    unfolding p(2,3) e(4) t(4) using c by auto
  have other: "\<nexists>r. EventLoop_create ctl ans2 ea2 ta2 eventCb timerCb loop2 k2 w1 = Inr r"
    using c by (auto simp: EventLoop_create_def TimerQueue_create_def CreateEventfd_def CreateTimerfd_def open_fd_def res_simps
        split: if_splits)
  have "EventLoop_destroy ctl False l w1 = Inl Assertion"
    using change_events_elsewhere [OF e(1,2), of ctl DisableAll] by (simp add: EventLoop_destroy_def)
  with c p(1) w i other show ?thesis by (auto simp: CurrentThreadLoop_def)
qed

definition demo_answers :: fd_answers where
  "demo_answers = \<lparr>ansEventfd = 3, ansEpoll = 4, ansTimerfd = 5\<rparr>"

theorem EventLoop_lifecycle_witness:
  "\<exists>l w1 p. EventLoop_create table_ctl demo_answers 0 1 ''wakeup'' ''timers'' 7 [] \<lparr>openFds = {0, 1, 2}, t_loopOfCurrentThread = None\<rparr> = Inr (l, w1) \<and>
    openFds w1 = {0, 1, 2, 3, 4, 5} \<and> CurrentThreadLoop w1 = Some 7 \<and>
    EventLoop_destroy table_ctl True l w1 = Inr (p, \<lparr>openFds = {0, 1, 2}, t_loopOfCurrentThread = None\<rparr>)"
proof -
  let ?w = "\<lparr>openFds = {0, 1, 2}, t_loopOfCurrentThread = None\<rparr> :: thread_state"
  obtain l w1 where c: "EventLoop_create table_ctl demo_answers 0 1 ''wakeup'' ''timers'' 7 [] ?w = Inr (l, w1)"
    "openFds w1 = {0, 1, 2, 3, 4, 5}"
    by (auto simp: EventLoop_create_def TimerQueue_create_def CreateEventfd_def CreateTimerfd_def open_fd_def demo_answers_def
        Poller_new_def SetReadCallback_def poller_eval)
  have "openFds ?w \<inter> {ansEventfd demo_answers, ansTimerfd demo_answers, ansEpoll demo_answers} = {}"
    by (simp add: demo_answers_def)
  then have T: "CurrentThreadLoop w1 = Some 7 \<and> (\<exists>p. EventLoop_destroy table_ctl True l w1 = Inr (p, ?w))"
    using EventLoop_lifecycle [OF table_ctl_spec _ _ _ c(1)] by fastforce
  then show ?thesis using c by blast
qed

end
