(* ===== verification/Echo.thy ===== *)
theory Echo
  imports Tcp "HOL-Library.Sublist"
begin

text \<open>
  The echo server of \<^verbatim>\<open>src/net/tests/EchoServer.cc\<close>, a complete program over the library: its two
  callbacks as the script of a connection, and what its clients see.
\<close>

section \<open>The program\<close>

definition hello :: string where
  "hello = ''hello'' @ [CHR 0x0A]"

text \<open>\<^verbatim>\<open>OnConnection\<close> and \<^verbatim>\<open>OnMessage\<close>, without their output on the terminal.\<close>

definition echo_script :: "conn_event \<Rightarrow> 'c TcpConnection \<Rightarrow> 'c conn_op list" where
  "echo_script ev s =
     (case ev of
        EvConnection \<Rightarrow> if tstate s = kConnected then [OpSend hello] else []
      | EvMessage \<Rightarrow>
          let msg = content (inputBuffer s) in
          [OpRetrieve (length msg), if msg = ''quit'' then OpShutdown else OpSend msg]
      | _ \<Rightarrow> [])"

text \<open>
  A connection of the server: only its callbacks call it, and the poller reports events of a registered
  channel only.
\<close>

inductive echo_step :: "'c conn_env \<Rightarrow> 'c TcpConnection \<Rightarrow> 'c TcpConnection \<Rightarrow> bool" for env where
  echo_establish: "ConnectionEstablished env True s = Inr t \<Longrightarrow> echo_step env s t"
| echo_event: "chInPoller s \<Longrightarrow> readv_spec readv \<Longrightarrow> length (buffer (inputBuffer s)) + extrabufSize \<le> vector_max \<Longrightarrow>
    conn_HandleEvent env evs readv s = Inr t \<Longrightarrow> echo_step env s t"
| echo_task: "run_task env s = Inr t \<Longrightarrow> echo_step env s t"
| echo_owner: "closes s = Suc n \<Longrightarrow> echo_step env s (enqueue TaskDestroy (s\<lparr>closes := n\<rparr>))"

definition echo_init :: "(nat \<Rightarrow> string \<Rightarrow> write_result) \<Rightarrow> 'c TcpConnection \<Rightarrow> bool" where
  "echo_init sw s \<longleftrightarrow> write_spec sw \<and> TcpConnection_new False True False = Inr s"

lemma echo_script_fits: "script_fits echo_script"
proof -
  have "length (content b) < 2 ^ 63" if "buf_inv b" for b
    using that length_content [OF that] by (auto simp: buf_inv_def vector_max_def)
  then show ?thesis
    by (auto simp: script_fits_def op_fits_def echo_script_def hello_def Let_def split: conn_event.splits if_splits)
qed

lemma echo_conn_step: "echo_step env s t \<Longrightarrow> conn_step env s t"
  by (erule echo_step.cases) (auto intro: conn_step.intros)

section \<open>The callbacks\<close>

abbreviation echo_env :: "(nat \<Rightarrow> string \<Rightarrow> write_result) \<Rightarrow> owner \<Rightarrow> nat \<Rightarrow> 'c conn_env" where
  "echo_env sw ow depth \<equiv> the_env sw echo_script ow depth"

lemma echo_callback:
  assumes "callback (echo_env sw ow depth) ev s = Inr t" and "ev = EvConnection \<or> ev = EvMessage"
  shows "\<exists>env. rfold (run_op env True) (echo_script ev s) (s\<lparr>calls := calls s @ [ev]\<rparr>) = Inr t"
  using assms by (cases depth) (auto simp: callback_def the_env_def echo_script_def Let_def)

lemma echo_connected:
  assumes "callback (echo_env sw ow depth) EvConnection s = Inr t" "\<not> hasHighWater s" "\<not> hasWriteComplete s"
  shows "rest_same s t \<and> tstate t = tstate s \<and>
    accepted t = (if tstate s = kConnected then accepted s @ hello else accepted s)"
proof -
  from echo_callback [OF assms(1)] obtain env where
    r: "rfold (run_op env True) (echo_script EvConnection s) (s\<lparr>calls := calls s @ [EvConnection]\<rparr>) = Inr t" by blast
  show ?thesis
  proof (cases "tstate s = kConnected")
    case True
    with r have "Send env True hello (s\<lparr>calls := calls s @ [EvConnection]\<rparr>) = Inr t" by (simp add: echo_script_def)
    from Send_same [OF this] assms(2,3) True show ?thesis by (simp add: rest_same_def)
  next
    case False
    with r show ?thesis by (auto simp: echo_script_def rest_same_def)
  qed
qed

lemma echo_message:
  assumes r: "callback (echo_env sw ow depth) EvMessage s = Inr t" and f: "\<not> hasHighWater s" "\<not> hasWriteComplete s"
    and b: "buf_inv (inputBuffer s)"
  shows "content (inputBuffer t) = [] \<and> received t = received s \<and> tasks t = tasks s \<and>
    hasWriteComplete t = hasWriteComplete s \<and> hasHighWater t = hasHighWater s \<and> hasMessage t = hasMessage s \<and>
    (if tstate s = kConnected \<and> content (inputBuffer s) \<noteq> ''quit''
     then tstate t = kConnected \<and> accepted t = accepted s @ content (inputBuffer s)
     else accepted t = accepted s \<and> tstate t = (if tstate s = kConnected then kDisconnecting else tstate s))"
proof -
  let ?m = "content (inputBuffer s)" let ?s = "s\<lparr>calls := calls s @ [EvMessage]\<rparr>"
  from echo_callback [OF r] obtain env where
    e: "rfold (run_op env True) (echo_script EvMessage s) ?s = Inr t" by blast
  obtain b' where g: "RetrieveAsString (length ?m) (inputBuffer s) = Inr (?m, b')" "content b' = []"
    using RetrieveAsString_ok [OF b, of "length ?m"] by auto
  let ?u = "?s\<lparr>inputBuffer := b', consumed := consumed s @ ?m\<rparr>"
  have u: "run_op env True (if ?m = ''quit'' then OpShutdown else OpSend ?m) ?u = Inr t"
    using e g(1) by (simp add: echo_script_def Retrieve_input_def Let_def del: run_op.simps(1,4))
  show ?thesis
  proof (cases "?m = ''quit''")
    case True
    then show ?thesis using u g(2)
      by (auto simp: Shutdown_def ShutdownInLoop_def Let_def split: if_splits)
  next
    case False
    with u have "Send env True ?m ?u = Inr t" by simp
    from Send_same [OF this] f g(2) False show ?thesis by (simp add: rest_same_def)
  qed
qed

text \<open>The owner and the destruction change the counters of the closing only.\<close>

lemma echo_destroyed:
  assumes "ConnectionDestroyed (echo_env sw ow depth) True s = Inr t" "\<not> hasHighWater s" "\<not> hasWriteComplete s"
  shows "rest_same s t \<and> accepted t = accepted s \<and> tstate t = kDisconnected"
proof -
  let ?s = "(update_channel DisableAll s)\<lparr>chInPoller := False, destroyed := Suc (destroyed s)\<rparr>"
  have "callback (echo_env sw ow depth) EvConnection ?s = Inr t" and d: "tstate s = kDisconnected"
    using assms(1) by (auto simp: ConnectionDestroyed_def res_simps)
  from echo_connected [OF this(1)] assms(2,3) d show ?thesis by (simp add: rest_same_def update_channel_def)
qed

lemma echo_closed:
  assumes r: "HandleClose (echo_env sw ow depth) True s = Inr t" and f: "\<not> hasHighWater s" "\<not> hasWriteComplete s"
  shows "rest_same s t \<and> accepted t = accepted s \<and> tstate t = kDisconnected"
proof -
  let ?s = "(update_channel DisableAll s)\<lparr>tstate := kDisconnected, calls := calls s @ [EvClose]\<rparr>"
  have c: "call_back sw echo_script ow depth EvClose ?s = Inr t"
    using r by (auto simp: HandleClose_def res_simps callback_def the_env_def)
  then obtain d where d: "depth = Suc d" by (cases depth) auto
  show ?thesis
  proof (cases ow)
    case SameLoop
    then have "ConnectionDestroyed (echo_env sw ow d) True ?s = Inr t" using c d by (simp add: the_env_def)
    from echo_destroyed [OF this] f show ?thesis by (simp add: rest_same_def update_channel_def)
  next
    case OtherLoop
    then show ?thesis using c d by (auto simp: rest_same_def update_channel_def)
  qed
qed

section \<open>The invariant\<close>

definition echo_ok :: "'c TcpConnection \<Rightarrow> bool" where
  "echo_ok s \<longleftrightarrow> \<not> hasWriteComplete s \<and> \<not> hasHighWater s \<and> hasMessage s \<and> set (tasks s) \<subseteq> {TaskDestroy} \<and>
     (tstate s = kConnecting \<longrightarrow> \<not> chInPoller s \<and> received s = [] \<and> accepted s = [] \<and> content (inputBuffer s) = []) \<and>
     (tstate s = kConnected \<longrightarrow> accepted s = hello @ received s \<and> content (inputBuffer s) = []) \<and>
     prefix (accepted s) (hello @ received s)"

lemma echo_same_ok:
  "echo_ok s \<Longrightarrow> tstate s \<noteq> kConnecting \<Longrightarrow> rest_same s t \<Longrightarrow> accepted t = accepted s \<Longrightarrow>
    tstate t = tstate s \<or> tstate t = kDisconnected \<Longrightarrow> echo_ok t"
  by (auto simp: echo_ok_def rest_same_def)

lemma echo_read:
  assumes ok: "echo_ok s" "tstate s \<noteq> kConnecting" and b: "buf_inv (inputBuffer s)" and sp: "readv_spec readv"
    and room: "length (buffer (inputBuffer s)) + extrabufSize \<le> vector_max"
    and r: "HandleRead (echo_env sw ow depth) True readv s = Inr t"
  shows "echo_ok t \<and> tstate t \<noteq> kConnecting"
proof (cases "readv (ReadFd_iov (inputBuffer s))")
  case None
  then have "t = s" using r by (simp add: HandleRead_def ReadFd_def HandleError_def res_simps)
  with ok show ?thesis by simp
next
  case (Some d)
  from ReadFd_ok [OF b sp room Some] obtain c where c: "ReadFd readv (inputBuffer s) = Inr (int (length d), c)"
    "buf_inv c" "content c = content (inputBuffer s) @ d" by blast
  let ?s = "s\<lparr>inputBuffer := c, received := received s @ d\<rparr>"
  have f: "\<not> hasHighWater ?s" "\<not> hasWriteComplete ?s" "hasMessage ?s" using ok(1) by (simp_all add: echo_ok_def)
  show ?thesis
  proof (cases "d = []")
    case True
    then have h: "HandleClose (echo_env sw ow depth) True ?s = Inr t"
      using r c Some by (simp add: HandleRead_def res_simps)
    have "echo_ok ?s" using ok c(3) True by (simp add: echo_ok_def)
    with echo_closed [OF h f(1,2)] ok(2) show ?thesis by (auto intro: echo_same_ok [of ?s])
  next
    case False
    then have m: "callback (echo_env sw ow depth) EvMessage ?s = Inr t"
      using r c Some f(3) by (simp add: HandleRead_def res_simps)
    have p: "prefix (accepted s) (hello @ received s @ d)"
      using ok(1) prefix_prefix [of "accepted s" "hello @ received s" d] by (simp add: echo_ok_def)
    note e = echo_message [OF m f(1,2)]
    show ?thesis
    proof (cases "tstate s = kConnected \<and> content c \<noteq> ''quit''")
      case True
      with e c(2,3) ok p show ?thesis by (auto simp: echo_ok_def)
    next
      case False
      with e c(2,3) ok p show ?thesis by (auto simp: echo_ok_def split: if_splits)
    qed
  qed
qed

lemma echo_event_ok:
  assumes ok: "echo_ok s" "tstate s \<noteq> kConnecting" and b: "buf_inv (inputBuffer s)" and sp: "readv_spec readv"
    and room: "length (buffer (inputBuffer s)) + extrabufSize \<le> vector_max"
    and r: "conn_HandleEvent (echo_env sw ow depth) evs readv s = Inr t"
  shows "echo_ok t"
proof -
  let ?env = "echo_env sw ow depth"
  obtain s1 s2 where
    1: "(if evs AND (EPOLLIN OR EPOLLPRI OR EPOLLRDHUP) \<noteq> 0 then HandleRead ?env True readv s else Inr s) = Inr s1"
    and 2: "(if evs AND EPOLLOUT \<noteq> 0 then HandleWrite ?env True s1 else Inr s1) = Inr s2"
    and 3: "(if evs AND EPOLLHUP \<noteq> 0 then HandleClose ?env True s2 else Inr s2) = Inr t"
    using r unfolding conn_HandleEvent_def HandleError_def if_cancel rbind_simps
    by (auto simp only: res_simps)
  have ok1: "echo_ok s1" "tstate s1 \<noteq> kConnecting"
    using 1 ok echo_read [OF ok b sp room] by (auto split: if_splits)
  then have "\<not> hasWriteComplete s1" by (simp add: echo_ok_def)
  with 2 HandleWrite_same [of ?env s1 s2] ok1 have "echo_ok s2 \<and> tstate s2 \<noteq> kConnecting"
    by (auto intro: echo_same_ok [of s1] split: if_splits)
  moreover from this have "\<not> hasWriteComplete s2" "\<not> hasHighWater s2" by (simp_all add: echo_ok_def)
  ultimately show ?thesis using 3 echo_closed [of sw ow depth s2 t] by (auto intro: echo_same_ok [of s2] split: if_splits)
qed

lemma echo_task_ok:
  assumes ok: "echo_ok s" and r: "run_task (echo_env sw ow depth) s = Inr t"
  shows "echo_ok t"
proof (cases "tasks s")
  case Nil
  then show ?thesis using r ok by (simp add: run_task_def)
next
  case (Cons c cs)
  let ?s = "s\<lparr>tasks := cs\<rparr>"
  have c: "c = TaskDestroy" using ok Cons by (auto simp: echo_ok_def)
  then have d: "ConnectionDestroyed (echo_env sw ow depth) True ?s = Inr t" using r Cons by (simp add: run_task_def Let_def)
  then have "tstate s = kDisconnected" by (auto simp: ConnectionDestroyed_def res_simps)
  moreover have "echo_ok ?s" using ok Cons by (auto simp: echo_ok_def)
  ultimately show ?thesis
    using echo_destroyed [OF d] by (auto simp: echo_ok_def rest_same_def)
qed

lemma echo_step_ok:
  assumes ok: "echo_ok s" and i: "conn_inv 0 s" and st: "echo_step (echo_env sw ow depth) s t"
  shows "echo_ok t"
  using st
proof cases
  case echo_establish
  let ?s = "(update_channel EnableReading s)\<lparr>tstate := kConnected\<rparr>"
  have k: "tstate s = kConnecting" and c: "callback (echo_env sw ow depth) EvConnection ?s = Inr t"
    using echo_establish by (auto simp: ConnectionEstablished_def res_simps)
  have "\<not> hasHighWater ?s" "\<not> hasWriteComplete ?s" using ok by (simp_all add: echo_ok_def update_channel_def)
  from echo_connected [OF c this] ok k show ?thesis by (auto simp: echo_ok_def rest_same_def update_channel_def)
next
  case (echo_event readv evs)
  have "tstate s \<noteq> kConnecting" using echo_event(1) ok by (auto simp: echo_ok_def)
  moreover have "buf_inv (inputBuffer s)" using i by (simp add: conn_inv_def receiving_ok_def)
  ultimately show ?thesis using echo_event_ok [OF ok _ _ echo_event(2,3,4)] by blast
next
  case echo_task
  then show ?thesis by (rule echo_task_ok [OF ok])
next
  case (echo_owner n)
  then show ?thesis using ok by (auto simp: echo_ok_def enqueue_def)
qed

interpretation echo: invariant "echo_init sw" "echo_step (echo_env sw ow depth)"
  "\<lambda>s. write_spec sw \<and> conn_inv 0 s \<and> echo_ok s" for sw ow depth
proof unfold_locales
  fix s assume s: "echo_init sw s"
  then have "conn_inv 0 s" by (auto simp: echo_init_def intro: TcpConnection_new_inv)
  with s show "write_spec sw \<and> conn_inv 0 s \<and> echo_ok s"
    by (auto simp: echo_init_def TcpConnection_new_eq echo_ok_def conn_fresh_def)
next
  fix s t assume i: "write_spec sw \<and> conn_inv 0 s \<and> echo_ok s" and st: "echo_step (echo_env sw ow depth) s t"
  then have "conn_inv 0 t"
    using conn_step_inv [OF call_back_keeps [OF _ echo_script_fits] _ echo_conn_step [OF st]] by blast
  with i st show "write_spec sw \<and> conn_inv 0 t \<and> echo_ok t" using echo_step_ok by blast
qed

section \<open>Properties\<close>

text \<open>
  The echo server echoes: in every reachable state of one of its connections, whatever arrives in
  whatever pieces and whatever part of the output each \<^verbatim>\<open>write\<close> takes, the bytes on the wire
  followed by those in the output buffer are a beginning of the greeting and the bytes received, in
  order, and all of them while the connection is up.
\<close>

theorem EchoServer_echoes:
  assumes "reach (echo_init sw) (echo_step (the_env sw echo_script ow depth)) s"
  shows "prefix (wire s @ content (outputBuffer s)) (hello @ received s) \<and>
    (tstate s = kConnected \<longrightarrow> wire s @ content (outputBuffer s) = hello @ received s)"
  using echo.reach_inv [OF assms] by (auto simp: conn_inv_def sending_ok_def echo_ok_def)

text \<open>The greeting is sent when the connection comes up; three bytes come back.\<close>

lemma echo_demo:
  "\<exists>s. reach (echo_init one_byte) (echo_step (the_env one_byte echo_script OtherLoop 1)) s \<and>
    tstate (s :: unit TcpConnection) = kConnected \<and> received s = ''abc''"
proof -
  let ?env = "the_env one_byte echo_script OtherLoop (Suc 0) :: unit conn_env"
  let ?in = "\<lparr>sockWrite = one_byte, user = call_back one_byte echo_script OtherLoop 0\<rparr> :: unit conn_env"
  let ?R = "reach (echo_init one_byte) (echo_step ?env)"
  let ?f = "conn_fresh fresh_buffer False True False :: unit TcpConnection"
  have w: "write_spec (sockWrite ?in)" "sock_never_fatal (sockWrite ?in)"
    by (simp_all add: one_byte_spec sock_never_fatal_def one_byte_def)
  have 0: "?R ?f" by (rule reach_init) (simp add: echo_init_def TcpConnection_new_eq one_byte_spec)
  let ?e = "(update_channel EnableReading ?f)\<lparr>tstate := kConnected, calls := [EvConnection]\<rparr>"
  have room: "buf_room (length hello) (outputBuffer ?e)"
    by (simp add: buf_room_def conn_fresh_def hello_def vector_max_def)
  have "tstate ?e = kConnected" "\<not> hasHighWater ?e" "\<not> hasWriteComplete ?e" "buf_inv (outputBuffer ?e)"
    by (simp_all add: conn_fresh_def update_channel_def)
  from Send_ok [OF w this room] obtain s where s: "Send ?in True hello ?e = Inr s"
    "tstate s = kConnected" "received s = []" "inputBuffer s = fresh_buffer" "writeIndex (outputBuffer s) \<le> 14" "chInPoller s"
    by (auto simp: conn_fresh_def update_channel_def hello_def)
  have "ConnectionEstablished ?env True ?f = Inr s"
    using s(1) by (simp add: ConnectionEstablished_def callback_def the_env_def echo_script_def conn_fresh_def update_channel_def)
  then have 1: "?R s" by (rule reach_step [OF 0 echo_step.echo_establish])
  have ok: "buf_inv (outputBuffer s)" "echo_ok s" using echo.reach_inv [OF 1] by (auto simp: conn_inv_def sending_ok_def)
  let ?rd = "\<lambda>iov. Some (take (sum_list iov) ''abc'')"
  have rd: "readv_spec ?rd" "?rd (ReadFd_iov fresh_buffer) = Some ''abc''"
    by (simp_all add: readv_spec_def ReadFd_iov_def buf_simps fresh_buffer_def extrabufSize_def)
  obtain c where c: "ReadFd ?rd fresh_buffer = Inr (3, c)" "buf_inv c" "content c = ''abc''"
    using ReadFd_ok [OF fresh_buffer(1) rd(1) _ rd(2)] by (auto simp: extrabufSize_def vector_max_def)
  obtain b where b: "RetrieveAsString 3 c = Inr (''abc'', b)"
    using RetrieveAsString_ok [of c 3] c by auto
  let ?u = "s\<lparr>received := ''abc'', calls := calls s @ [EvMessage], inputBuffer := b, consumed := consumed s @ ''abc''\<rparr>"
  have "tstate ?u = kConnected" "\<not> hasHighWater ?u" "\<not> hasWriteComplete ?u" "buf_inv (outputBuffer ?u)"
    "buf_room (length ''abc'') (outputBuffer ?u)"
    using s ok by (simp_all add: echo_ok_def buf_room_def vector_max_def)
  from Send_ok [OF w this] obtain t where t: "Send ?in True ''abc'' ?u = Inr t" "tstate t = kConnected" "received t = ''abc''"
    by auto
  have "HandleRead ?env True ?rd s = Inr t"
    using s c b [unfolded numeral_3_eq_3] t(1) rd(2) ok(2)
    by (simp add: HandleRead_def callback_def the_env_def echo_script_def Retrieve_input_def echo_ok_def Let_def)
  then have "conn_HandleEvent ?env EPOLLIN ?rd s = Inr t"
    by (simp add: conn_HandleEvent_def mask_defs)
  from reach_step [OF 1 echo_step.echo_event [OF s(6) rd(1) _ this]] t(2,3) show ?thesis
    by (auto simp: s(4) extrabufSize_def vector_max_def)
qed

theorem EchoServer_echoes_witness:
  "\<exists>s. received (s :: unit TcpConnection) = ''abc'' \<and> tstate s = kConnected \<and>
    prefix (wire s @ content (outputBuffer s)) (hello @ received s) \<and>
    (tstate s = kConnected \<longrightarrow> wire s @ content (outputBuffer s) = hello @ received s)"
proof -
  obtain s where s: "reach (echo_init one_byte) (echo_step (the_env one_byte echo_script OtherLoop 1)) (s :: unit TcpConnection)"
    "tstate s = kConnected" "received s = ''abc''"
    using echo_demo by blast
  from EchoServer_echoes [OF s(1)] s(2,3) show ?thesis by blast
qed

end
