(* ===== verification/Sessions.thy ===== *)
theory Sessions
  imports Growth Echo
begin

text \<open>
  Two connections (theory \<open>Tcp\<close>) at the ends of one TCP stream: each of them is a
  \<^verbatim>\<open>TcpConnection\<close> of \<^verbatim>\<open>src/net/TcpConnection.cc\<close> in its own process, and what one of them reads are the
  bytes that the kernel took from the other, in order.  Then the echo server of theory \<open>Echo\<close> with any
  client.
\<close>

section \<open>The stream\<close>

text \<open>
  What TCP promises: a \<^verbatim>\<open>readv\<close> delivers the next of the bytes \<open>sent\<close> by the peer, after those it has
  delivered already (\<open>got\<close>); when, and how many at a time, is open.
\<close>

definition delivers :: "string \<Rightarrow> string \<Rightarrow> (nat list \<Rightarrow> string option) \<Rightarrow> bool" where
  "delivers sent got readv \<longleftrightarrow> readv_spec readv \<and> (\<forall>iov d. readv iov = Some d \<longrightarrow> prefix (got @ d) sent)"

text \<open>The steps of a connection whose peer has put \<open>sent\<close> on the wire.\<close>

inductive net_step :: "'c conn_env \<Rightarrow> string \<Rightarrow> 'c TcpConnection \<Rightarrow> 'c TcpConnection \<Rightarrow> bool" for env sent where
  net_establish: "ConnectionEstablished env True s = Inr t \<Longrightarrow> net_step env sent s t"
| net_call: "op_fits c \<Longrightarrow> run_op env inLoop c s = Inr t \<Longrightarrow> net_step env sent s t"
| net_event: "delivers sent (received s) readv \<Longrightarrow> length (buffer (inputBuffer s)) + extrabufSize \<le> vector_max \<Longrightarrow>
    conn_HandleEvent env evs readv s = Inr t \<Longrightarrow> net_step env sent s t"
| net_task: "run_task env s = Inr t \<Longrightarrow> net_step env sent s t"
| net_owner: "closes s = Suc n \<Longrightarrow> net_step env sent s (enqueue TaskDestroy (s\<lparr>closes := n\<rparr>))"

lemma net_conn_step: "net_step env sent s t \<Longrightarrow> conn_step env s t"
  by (induction rule: net_step.induct) (auto simp: delivers_def intro: conn_step.intros)

text \<open>A step extends what was sent, and reads only what the peer sent.\<close>

definition flows :: "string \<Rightarrow> 'c TcpConnection \<Rightarrow> 'c TcpConnection \<Rightarrow> bool" where
  "flows sent s t \<longleftrightarrow> prefix (wire s) (wire t) \<and> (prefix (received s) sent \<longrightarrow> prefix (received t) sent)"

lemma grows_flows: "grows s t \<Longrightarrow> flows sent s t"
  by (auto simp: grows_def flows_def)

lemma event_flows:
  assumes "grows_env env" and d: "delivers sent (received s) readv" and r: "conn_HandleEvent env evs readv s = Inr t"
  shows "flows sent s t"
proof -
  obtain r where g: "grows (s\<lparr>received := received s @ r\<rparr>) t" and r: "r = [] \<or> (\<exists>iov. readv iov = Some r)"
    using conn_HandleEvent_grows [OF assms(1) r] by blast
  then have "prefix (received s) sent \<longrightarrow> prefix (received s @ r) sent" using d by (auto simp: delivers_def)
  with g show ?thesis by (auto simp: flows_def grows_def)
qed

lemma net_step_flows:
  assumes g: "grows_env env" and st: "net_step env sent s t"
  shows "flows sent s t"
  using st
proof cases
  case (net_event readv evs)
  then show ?thesis using event_flows [OF g] by blast
next
  case (net_owner n)
  then show ?thesis by (simp add: flows_def enqueue_def)
qed (auto intro: grows_flows ConnectionEstablished_grows [OF g] run_op_grows [OF g] run_task_grows [OF g])

section \<open>Two connections\<close>

inductive duplex_step :: "'a conn_env \<Rightarrow> 'b conn_env \<Rightarrow> 'a TcpConnection \<times> 'b TcpConnection \<Rightarrow>
    'a TcpConnection \<times> 'b TcpConnection \<Rightarrow> bool" for envA envB where
  left: "net_step envA (wire b) a a' \<Longrightarrow> duplex_step envA envB (a, b) (a', b)"
| right: "net_step envB (wire a) b b' \<Longrightarrow> duplex_step envA envB (a, b) (a, b')"

definition duplex_init :: "(nat \<Rightarrow> string \<Rightarrow> write_result) \<Rightarrow> (conn_event \<Rightarrow> 'a TcpConnection \<Rightarrow> 'a conn_op list) \<Rightarrow>
    (nat \<Rightarrow> string \<Rightarrow> write_result) \<Rightarrow> (conn_event \<Rightarrow> 'b TcpConnection \<Rightarrow> 'b conn_op list) \<Rightarrow>
    'a TcpConnection \<times> 'b TcpConnection \<Rightarrow> bool" where
  "duplex_init swA scriptA swB scriptB s \<longleftrightarrow> conn_init swA scriptA (fst s) \<and> conn_init swB scriptB (snd s)"

text \<open>Each end has read a beginning of what the other end has put on the wire.\<close>

definition duplex_inv :: "'a TcpConnection \<times> 'b TcpConnection \<Rightarrow> bool" where
  "duplex_inv s \<longleftrightarrow> conn_inv 0 (fst s) \<and> conn_inv 0 (snd s) \<and>
     prefix (received (fst s)) (wire (snd s)) \<and> prefix (received (snd s)) (wire (fst s))"

lemma conn_init_empty: "conn_init sw script s \<Longrightarrow> conn_inv 0 s \<and> received s = [] \<and> wire s = []"
  by (auto simp: conn_init_def TcpConnection_new_eq conn_inv_defs conn_fresh_def)

lemma flows_inv:
  assumes "flows (wire b) a a'" "prefix (received a) (wire b)" "prefix (received b) (wire a)"
  shows "prefix (received a') (wire b)" "prefix (received b) (wire a')"
  using assms prefix_order.trans by (auto simp: flows_def)

interpretation duplex: invariant "duplex_init swA scriptA swB scriptB"
  "duplex_step (the_env swA scriptA owA depthA) (the_env swB scriptB owB depthB)"
  "\<lambda>s. write_spec swA \<and> script_fits scriptA \<and> write_spec swB \<and> script_fits scriptB \<and> duplex_inv s"
  for swA scriptA owA depthA swB scriptB owB depthB
proof unfold_locales
  fix s :: "'a TcpConnection \<times> 'b TcpConnection" assume "duplex_init swA scriptA swB scriptB s"
  then have s: "conn_init swA scriptA (fst s)" "conn_init swB scriptB (snd s)" by (simp_all add: duplex_init_def)
  then have "duplex_inv s" using conn_init_empty [OF s(1)] conn_init_empty [OF s(2)] by (simp add: duplex_inv_def)
  with s show "write_spec swA \<and> script_fits scriptA \<and> write_spec swB \<and> script_fits scriptB \<and> duplex_inv s"
    by (simp add: conn_init_def)
next
  fix s t :: "'a TcpConnection \<times> 'b TcpConnection"
  assume i: "write_spec swA \<and> script_fits scriptA \<and> write_spec swB \<and> script_fits scriptB \<and> duplex_inv s"
    and "duplex_step (the_env swA scriptA owA depthA) (the_env swB scriptB owB depthB) s t"
  from this(2) show "write_spec swA \<and> script_fits scriptA \<and> write_spec swB \<and> script_fits scriptB \<and> duplex_inv t"
  proof cases
    case (left b a a')
    have "conn_inv 0 a'"
      using conn_step_inv [OF call_back_keeps _ net_conn_step [OF left(3)]] i left(1) by (auto simp: duplex_inv_def)
    then show ?thesis
      using i left(1,2) flows_inv [OF net_step_flows [OF the_env_grows left(3)]] by (simp add: duplex_inv_def)
  next
    case (right a b b')
    have "conn_inv 0 b'"
      using conn_step_inv [OF call_back_keeps _ net_conn_step [OF right(3)]] i right(1) by (auto simp: duplex_inv_def)
    then show ?thesis
      using i right(1,2) flows_inv [OF net_step_flows [OF the_env_grows right(3)]] by (simp add: duplex_inv_def)
  qed
qed

section \<open>A client of the echo server\<close>

text \<open>
  The server's end takes the steps of \<open>echo_step\<close>, with what the peer sent; its callbacks are those of
  \<^verbatim>\<open>EchoServer.cc\<close>.  The client is any program over a \<^verbatim>\<open>TcpConnection\<close>.
\<close>

inductive session_step :: "'a conn_env \<Rightarrow> 'b conn_env \<Rightarrow> 'a TcpConnection \<times> 'b TcpConnection \<Rightarrow>
    'a TcpConnection \<times> 'b TcpConnection \<Rightarrow> bool" for envC envS where
  client: "net_step envC (wire v) c c' \<Longrightarrow> session_step envC envS (c, v) (c', v)"
| server_up: "ConnectionEstablished envS True v = Inr v' \<Longrightarrow> session_step envC envS (c, v) (c, v')"
| server_event: "chInPoller v \<Longrightarrow> delivers (wire c) (received v) readv \<Longrightarrow>
    length (buffer (inputBuffer v)) + extrabufSize \<le> vector_max \<Longrightarrow>
    conn_HandleEvent envS evs readv v = Inr v' \<Longrightarrow> session_step envC envS (c, v) (c, v')"
| server_task: "run_task envS v = Inr v' \<Longrightarrow> session_step envC envS (c, v) (c, v')"
| server_owner: "closes v = Suc n \<Longrightarrow> session_step envC envS (c, v) (c, enqueue TaskDestroy (v\<lparr>closes := n\<rparr>))"

definition session_init :: "(nat \<Rightarrow> string \<Rightarrow> write_result) \<Rightarrow> (conn_event \<Rightarrow> 'a TcpConnection \<Rightarrow> 'a conn_op list) \<Rightarrow>
    (nat \<Rightarrow> string \<Rightarrow> write_result) \<Rightarrow> 'a TcpConnection \<times> 'b TcpConnection \<Rightarrow> bool" where
  "session_init swC script swS s \<longleftrightarrow> conn_init swC script (fst s) \<and> echo_init swS (snd s)"

lemma session_duplex:
  assumes "session_step envC envS s t"
  shows "duplex_step envC envS s t \<and> (snd t = snd s \<or> echo_step envS (snd s) (snd t))"
  using assms
proof cases
  case (client v c c')
  then show ?thesis by (auto intro: duplex_step.left)
next
  case (server_up v v' c)
  then show ?thesis by (auto intro: duplex_step.right net_establish echo_establish)
next
  case (server_event v c readv evs v')
  then have "net_step envS (wire c) v v'" "echo_step envS v v'"
    by (auto simp: delivers_def intro: net_event echo_event)
  with server_event(1,2) show ?thesis by (auto intro: duplex_step.right)
next
  case (server_task v v' c)
  then show ?thesis by (auto intro: duplex_step.right net_task echo_task)
next
  case (server_owner v n c)
  then show ?thesis by (auto intro: duplex_step.right net_owner echo_owner)
qed

lemma echo_init_conn: "echo_init sw s \<Longrightarrow> conn_init sw echo_script s"
  using echo_script_fits by (auto simp: echo_init_def conn_init_def)

lemma session_reach:
  assumes "reach (session_init swC script swS) (session_step envC envS) s"
  shows "reach (duplex_init swC script swS echo_script) (duplex_step envC envS) s \<and>
    reach (echo_init swS) (echo_step envS) (snd s)"
  using assms
proof (induction rule: reach.induct)
  case (reach_init s)
  then show ?case by (auto simp: session_init_def duplex_init_def intro: reach.reach_init dest: echo_init_conn)
next
  case (reach_step s t)
  then show ?case using session_duplex [OF reach_step(2)] reach.reach_step by metis
qed

section \<open>Properties\<close>

text \<open>
  C3. End to end, a connection is a reliable stream in both directions.  Two connections joined by TCP, each
  with any user callbacks, any calls from any thread, and any part taken by each \<^verbatim>\<open>write\<close>: in every
  reachable state, what one end has read is a beginning of what the other end has accepted from its
  user, and the rest is under way in the kernel or waits in the output buffer; so the users
  see a beginning of the bytes sent to them, none lost, doubled or out of order.
\<close>

theorem duplex_streams:
  assumes "reach (duplex_init swA scriptA swB scriptB)
    (duplex_step (the_env swA scriptA owA depthA) (the_env swB scriptB owB depthB)) (a, b)"
  shows "(\<exists>flight. accepted b = received a @ flight @ content (outputBuffer b)) \<and>
    (\<exists>flight. accepted a = received b @ flight @ content (outputBuffer a)) \<and>
    prefix (consumed a) (accepted b) \<and> prefix (consumed b) (accepted a)"
proof -
  have i: "conn_inv 0 a" "conn_inv 0 b" "prefix (received a) (wire b)" "prefix (received b) (wire a)"
    using duplex.reach_inv [OF assms] by (simp_all add: duplex_inv_def)
  then show ?thesis by (auto simp: conn_inv_def sending_ok_def receiving_ok_def prefix_def)
qed

text \<open>
  C12. The echo server seen by a client: whatever the client program does, in every reachable state what the
  client has read is a beginning of the greeting followed by the bytes it had sent.
\<close>

theorem echo_session:
  assumes "reach (session_init swC script swS) (session_step (the_env swC script owC depthC)
    (the_env swS echo_script owS depthS)) (c, v)"
  shows "prefix (received c) (hello @ received v) \<and> prefix (received v) (accepted c) \<and>
    prefix (received c) (hello @ accepted c)"
proof -
  from session_reach [OF assms] have d: "reach (duplex_init swC script swS echo_script)
      (duplex_step (the_env swC script owC depthC) (the_env swS echo_script owS depthS)) (c, v)"
    and e: "reach (echo_init swS) (echo_step (the_env swS echo_script owS depthS)) v" by simp_all
  have i: "conn_inv 0 c" "conn_inv 0 v" "prefix (received c) (wire v)" "prefix (received v) (wire c)"
    using duplex.reach_inv [OF d] by (simp_all add: duplex_inv_def)
  have "prefix (accepted v) (hello @ received v)" using echo.reach_inv [OF e] by (simp add: echo_ok_def)
  moreover have "prefix (wire v) (accepted v)" "prefix (wire c) (accepted c)"
    using i(1,2) by (simp_all add: conn_inv_def sending_ok_def)
  ultimately have "prefix (received c) (hello @ received v)" "prefix (received v) (accepted c)"
    using i(3,4) by (blast intro: prefix_order.trans)+
  moreover from this(2) have "prefix (hello @ received v) (hello @ accepted c)" by simp
  ultimately show ?thesis by (blast intro: prefix_order.trans)
qed

text \<open>The server is up and the kernel has taken one byte of the greeting, which the client reads.\<close>

lemma session_demo:
  "\<exists>c v. reach (session_init one_byte no_calls one_byte) (session_step (the_env one_byte no_calls OtherLoop 1)
      (the_env one_byte echo_script OtherLoop 1)) (c :: unit TcpConnection, v :: unit TcpConnection) \<and> received c = ''h''"
proof -
  let ?envC = "the_env one_byte no_calls OtherLoop (Suc 0) :: unit conn_env"
  let ?envS = "the_env one_byte echo_script OtherLoop (Suc 0) :: unit conn_env"
  let ?in = "\<lparr>sockWrite = one_byte, user = call_back one_byte echo_script OtherLoop 0\<rparr> :: unit conn_env"
  let ?R = "reach (session_init one_byte no_calls one_byte) (session_step ?envC ?envS)"
  let ?c0 = "conn_fresh fresh_buffer False True False :: unit TcpConnection"
  have "session_init one_byte no_calls one_byte (?c0, ?c0)"
    using one_byte_spec by (auto simp: session_init_def conn_init_def echo_init_def TcpConnection_new_eq)
  then have 0: "?R (?c0, ?c0)" by (rule reach_init)
  let ?e = "(update_channel EnableReading ?c0)\<lparr>tstate := kConnected, calls := [EvConnection]\<rparr>"
  let ?e1 = "?e\<lparr>accepted := hello, writes := 1, wire := ''h''\<rparr>"
  have room: "buf_inv (outputBuffer ?e1)" "buf_room (length hello) (outputBuffer ?e1)" "\<not> hasHighWater ?e1" "5 \<le> length hello"
    by (simp_all add: buf_room_def conn_fresh_def hello_def vector_max_def update_channel_def)
  from buffer_rest_ok [OF room, of 1] obtain v where v: "buffer_rest hello 1 5 ?e1 = Inr v" "wire v = ''h''" by auto
  have "ReadableBytes fresh_buffer = 0" by (simp add: ReadableBytes_content)
  then have "Send ?in True hello ?e = Inr v"
    using v(1) by (simp add: Send_def SendInLoop_def conn_fresh_def update_channel_def mask_defs conn_IsWriting_def kNoneEvent_def
      one_byte_def hello_def sz_sub_def Let_def)
  then have "ConnectionEstablished ?envS True ?c0 = Inr v"
    by (simp add: ConnectionEstablished_def callback_def the_env_def echo_script_def conn_fresh_def update_channel_def)
  from reach_step [OF 0 session_step.server_up [OF this]] have 1: "?R (?c0, v)" .
  have "ConnectionEstablished ?envC True ?c0 = Inr ?e"
    by (simp add: ConnectionEstablished_def callback_def the_env_def conn_fresh_def update_channel_def no_calls_def)
  from reach_step [OF 1 session_step.client [OF net_establish [OF this]]] have 2: "?R (?e, v)" .
  let ?rd = "\<lambda>iov. Some (take (sum_list iov) ''h'')"
  have e: "received ?e = []" "inputBuffer ?e = fresh_buffer" "hasMessage ?e" by (simp_all add: conn_fresh_def update_channel_def)
  have rd: "delivers (wire v) (received ?e) ?rd" unfolding e(1) v(2)
    by (auto simp: delivers_def readv_spec_def take_is_prefix)
  have h: "?rd (ReadFd_iov fresh_buffer) = Some ''h''"
    by (simp add: ReadFd_iov_def buf_simps fresh_buffer_def extrabufSize_def)
  obtain b where b: "ReadFd ?rd fresh_buffer = Inr (1, b)"
    using ReadFd_ok [where readv = ?rd, OF fresh_buffer(1) _ _ h] rd by (auto simp: delivers_def extrabufSize_def vector_max_def)
  let ?c = "?e\<lparr>inputBuffer := b, received := ''h'', calls := calls ?e @ [EvMessage]\<rparr>"
  have "HandleRead ?envC True ?rd ?e = Inr ?c"
    using h b by (simp add: HandleRead_def conn_fresh_def update_channel_def callback_def the_env_def no_calls_def Let_def)
  then obtain c where "HandleRead ?envC True ?rd ?e = Inr c" "received c = ''h''" by simp
  moreover from this(1) have "conn_HandleEvent ?envC EPOLLIN ?rd ?e = Inr c"
    by (simp add: conn_HandleEvent_def mask_defs)
  ultimately have "net_step ?envC (wire v) ?e c" "received c = ''h''"
    using net_event [OF rd, of ?envC EPOLLIN c] by (simp_all add: e extrabufSize_def vector_max_def)
  with reach_step [OF 2 session_step.client] show ?thesis by (metis One_nat_def)
qed

theorem duplex_streams_witness:
  "\<exists>(c :: unit TcpConnection) (v :: unit TcpConnection). received c = ''h'' \<and>
    (\<exists>flight. accepted v = ''h'' @ flight @ content (outputBuffer v))"
proof -
  from session_demo obtain c v :: "unit TcpConnection" where
    r: "reach (session_init one_byte no_calls one_byte) (session_step (the_env one_byte no_calls OtherLoop 1)
      (the_env one_byte echo_script OtherLoop 1)) (c, v)" and c: "received c = ''h''" by blast
  from session_reach [OF r] have "reach (duplex_init one_byte no_calls one_byte echo_script)
      (duplex_step (the_env one_byte no_calls OtherLoop 1) (the_env one_byte echo_script OtherLoop 1)) (c, v)" by simp
  from duplex_streams [OF this] c show ?thesis by metis
qed

theorem echo_session_witness:
  "\<exists>(c :: unit TcpConnection) (v :: unit TcpConnection). received c = ''h'' \<and> prefix (received c) (hello @ accepted c)"
proof -
  from session_demo obtain c v :: "unit TcpConnection" where
    "reach (session_init one_byte no_calls one_byte) (session_step (the_env one_byte no_calls OtherLoop 1)
      (the_env one_byte echo_script OtherLoop 1)) (c, v)" and c: "received c = ''h''" by blast
  from echo_session [OF this(1)] c show ?thesis by blast
qed

end
