(* ===== verification/Lifetimes.thy ===== *)
theory Lifetimes
  imports Tcp
begin

text \<open>
  Who keeps a \<^verbatim>\<open>TcpConnection\<close> alive, and what happens when the last pointer goes while its
  functions run: the shared pointers of \<^verbatim>\<open>src/net/TcpConnection.cc\<close>, of the owner's map
  (\<^verbatim>\<open>src/net/TcpServer.cc\<close>) or member (\<^verbatim>\<open>src/net/TcpClient.cc\<close>), and of the functors queued
  in the loop.  The channel is a member of the connection and dies with it.
\<close>

section \<open>State\<close>

text \<open>
  The connection with those that hold a shared pointer to it: the owner (\<open>listed\<close>), user threads
  (\<open>holders\<close>), the functors queued in the owner's loop (\<open>closes\<close> of the connection) and in its own
  loop.  \<open>left\<close> is the number of functors of the current batch of the loop still to run; those that
  have run (\<open>finished\<close>) keep their pointers until the batch is over.  \<open>sending\<close> are the threads inside
  \<^verbatim>\<open>Send\<close> between the test of the state and the queueing.
\<close>

record 'c Shared =
  obj :: "'c TcpConnection"
  listed :: bool
  holders :: nat
  sending :: "string list"
  left :: nat
  finished :: "conn_task list"
  alive :: bool

text \<open>\<^verbatim>\<open>Send\<close> binds \<^verbatim>\<open>this\<close> into its functor, the others \<^verbatim>\<open>shared_from_this()\<close>.\<close>

fun owning :: "conn_task \<Rightarrow> bool" where
  "owning (TaskSend d) = False"
| "owning _ = True"

definition refs :: "'c Shared \<Rightarrow> nat" where
  "refs s = (if listed s then 1 else 0) + holders s + closes (obj s) +
     length (filter owning (tasks (obj s))) + length (filter owning (finished s))"

definition share :: "'c TcpConnection \<Rightarrow> 'c Shared" where
  "share c = \<lparr>obj = c, listed = True, holders = 0, sending = [], left = 0, finished = [], alive = True\<rparr>"

section \<open>Operations\<close>

text \<open>When the last pointer goes, the connection is destructed, and its channel.\<close>

definition settle :: "'c Shared \<Rightarrow> 'c Shared res" where
  "settle s =
     (if alive s \<and> refs s = 0
      then rbind (TcpConnection_destroy (obj s)) (\<lambda>_. ensure (\<not> chInPoller (obj s)) (Inr (s\<lparr>alive := False\<rparr>)))
      else Inr s)"

text \<open>
  The owner in the same loop erases its pointer within the close callback.
\<close>

definition track :: "owner \<Rightarrow> 'c TcpConnection \<Rightarrow> 'c Shared \<Rightarrow> 'c Shared" where
  "track ow c s = s\<lparr>obj := c,
     listed := listed s \<and> \<not> (ow = SameLoop \<and> count_list (calls (obj s)) EvClose < count_list (calls c) EvClose)\<rparr>"

text \<open>A member function runs, and the pointers it drops are dropped when it returns.\<close>

definition touch :: "owner \<Rightarrow> ('c TcpConnection \<Rightarrow> 'c TcpConnection res) \<Rightarrow> 'c Shared \<Rightarrow> 'c Shared res" where
  "touch ow f s = require (alive s) (rbind (f (obj s)) (\<lambda>c. settle (track ow c s)))"

text \<open>
  \<^verbatim>\<open>Channel::HandleEvent\<close>: every branch reads the event word of the channel, which lives in the connection.
\<close>

definition event_branch :: "owner \<Rightarrow> bool \<Rightarrow> ('c TcpConnection \<Rightarrow> 'c TcpConnection res) \<Rightarrow> 'c Shared \<Rightarrow> 'c Shared res" where
  "event_branch ow due f s = require (alive s) (if due then touch ow f s else Inr s)"

definition shared_HandleEvent :: "owner \<Rightarrow> 'c conn_env \<Rightarrow> 32 word \<Rightarrow> (nat list \<Rightarrow> string option) \<Rightarrow> 'c Shared \<Rightarrow>
    'c Shared res" where
  "shared_HandleEvent ow env evs readv s =
     rbind (event_branch ow (evs AND (EPOLLIN OR EPOLLPRI OR EPOLLRDHUP) \<noteq> 0) (HandleRead env True readv) s) (\<lambda>s1.
     rbind (event_branch ow (evs AND EPOLLOUT \<noteq> 0) (HandleWrite env True) s1) (\<lambda>s2.
     rbind (event_branch ow (evs AND EPOLLERR \<noteq> 0) HandleError s2) (\<lambda>s3.
       event_branch ow (evs AND EPOLLHUP \<noteq> 0) (HandleClose env True) s3)))"

text \<open>The functors of the loop: a batch is swapped out, run, and destroyed.\<close>

definition begin_batch :: "'c Shared \<Rightarrow> 'c Shared" where
  "begin_batch s = s\<lparr>left := length (tasks (obj s))\<rparr>"

definition run_next :: "owner \<Rightarrow> 'c conn_env \<Rightarrow> 'c Shared \<Rightarrow> 'c Shared res" where
  "run_next ow env s =
     (case tasks (obj s) of
        [] \<Rightarrow> Inr s
      | t # ts \<Rightarrow> touch ow (run_task env) (s\<lparr>left := left s - 1, finished := finished s @ [t]\<rparr>))"

definition end_batch :: "'c Shared \<Rightarrow> 'c Shared res" where
  "end_batch s = settle (s\<lparr>finished := []\<rparr>)"

text \<open>
  The owner in another loop: \<^verbatim>\<open>RemoveConnectionInLoop\<close> erases the pointer and queues
  \<^verbatim>\<open>ConnectionDestroyed\<close>.
\<close>

definition owner_removes :: "'c Shared \<Rightarrow> 'c Shared" where
  "owner_removes s = s\<lparr>listed := False, obj := enqueue TaskDestroy ((obj s)\<lparr>closes := closes (obj s) - 1\<rparr>)\<rparr>"

text \<open>
  \<^verbatim>\<open>Send\<close> in another thread, in two steps: it tests the state, and later queues the functor.
\<close>

definition Send_test :: "string \<Rightarrow> 'c Shared \<Rightarrow> 'c Shared" where
  "Send_test d s = (if tstate (obj s) \<noteq> kConnected then s else s\<lparr>sending := sending s @ [d]\<rparr>)"

definition Send_queue :: "'c Shared \<Rightarrow> 'c Shared" where
  "Send_queue s =
     (case sending s of [] \<Rightarrow> s | d # ds \<Rightarrow> s\<lparr>sending := ds, obj := enqueue (TaskSend d) (obj s)\<rparr>)"

text \<open>
  The interleavings.  A pointer is copied from an existing one, and kept by a thread that is inside
  \<^verbatim>\<open>Send\<close>; without \<open>preempt\<close>, \<^verbatim>\<open>Send\<close> in another thread is one step.
\<close>

inductive shared_step :: "bool \<Rightarrow> owner \<Rightarrow> 'c conn_env \<Rightarrow> 'c Shared \<Rightarrow> 'c Shared \<Rightarrow> bool" for preempt ow env where
  sh_establish: "tstate (obj s) = kConnecting \<Longrightarrow> touch ow (ConnectionEstablished env True) s = Inr t \<Longrightarrow>
    shared_step preempt ow env s t"
| sh_event: "chInPoller (obj s) \<Longrightarrow> readv_spec readv \<Longrightarrow>
    length (buffer (inputBuffer (obj s))) + extrabufSize \<le> vector_max \<Longrightarrow>
    shared_HandleEvent ow env evs readv s = Inr t \<Longrightarrow> shared_step preempt ow env s t"
| sh_call: "0 < holders s \<Longrightarrow> op_fits c \<Longrightarrow> touch ow (run_op env inLoop c) s = Inr t \<Longrightarrow> shared_step preempt ow env s t"
| sh_send_test: "preempt \<Longrightarrow> length (sending s) < holders s \<Longrightarrow> length d < 2 ^ 63 \<Longrightarrow>
    shared_step preempt ow env s (Send_test d s)"
| sh_send_queue: "sending s \<noteq> [] \<Longrightarrow> shared_step preempt ow env s (Send_queue s)"
| sh_hold: "0 < refs s \<Longrightarrow> shared_step preempt ow env s (s\<lparr>holders := Suc (holders s)\<rparr>)"
| sh_drop: "length (sending s) < holders s \<Longrightarrow> settle (s\<lparr>holders := holders s - 1\<rparr>) = Inr t \<Longrightarrow>
    shared_step preempt ow env s t"
| sh_begin: "left s = 0 \<Longrightarrow> finished s = [] \<Longrightarrow> shared_step preempt ow env s (begin_batch s)"
| sh_run: "0 < left s \<Longrightarrow> run_next ow env s = Inr t \<Longrightarrow> shared_step preempt ow env s t"
| sh_end: "left s = 0 \<Longrightarrow> end_batch s = Inr t \<Longrightarrow> shared_step preempt ow env s t"
| sh_owner: "0 < closes (obj s) \<Longrightarrow> shared_step preempt ow env s (owner_removes s)"

definition shared_init :: "'c Shared \<Rightarrow> bool" where
  "shared_init s \<longleftrightarrow> (\<exists>wc msg hw c. TcpConnection_new wc msg hw = Inr c \<and> s = share c)"

section \<open>What the operations do to the pointers\<close>

text \<open>
  Nothing that runs in the connection's loop, with the owner in another one, takes a functor out of the
  queue, queues \<^verbatim>\<open>ConnectionDestroyed\<close> or a \<^verbatim>\<open>this\<close>, forgets a close callback, or
  brings a connection back to life.
\<close>

definition calm :: "'c TcpConnection \<Rightarrow> 'c TcpConnection \<Rightarrow> bool" where
  "calm s t \<longleftrightarrow> (\<exists>ts. tasks t = tasks s @ ts \<and> (\<forall>x\<in>set ts. owning x \<and> x \<noteq> TaskDestroy)) \<and> closes s \<le> closes t \<and>
     (tstate t = kConnected \<longrightarrow> tstate s = kConnected \<and> closes t = closes s) \<and>
     (tstate t = kConnecting \<longrightarrow> tstate s = kConnecting \<and> closes t = closes s)"

lemma calm_refl [simp]: "calm s s"
  by (simp add: calm_def)

lemma calm_trans:
  assumes "calm s t" "calm t u"
  shows "calm s u"
proof -
  obtain ts us where "tasks t = tasks s @ ts" "tasks u = tasks t @ us"
    "\<forall>x\<in>set ts. owning x \<and> x \<noteq> TaskDestroy" "\<forall>x\<in>set us. owning x \<and> x \<noteq> TaskDestroy"
    using assms by (auto simp: calm_def)
  then have "tasks u = tasks s @ (ts @ us) \<and> (\<forall>x\<in>set (ts @ us). owning x \<and> x \<noteq> TaskDestroy)" by auto
  with assms show ?thesis unfolding calm_def by (intro conjI exI [of _ "ts @ us"]) auto
qed

text \<open>Changes of other fields, seen from both sides.\<close>

lemma calm_frame:
  "tasks s' = tasks s \<Longrightarrow> closes s' = closes s \<Longrightarrow> tstate s' = tstate s \<Longrightarrow> calm s' t \<Longrightarrow> calm s t"
  by (simp add: calm_def)

lemma calm_same: "tasks t = tasks s \<Longrightarrow> closes t = closes s \<Longrightarrow>
    tstate t = tstate s \<or> tstate t = kDisconnecting \<or> tstate t = kDisconnected \<Longrightarrow> calm s t"
  by (auto simp: calm_def)

lemma closes_enqueue [simp]: "closes (enqueue x s) = closes s"
  by (simp add: enqueue_def)

lemma calm_enqueue: "owning x \<Longrightarrow> x \<noteq> TaskDestroy \<Longrightarrow> calm s (enqueue x s)"
  by (simp add: calm_def)

definition calm_env :: "'c conn_env \<Rightarrow> bool" where
  "calm_env env \<longleftrightarrow> (\<forall>ev s t. (ev = EvClose \<longrightarrow> tstate s = kDisconnected) \<longrightarrow> user env ev s = Inr t \<longrightarrow> calm s t)"

lemma calm_callback:
  assumes "calm_env env" "callback env ev s = Inr t" "ev = EvClose \<longrightarrow> tstate s = kDisconnected"
  shows "calm s t"
proof -
  have "calm (s\<lparr>calls := calls s @ [ev]\<rparr>) t" using assms by (auto simp: calm_env_def callback_def)
  then show ?thesis by (rule calm_frame [rotated 3]) simp_all
qed

text \<open>The other fields do not matter.\<close>

lemma calm_fields [simp]:
  "calm (s\<lparr>accepted := x\<rparr>) t = calm s t" "calm (s\<lparr>writes := n\<rparr>) t = calm s t" "calm (s\<lparr>wire := x\<rparr>) t = calm s t"
  "calm (s\<lparr>inputBuffer := b\<rparr>) t = calm s t" "calm (s\<lparr>outputBuffer := b\<rparr>) t = calm s t"
  "calm (s\<lparr>received := x\<rparr>) t = calm s t" "calm (s\<lparr>consumed := x\<rparr>) t = calm s t"
  "calm s (t\<lparr>inputBuffer := b\<rparr>) = calm s t" "calm s (t\<lparr>outputBuffer := b\<rparr>) = calm s t"
  "calm s (t\<lparr>consumed := x\<rparr>) = calm s t" "calm s (t\<lparr>writes := n\<rparr>) = calm s t" "calm s (t\<lparr>wire := x\<rparr>) = calm s t"
  "calm s (t\<lparr>wrShut := c\<rparr>) = calm s t" "calm s (t\<lparr>any_context := y\<rparr>) = calm s t"
  by (simp_all add: calm_def)

lemma calm_update [simp]: "calm s (update_channel m t) = calm s t" "calm (update_channel m s) t = calm s t"
  by (simp_all add: calm_def)

lemma buffer_rest_calm: "buffer_rest d w r s = Inr t \<Longrightarrow> calm s t"
  by (auto simp: buffer_rest_def res_simps Let_def calm_def split: if_splits)

lemma SendInLoop_calm: "calm_env env \<Longrightarrow> SendInLoop env inLoop d s = Inr t \<Longrightarrow> calm s t"
  by (auto simp: SendInLoop_def res_simps Let_def split: if_splits write_result.splits
      dest!: buffer_rest_calm calm_callback)

lemma HandleClose_calm:
  assumes e: "calm_env env" and r: "HandleClose env inLoop s = Inr t"
  shows "calm s t"
proof -
  let ?s = "(update_channel DisableAll s)\<lparr>tstate := kDisconnected\<rparr>"
  have "callback env EvClose ?s = Inr t" using r by (simp add: HandleClose_def res_simps)
  from calm_callback [OF e this] have "calm ?s t" by simp
  moreover have "calm s ?s" by (rule calm_same) simp_all
  ultimately show ?thesis by (rule calm_trans [rotated])
qed

lemma ForceCloseInLoop_calm: "calm_env env \<Longrightarrow> ForceCloseInLoop env inLoop s = Inr t \<Longrightarrow> calm s t"
  by (auto simp: ForceCloseInLoop_def res_simps split: if_splits intro: HandleClose_calm)

lemma ForceClose_calm:
  assumes e: "calm_env env" and r: "ForceClose env inLoop s = Inr t"
  shows "calm s t"
proof -
  obtain b where "(if inLoop then ForceCloseInLoop env inLoop (s\<lparr>tstate := kDisconnecting, lateForce := b\<rparr>)
      else Inr (enqueue TaskForceClose (s\<lparr>tstate := kDisconnecting, lateForce := b\<rparr>))) = Inr t" (is "(if _ then ForceCloseInLoop _ _ ?s else _) = _")
    using r by (auto simp: ForceClose_def States_value_def Let_def)
  then have "calm ?s t" using ForceCloseInLoop_calm [OF e] by (auto split: if_splits intro: calm_enqueue)
  moreover have "calm s ?s" by (rule calm_same) simp_all
  ultimately show ?thesis by (rule calm_trans [rotated])
qed

lemma Shutdown_calm: "Shutdown inLoop s = Inr t \<Longrightarrow> calm s t"
  by (auto simp: Shutdown_def ShutdownInLoop_def res_simps Let_def calm_def split: if_splits)

lemma reading_calm: "StartReadInLoop inLoop s = Inr t \<Longrightarrow> calm s t" "StopReadInLoop inLoop s = Inr t \<Longrightarrow> calm s t"
  "StartRead inLoop s = Inr t \<Longrightarrow> calm s t" "StopRead inLoop s = Inr t \<Longrightarrow> calm s t"
  by (auto simp: StartRead_def StopRead_def StartReadInLoop_def StopReadInLoop_def res_simps calm_def split: if_splits)

text \<open>In another thread, \<^verbatim>\<open>Send\<close> is the exception.\<close>

definition queues_this :: "bool \<Rightarrow> 'c conn_op \<Rightarrow> 'c TcpConnection \<Rightarrow> 'c TcpConnection \<Rightarrow> bool" where
  "queues_this inLoop c s t \<longleftrightarrow> \<not> inLoop \<and> tstate s = kConnected \<and> (\<exists>d. c = OpSend d \<and> t = enqueue (TaskSend d) s)"

lemma Send_calm: "calm_env env \<Longrightarrow> Send env True d s = Inr t \<Longrightarrow> calm s t"
  by (auto simp: Send_def split: if_splits intro: SendInLoop_calm)

lemma run_op_calm:
  assumes e: "calm_env env" and r: "run_op env inLoop c s = Inr t"
  shows "calm s t \<or> queues_this inLoop c s t"
proof (cases c)
  case (OpSend d)
  then show ?thesis using r Send_calm [OF e, of d s t]
    by (cases inLoop) (auto simp: queues_this_def Send_def split: if_splits)
next
  case OpSendBuffer
  then obtain d b where i: "inLoop" "Send env True d (s\<lparr>inputBuffer := b, consumed := consumed s @ d\<rparr>) = Inr t"
    using r by (auto simp: Send_buffer_def res_simps)
  from Send_calm [OF e i(2)] show ?thesis by (intro disjI1 calm_frame [of _ s t]) simp_all
next
  case (OpRetrieve n)
  then show ?thesis using r by (auto simp: Retrieve_input_def res_simps intro!: calm_same)
next
  case OpForceClose
  then show ?thesis using r ForceClose_calm [OF e, of inLoop s t] by simp
next
  case (OpSetContext x)
  then show ?thesis using r by (auto simp: SetContext_def intro!: calm_same)
qed (use r in \<open>simp_all add: Shutdown_calm reading_calm\<close>)

lemma run_ops_calm: "calm_env env \<Longrightarrow> rfold (run_op env True) cs s = Inr t \<Longrightarrow> calm s t"
proof (induction cs arbitrary: s)
  case (Cons c cs)
  then obtain u where "run_op env True c s = Inr u" "rfold (run_op env True) cs u = Inr t" by (auto simp: res_simps)
  with run_op_calm [OF Cons.prems(1), of True c s u] Cons.IH [OF Cons.prems(1), of u] show ?case
    by (auto simp: queues_this_def intro: calm_trans)
qed simp

lemma the_env_calm: "calm_env (the_env sw script OtherLoop depth)"
proof (induction depth)
  case 0
  then show ?case by (simp add: calm_env_def the_env_def)
next
  case (Suc depth)
  have "calm s t" if d: "ev = EvClose \<longrightarrow> tstate s = kDisconnected"
    and r: "call_back sw script OtherLoop (Suc depth) ev s = Inr t" for ev s t
  proof (cases "ev = EvClose")
    case True
    with d r show ?thesis by (auto simp: calm_def)
  next
    case False
    then have "rfold (run_op (the_env sw script OtherLoop depth) True) (script ev s) s = Inr t"
      using r by (cases ev) (simp_all add: the_env_def Let_def)
    then show ?thesis by (rule run_ops_calm [OF Suc.IH])
  qed
  then show ?case by (auto simp: calm_env_def the_env_def)
qed

lemma ConnectionDestroyed_calm:
  assumes e: "calm_env env" and r: "ConnectionDestroyed env inLoop s = Inr t"
  shows "calm s t"
proof -
  let ?s = "(update_channel DisableAll s)\<lparr>chInPoller := False, destroyed := Suc (destroyed s)\<rparr>"
  have "callback env EvConnection ?s = Inr t" using r by (simp add: ConnectionDestroyed_def res_simps)
  from calm_callback [OF e this] show ?thesis by (rule calm_frame [rotated 3]) simp_all
qed

lemma HandleRead_calm:
  assumes e: "calm_env env" and r: "HandleRead env inLoop readv s = Inr t"
  shows "calm s t"
proof -
  obtain n b x u where u: "u = s\<lparr>inputBuffer := b, received := x\<rparr>"
    and "(if n < 0 then HandleError u else if n = (0 :: int) then HandleClose env inLoop u
      else if hasMessage u then callback env EvMessage u else Inr u) = Inr t"
    using r by (auto simp: HandleRead_def res_simps Let_def)
  then have "t = u \<or> calm u t"
    using calm_callback [OF e, of EvMessage u t] HandleClose_calm [OF e, of inLoop u t]
    by (auto simp: HandleError_def split: if_splits)
  then have "calm u t" by auto
  then show ?thesis by (simp add: u)
qed

lemma ShutdownInLoop_calm: "ShutdownInLoop inLoop s = Inr t \<Longrightarrow> calm s t"
  by (auto simp: ShutdownInLoop_def res_simps split: if_splits)

lemma HandleWrite_calm: "calm_env env \<Longrightarrow> HandleWrite env inLoop s = Inr t \<Longrightarrow> calm s t"
  by (auto simp: HandleWrite_def res_simps Let_def split: if_splits write_result.splits
      dest!: ShutdownInLoop_calm calm_callback intro: calm_trans)

lemma conn_HandleEvent_calm:
  assumes e: "calm_env env" and r: "conn_HandleEvent env evs readv s = Inr t"
  shows "calm s t"
proof -
  obtain s1 s2 where
    "(if evs AND (EPOLLIN OR EPOLLPRI OR EPOLLRDHUP) \<noteq> 0 then HandleRead env True readv s else Inr s) = Inr s1"
    "(if evs AND EPOLLOUT \<noteq> 0 then HandleWrite env True s1 else Inr s1) = Inr s2"
    "(if evs AND EPOLLHUP \<noteq> 0 then HandleClose env True s2 else Inr s2) = Inr t"
    using r unfolding conn_HandleEvent_def HandleError_def if_cancel rbind_simps
    by (auto simp only: res_simps)
  then have "calm s s1" "calm s1 s2" "calm s2 t"
    using HandleRead_calm [OF e] HandleWrite_calm [OF e] HandleClose_calm [OF e] by (auto split: if_splits)
  then show ?thesis by (blast intro: calm_trans)
qed

section \<open>The invariant\<close>

fun no_late_send :: "conn_task list \<Rightarrow> bool" where
  "no_late_send [] = True"
| "no_late_send (t # ts) \<longleftrightarrow> (t = TaskDestroy \<longrightarrow> list_all owning ts) \<and> no_late_send ts"

definition anchored :: "'c Shared \<Rightarrow> bool" where
  "anchored s \<longleftrightarrow> listed s \<or> 0 < closes (obj s) \<or> TaskDestroy \<in> set (tasks (obj s))"

text \<open>What holds before the dropped pointers are settled, and after.\<close>

definition held0 :: "'c Shared \<Rightarrow> bool" where
  "held0 s \<longleftrightarrow> (0 < refs s \<longrightarrow> alive s) \<and>
     (tstate (obj s) = kConnected \<or> tstate (obj s) = kConnecting \<longrightarrow>
        listed s \<and> closes (obj s) = 0 \<and> TaskDestroy \<notin> set (tasks (obj s))) \<and>
     (list_all owning (tasks (obj s)) \<or> anchored s) \<and> no_late_send (tasks (obj s)) \<and>
     left s \<le> length (tasks (obj s)) \<and> sending s = []"

definition held :: "'c Shared \<Rightarrow> bool" where
  "held s \<longleftrightarrow> held0 s \<and> (alive s \<longrightarrow> 0 < refs s) \<and> (\<not> alive s \<longrightarrow> \<not> chInPoller (obj s))"

lemma anchored_refs: "anchored s \<Longrightarrow> 0 < refs s"
  by (auto simp: anchored_def refs_def filter_empty_conv intro: bexI [of _ TaskDestroy])

lemma no_late_send_append: "no_late_send ts \<Longrightarrow> list_all owning us \<Longrightarrow> no_late_send (ts @ us)"
  by (induction ts) (auto, induction us, auto)

lemma no_late_send_Send: "TaskDestroy \<notin> set ts \<Longrightarrow> no_late_send (ts @ [TaskSend d])"
  by (induction ts) auto

lemma settle_held:
  assumes "held0 s" "\<not> alive s \<longrightarrow> \<not> chInPoller (obj s)" "settle s = Inr t"
  shows "held t"
proof (cases "alive s \<and> refs s = 0")
  case True
  then have t: "t = s\<lparr>alive := False\<rparr>" "\<not> chInPoller (obj s)" using assms(3) by (auto simp: settle_def res_simps)
  have "refs t = 0" using True by (simp add: t refs_def)
  moreover have "anchored t = anchored s" by (simp add: t anchored_def)
  ultimately show ?thesis using assms(1) t by (simp add: held_def held0_def)
next
  case False
  then show ?thesis using assms by (auto simp: settle_def held_def)
qed

lemma calm_refs:
  assumes "calm (obj s) c"
  shows "refs s \<le> refs (s\<lparr>obj := c\<rparr>)"
  using assms by (auto simp: refs_def calm_def)

lemma calm_held0:
  assumes h: "held0 s" "alive s" and c: "calm (obj s) c"
  shows "held0 (s\<lparr>obj := c\<rparr>)"
proof -
  obtain ts where t: "tasks c = tasks (obj s) @ ts" "list_all owning ts" "TaskDestroy \<notin> set ts"
    using c by (auto simp: calm_def list_all_iff)
  have "list_all owning (tasks c) \<or> anchored (s\<lparr>obj := c\<rparr>)"
    using h(1) c t by (auto simp: held0_def anchored_def calm_def)
  moreover have "no_late_send (tasks c)" using h(1) t by (simp add: held0_def no_late_send_append)
  ultimately show ?thesis using h c t by (auto simp: held0_def calm_def)
qed

lemma touch_other: "touch OtherLoop f s = require (alive s) (rbind (f (obj s)) (\<lambda>c. settle (s\<lparr>obj := c\<rparr>)))"
  by (simp add: touch_def track_def)

text \<open>While the connection has an event, nobody can take the last pointer.\<close>

lemma touch_calm:
  assumes "held s" "alive s" "\<And>c. f (obj s) = Inr c \<Longrightarrow> calm (obj s) c"
  shows "touch OtherLoop f s = rbind (f (obj s)) (\<lambda>c. Inr (s\<lparr>obj := c\<rparr>))"
proof (cases "f (obj s)")
  case (Inr c)
  then have "0 < refs (s\<lparr>obj := c\<rparr>)" using calm_refs [OF assms(3) [OF Inr]] assms(1,2) by (simp add: held_def)
  then show ?thesis using assms(2) Inr by (simp add: touch_other settle_def)
qed (simp add: touch_other assms(2))

lemma calm_held: "held s \<Longrightarrow> alive s \<Longrightarrow> calm (obj s) c \<Longrightarrow> held (s\<lparr>obj := c\<rparr>)"
  using calm_held0 [of s c] calm_refs [of s c] by (auto simp: held_def)

lemma branch_calm:
  assumes h: "held s" "alive s" and f: "\<And>c. f (obj s) = Inr c \<Longrightarrow> calm (obj s) c"
    and k: "\<And>t. held t \<Longrightarrow> alive t \<Longrightarrow> k t = rbind (g (obj t)) (\<lambda>c. Inr (t\<lparr>obj := c\<rparr>))"
  shows "rbind (event_branch OtherLoop due f s) k =
    rbind (rbind (if due then f (obj s) else Inr (obj s)) g) (\<lambda>c. Inr (s\<lparr>obj := c\<rparr>))"
proof (cases due)
  case False
  then show ?thesis using h k [of s] by (simp add: event_branch_def)
next
  case True
  then have b: "event_branch OtherLoop due f s = rbind (f (obj s)) (\<lambda>c. Inr (s\<lparr>obj := c\<rparr>))"
    using touch_calm [OF h f] h(2) by (simp add: event_branch_def)
  show ?thesis
  proof (cases "f (obj s)")
    case (Inr c)
    have "k (s\<lparr>obj := c\<rparr>) = rbind (g c) (\<lambda>c'. Inr (s\<lparr>obj := c'\<rparr>))"
      using k [OF calm_held [OF h f [OF Inr]]] h(2) by simp
    then show ?thesis using b Inr True by simp
  qed (use b True in simp)
qed

lemma HandleEvent_exact:
  assumes h: "held s" "alive s" and e: "calm_env env"
  shows "shared_HandleEvent OtherLoop env evs readv s = rbind (conn_HandleEvent env evs readv (obj s)) (\<lambda>c. Inr (s\<lparr>obj := c\<rparr>))"
proof -
  have last: "event_branch OtherLoop (evs AND EPOLLHUP \<noteq> 0) (HandleClose env True) t =
      rbind (if evs AND EPOLLHUP \<noteq> 0 then HandleClose env True (obj t) else Inr (obj t)) (\<lambda>c. Inr (t\<lparr>obj := c\<rparr>))"
    if "held t" "alive t" for t
    using touch_calm [OF that, of "HandleClose env True"] HandleClose_calm [OF e] that(2) by (simp add: event_branch_def)
  show ?thesis
    unfolding shared_HandleEvent_def conn_HandleEvent_def
    by (rule branch_calm [OF h HandleRead_calm [OF e]], assumption,
        rule branch_calm [OF _ _ HandleWrite_calm [OF e]], assumption+,
        rule branch_calm, assumption+, simp add: HandleError_def, rule last)
qed

lemma run_task_calm:
  assumes e: "calm_env env" and t: "tasks s = x # xs" and r: "run_task env s = Inr c"
  shows "calm (s\<lparr>tasks := xs\<rparr>) c"
  using r t calm_callback [OF e, of "EvHighWater n" for n]
  by (cases x) (auto simp: run_task_def Let_def
      dest: SendInLoop_calm [OF e] ShutdownInLoop_calm ForceCloseInLoop_calm [OF e] reading_calm(1,2)
        ConnectionDestroyed_calm [OF e] intro: calm_callback [OF e])

lemma popped_held0:
  assumes "held s" "tasks (obj s) = x # xs" "0 < left s"
  shows "held0 (s\<lparr>left := left s - 1, finished := finished s @ [x], obj := (obj s)\<lparr>tasks := xs\<rparr>\<rparr>)"
  using assms by (auto simp: held_def held0_def anchored_def refs_def split: if_splits)

text \<open>A functor that is run finds its connection alive, also the one that holds no pointer.\<close>

lemma left_alive: "held s \<Longrightarrow> 0 < left s \<Longrightarrow> alive s"
proof -
  assume h: "held s" and l: "0 < left s"
  then obtain x xs where t: "tasks (obj s) = x # xs" by (cases "tasks (obj s)") (auto simp: held_def held0_def)
  show "alive s"
  proof (cases "owning x")
    case True
    then show ?thesis using h t by (simp add: held_def held0_def refs_def)
  next
    case False
    then have "anchored s" using h t by (simp add: held_def held0_def)
    then show ?thesis using h anchored_refs [of s] by (simp add: held_def held0_def)
  qed
qed

lemma run_next_held:
  assumes e: "calm_env env" and h: "held s" and l: "0 < left s" and r: "run_next OtherLoop env s = Inr t"
  shows "held t"
proof -
  obtain x xs where t: "tasks (obj s) = x # xs" using h l by (cases "tasks (obj s)") (auto simp: held_def held0_def)
  let ?s = "s\<lparr>left := left s - 1, finished := finished s @ [x], obj := (obj s)\<lparr>tasks := xs\<rparr>\<rparr>"
  obtain c where c: "run_task env (obj s) = Inr c"
    "settle (s\<lparr>left := left s - 1, finished := finished s @ [x], obj := c\<rparr>) = Inr t"
    using r t by (auto simp: run_next_def touch_other res_simps)
  have a: "alive ?s" using left_alive [OF h l] by simp
  have "held0 (?s\<lparr>obj := c\<rparr>)"
    by (rule calm_held0 [OF popped_held0 [OF h t l] a]) (use run_task_calm [OF e t c(1)] in simp)
  from settle_held [OF this _, of t] a c(2) show ?thesis by simp
qed

lemma shared_step_held:
  assumes e: "calm_env env" and h: "held s" and st: "shared_step False OtherLoop env s t"
  shows "held t"
  using st
proof cases
  case sh_establish
  then obtain c where a: "alive s" and c: "ConnectionEstablished env True (obj s) = Inr c" "settle (s\<lparr>obj := c\<rparr>) = Inr t"
    by (auto simp: touch_other res_simps)
  let ?c = "(update_channel EnableReading (obj s))\<lparr>tstate := kConnected\<rparr>"
  have k: "tstate (obj s) = kConnecting" and cb: "callback env EvConnection ?c = Inr c"
    using c(1) by (auto simp: ConnectionEstablished_def res_simps)
  have "held0 (s\<lparr>obj := ?c\<rparr>)" using h k by (auto simp: held_def held0_def anchored_def refs_def)
  from calm_held0 [OF this _, of c] a calm_callback [OF e cb] have "held0 (s\<lparr>obj := c\<rparr>)" by simp
  from settle_held [OF this _ c(2)] a show ?thesis by simp
next
  case (sh_event readv evs)
  then have a: "alive s" using h by (auto simp: held_def)
  with sh_event(4) HandleEvent_exact [OF h a e, of evs readv] obtain c where
    "conn_HandleEvent env evs readv (obj s) = Inr c" "t = s\<lparr>obj := c\<rparr>" by (auto simp: res_simps)
  then show ?thesis using calm_held [OF h a conn_HandleEvent_calm [OF e]] by simp
next
  case (sh_call c inLoop)
  then obtain u where a: "alive s" and u: "run_op env inLoop c (obj s) = Inr u" "settle (s\<lparr>obj := u\<rparr>) = Inr t"
    by (auto simp: touch_other res_simps)
  have "held0 (s\<lparr>obj := u\<rparr>)"
  proof (cases "calm (obj s) u")
    case True
    then show ?thesis using calm_held0 [OF _ a] h by (simp add: held_def)
  next
    case False
    then obtain d where "u = enqueue (TaskSend d) (obj s)" "tstate (obj s) = kConnected"
      using run_op_calm [OF e u(1)] by (auto simp: queues_this_def)
    then show ?thesis using h a by (auto simp: held_def held0_def anchored_def refs_def no_late_send_Send)
  qed
  from settle_held [OF this _ u(2)] a show ?thesis by simp
next
  case sh_send_queue
  then show ?thesis using h by (simp add: held_def held0_def)
next
  case sh_hold
  then show ?thesis using h by (auto simp: held_def held0_def anchored_def refs_def)
next
  case sh_drop
  then have "held0 (s\<lparr>holders := holders s - 1\<rparr>)" using h by (auto simp: held_def held0_def anchored_def refs_def)
  from settle_held [OF this _ sh_drop(2)] h show ?thesis by (simp add: held_def)
next
  case sh_begin
  then show ?thesis using h by (auto simp: held_def held0_def anchored_def refs_def begin_batch_def)
next
  case sh_run
  then show ?thesis by (intro run_next_held [OF e h])
next
  case sh_end
  have "held0 (s\<lparr>finished := []\<rparr>)" using h by (auto simp: held_def held0_def anchored_def refs_def)
  from settle_held [OF this, of t] sh_end(2) h show ?thesis by (simp add: end_batch_def held_def)
next
  case sh_owner
  then have "alive s" using h by (simp add: held_def held0_def refs_def)
  then show ?thesis using sh_owner h
    by (auto simp: held_def held0_def anchored_def refs_def owner_removes_def no_late_send_append)
qed simp

interpretation shared: invariant shared_init "shared_step False OtherLoop (the_env sw script OtherLoop depth)" held
  for sw script depth
proof unfold_locales
  fix s :: "'a Shared" assume "shared_init s"
  then show "held s"
    by (auto simp: shared_init_def TcpConnection_new_eq share_def held_def held0_def anchored_def refs_def conn_fresh_def)
qed (fact shared_step_held [OF the_env_calm])

section \<open>Properties\<close>

text \<open>
  C7. With the owner in another loop (a server with I/O threads), and as long as no thread is preempted
  inside \<^verbatim>\<open>Send\<close>, a connection outlives its use by the loop in every interleaving: a registered
  channel belongs to a live connection, a functor that the loop is about to run finds its
  connection alive, also the functor of \<^verbatim>\<open>Send\<close> that keeps no pointer, and handling an event
  never meets a dead object: it does exactly what the model without lifetimes does.
\<close>

theorem connection_outlives_its_use:
  assumes "reach shared_init (shared_step False OtherLoop (the_env sw script OtherLoop depth)) s"
  shows "(chInPoller (obj s) \<longrightarrow> alive s) \<and> (0 < left s \<longrightarrow> alive s) \<and>
    (alive s \<longrightarrow> shared_HandleEvent OtherLoop (the_env sw script OtherLoop depth) evs readv s =
      rbind (conn_HandleEvent (the_env sw script OtherLoop depth) evs readv (obj s)) (\<lambda>c. Inr (s\<lparr>obj := c\<rparr>)))"
proof -
  note h = shared.reach_inv [OF assms]
  show ?thesis
    using h left_alive [OF h] HandleEvent_exact [OF h _ the_env_calm] by (auto simp: held_def)
qed

abbreviation "idle_env ow \<equiv> the_env one_byte no_calls ow (Suc (Suc 0))"

definition up :: "unit TcpConnection" where
  "up = (conn_fresh fresh_buffer False False False)
     \<lparr>tstate := kConnected, chEvents := 1, chInPoller := True, calls := [EvConnection]\<rparr>"

lemmas shared_eval = touch_def track_def settle_def refs_def

lemma up_reach: "reach shared_init (shared_step preempt ow (idle_env ow)) (share up)"
proof -
  let ?f = "conn_fresh fresh_buffer False False False :: unit TcpConnection"
  have "shared_init (share ?f)" by (auto simp: shared_init_def TcpConnection_new_eq)
  then have 0: "reach shared_init (shared_step preempt ow (idle_env ow)) (share ?f)" by (rule reach_init)
  have "touch ow (ConnectionEstablished (idle_env ow) True) (share ?f) = Inr (share up)"
    by (simp add: shared_eval share_def up_def conn_eval)
  then show ?thesis by (intro reach_step [OF 0 sh_establish]) (simp_all add: share_def conn_fresh_def)
qed

theorem connection_outlives_its_use_witness:
  "chInPoller (obj (share up)) \<and> alive (share up) \<and>
    shared_HandleEvent OtherLoop (idle_env OtherLoop) EPOLLIN (\<lambda>_. Some []) (share up) =
      rbind (conn_HandleEvent (idle_env OtherLoop) EPOLLIN (\<lambda>_. Some []) up) (\<lambda>c. Inr ((share up)\<lparr>obj := c\<rparr>))"
  using connection_outlives_its_use [OF up_reach, of EPOLLIN "\<lambda>_. Some []"] by (simp add: share_def up_def)

text \<open>
  C8. With the owner in the same loop (every \<^verbatim>\<open>TcpClient\<close>, and a server without I/O threads) the end
  of the stream is fatal: if only the owner holds the connection, the close callback drops that pointer and
  destroys the connection with its channel inside \<^verbatim>\<open>Channel::HandleEvent\<close>, which then reads the event
  word of the dead channel.
\<close>

theorem end_of_stream_uses_dead_channel:
  assumes "alive s" "listed s" "refs s = 1" and "tstate (obj s) = kConnected \<or> tstate (obj s) = kDisconnecting"
    and "buf_inv (inputBuffer (obj s))" and "length (buffer (inputBuffer (obj s))) + extrabufSize \<le> vector_max"
    and "evs AND (EPOLLIN OR EPOLLPRI OR EPOLLRDHUP) \<noteq> 0"
    and "\<And>c. tstate c = kDisconnected \<Longrightarrow> script EvConnection c = []"
  shows "shared_HandleEvent SameLoop (the_env sw script SameLoop (Suc (Suc depth))) evs (\<lambda>_. Some []) s = Inl Undefined"
proof -
  obtain b where b: "ReadFd (\<lambda>_. Some []) (inputBuffer (obj s)) = Inr (0, b)"
    using ReadFd_ok [OF assms(5) _ assms(6), of "\<lambda>_. Some []" "[]"] by (auto simp: readv_spec_def)
  have k: "holders s = 0" "closes (obj s) = 0" "list_all (\<lambda>x. \<not> owning x) (tasks (obj s))"
    "list_all (\<lambda>x. \<not> owning x) (finished s)"
    using assms(2,3) by (auto simp: refs_def list_all_iff filter_empty_conv)
  let ?env = "the_env sw script SameLoop (Suc (Suc depth))"
  let ?c = "(obj s)\<lparr>inputBuffer := b, chEvents := kNoneEvent, chInPoller := False, tstate := kDisconnected,
    calls := calls (obj s) @ [EvClose, EvConnection], destroyed := Suc (destroyed (obj s))\<rparr>"
  have "HandleRead ?env True (\<lambda>_. Some []) (obj s) = Inr ?c"
    using b assms(4,8)
    by (auto simp: HandleRead_def HandleClose_def ConnectionDestroyed_def callback_def the_env_def update_channel_def)
  moreover have "settle (track SameLoop ?c s) = Inr ((track SameLoop ?c s)\<lparr>alive := False\<rparr>)"
    using k assms(1) by (simp add: settle_def track_def refs_def TcpConnection_destroy_def list_all_iff filter_empty_conv)
  ultimately have "event_branch SameLoop True (HandleRead ?env True (\<lambda>_. Some [])) s =
      Inr ((track SameLoop ?c s)\<lparr>alive := False\<rparr>)"
    using assms(1) by (simp add: event_branch_def touch_def)
  then show ?thesis using assms(7) by (simp add: shared_HandleEvent_def event_branch_def [of _ "evs AND EPOLLOUT \<noteq> 0"])
qed

theorem end_of_stream_uses_dead_channel_witness:
  "reach shared_init (shared_step False SameLoop (idle_env SameLoop)) (share up) \<and>
    shared_HandleEvent SameLoop (idle_env SameLoop) EPOLLRDHUP (\<lambda>_. Some []) (share up) = Inl Undefined"
proof
  show "shared_HandleEvent SameLoop (idle_env SameLoop) EPOLLRDHUP (\<lambda>_. Some []) (share up) = Inl Undefined"
    by (rule end_of_stream_uses_dead_channel)
      (simp_all add: share_def up_def conn_fresh_def refs_def no_calls_def mask_defs extrabufSize_def vector_max_def)
qed (rule up_reach)

text \<open>
  The functor of \<^verbatim>\<open>Send\<close> holds no pointer.  A thread that is preempted between the test of the
  state and the queueing can queue it after \<^verbatim>\<open>ConnectionDestroyed\<close> has run; when the thread then drops
  its pointer, the loop runs the functor on a dead connection, also with the owner in another loop.
\<close>

theorem preempted_Send_uses_dead_connection:
  "\<exists>s. reach shared_init (shared_step True OtherLoop (idle_env OtherLoop)) s \<and> 0 < left s \<and>
    run_next OtherLoop (idle_env OtherLoop) s = Inl Undefined"
proof -
  let ?R = "reach shared_init (shared_step True OtherLoop (idle_env OtherLoop))"
  obtain b where b: "ReadFd (\<lambda>_. Some []) fresh_buffer = Inr (0, b)" using eof_read [of fresh_buffer] by auto
  let ?s1 = "(share up)\<lparr>holders := 1, sending := [''x'']\<rparr>"
  let ?c = "up\<lparr>tstate := kDisconnected, chEvents := 0, inputBuffer := b, calls := [EvConnection, EvClose], closes := 1\<rparr>"
  let ?d = "?c\<lparr>closes := 0, chInPoller := False, destroyed := 1, calls := [EvConnection, EvClose, EvConnection]\<rparr>"
  have "?R ((share up)\<lparr>holders := 1\<rparr>)"
    using reach_step [OF up_reach sh_hold] by (simp add: share_def refs_def)
  then have "?R (Send_test ''x'' ((share up)\<lparr>holders := 1\<rparr>))"
    by (rule reach_step) (rule sh_send_test, simp_all add: share_def)
  moreover have "Send_test ''x'' ((share up)\<lparr>holders := 1\<rparr>) = ?s1" by (simp add: Send_test_def share_def up_def)
  ultimately have "?R ?s1" by simp
  moreover have "shared_HandleEvent OtherLoop (idle_env OtherLoop) EPOLLIN (\<lambda>_. Some []) ?s1 = Inr (?s1\<lparr>obj := ?c\<rparr>)"
    using b by (simp add: shared_HandleEvent_def event_branch_def shared_eval HandleRead_def share_def up_def conn_eval)
  ultimately have "?R (?s1\<lparr>obj := ?c\<rparr>)"
    by (elim reach_step) (rule sh_event [rotated 3], assumption,
      simp_all add: readv_spec_def share_def up_def conn_fresh_def extrabufSize_def vector_max_def)
  then have "?R (owner_removes (?s1\<lparr>obj := ?c\<rparr>))" by (rule reach_step) (rule sh_owner, simp)
  then have "?R (begin_batch (owner_removes (?s1\<lparr>obj := ?c\<rparr>)))"
    by (rule reach_step) (rule sh_begin, simp_all add: owner_removes_def share_def)
  moreover have "run_next OtherLoop (idle_env OtherLoop) (begin_batch (owner_removes (?s1\<lparr>obj := ?c\<rparr>))) =
      Inr (?s1\<lparr>listed := False, finished := [TaskDestroy], obj := ?d\<rparr>)"
    by (simp add: run_next_def begin_batch_def owner_removes_def shared_eval run_task_def share_def up_def conn_eval)
  ultimately have "?R (?s1\<lparr>listed := False, finished := [TaskDestroy], obj := ?d\<rparr>)"
    by (elim reach_step) (rule sh_run [rotated], assumption, simp add: begin_batch_def owner_removes_def)
  moreover have "end_batch (?s1\<lparr>listed := False, finished := [TaskDestroy], obj := ?d\<rparr>) = Inr (?s1\<lparr>listed := False, obj := ?d\<rparr>)"
    by (simp add: end_batch_def shared_eval share_def)
  ultimately have "?R (?s1\<lparr>listed := False, obj := ?d\<rparr>)"
    by (elim reach_step) (rule sh_end [rotated], assumption, simp add: share_def)
  then have "?R (Send_queue (?s1\<lparr>listed := False, obj := ?d\<rparr>))" by (rule reach_step) (rule sh_send_queue, simp)
  moreover let ?t = "(share (?d\<lparr>tasks := [TaskSend ''x'']\<rparr>))\<lparr>listed := False, alive := False\<rparr>"
  have "settle ((Send_queue (?s1\<lparr>listed := False, obj := ?d\<rparr>))\<lparr>holders := 0\<rparr>) = Inr ?t"
    by (simp add: Send_queue_def enqueue_def shared_eval share_def up_def conn_fresh_def TcpConnection_destroy_def)
  ultimately have "?R ?t"
    by (elim reach_step) (rule sh_drop, simp_all add: Send_queue_def)
  then have "?R (begin_batch ?t)" by (rule reach_step) (rule sh_begin, simp_all add: share_def)
  moreover have "0 < left (begin_batch ?t)" "run_next OtherLoop (idle_env OtherLoop) (begin_batch ?t) = Inl Undefined"
    by (simp_all add: begin_batch_def run_next_def touch_def share_def)
  ultimately show ?thesis by blast
qed

end
