(* ===== verification/Reactor.thy ===== *)
theory Reactor
  imports Channels EventLoops
begin

text \<open>
  The body of \<^verbatim>\<open>EventLoop::Loop\<close> (\<^verbatim>\<open>src/reactor/EventLoop.cc\<close>, lines 79 to 104) over the real
  poller and channels: \<^verbatim>\<open>Poll\<close> fills the list of active channels, their events are handled one
  after the other, then the queued functors run.  The object extends the poller of theory \<open>Channels\<close>
  with the queue of theory \<open>EventLoops\<close>, so that the operations of both apply to it.
\<close>

section \<open>State\<close>

record ('cb, 'k, 'f) Reactor = "('cb, 'k) Poller" +
  evLoop :: "'f EventLoop"
  activeChannels :: "nat list"

definition on_loop :: "('f EventLoop \<Rightarrow> 'f EventLoop) \<Rightarrow> ('cb, 'k, 'f) Reactor \<Rightarrow> ('cb, 'k, 'f) Reactor" where
  "on_loop g s = s\<lparr>evLoop := g (evLoop s)\<rparr>"

section \<open>The statements of the loop\<close>

definition react_poll :: "('k \<Rightarrow> nat \<Rightarrow> (32 word \<times> nat) list option) \<Rightarrow> ('cb, 'k, 'f) Reactor \<Rightarrow>
    ('cb, 'k, 'f) Reactor res" where
  "react_poll wait s =
     rbind (Poll wait True s) (\<lambda>(active, s1). Inr (on_loop (Loop_polled False) (s1\<lparr>activeChannels := active\<rparr>)))"

definition react_handle :: "('cb \<Rightarrow> ('cb, 'k, 'f) Reactor \<Rightarrow> ('cb, 'k, 'f) Reactor res) \<Rightarrow> ('cb, 'k, 'f) Reactor \<Rightarrow>
    ('cb, 'k, 'f) Reactor res" where
  "react_handle call s =
     (case activeChannels s of
        [] \<Rightarrow> Inr (on_loop Loop_swap s)
      | a # as \<Rightarrow> HandleEvent call True a (s\<lparr>activeChannels := as\<rparr>))"

definition react_run :: "('f \<Rightarrow> ('cb, 'k, 'f) Reactor \<Rightarrow> ('cb, 'k, 'f) Reactor res) \<Rightarrow> ('cb, 'k, 'f) Reactor \<Rightarrow>
    ('cb, 'k, 'f) Reactor res" where
  "react_run run s =
     (case functors (evLoop s) of
        [] \<Rightarrow> Inr (on_loop Loop_run s)
      | f # fs \<Rightarrow> run f (on_loop Loop_run s))"

text \<open>What the loop's thread does next.\<close>

definition loop_next :: "('k \<Rightarrow> nat \<Rightarrow> (32 word \<times> nat) list option) \<Rightarrow>
    ('cb \<Rightarrow> ('cb, 'k, 'f) Reactor \<Rightarrow> ('cb, 'k, 'f) Reactor res) \<Rightarrow>
    ('f \<Rightarrow> ('cb, 'k, 'f) Reactor \<Rightarrow> ('cb, 'k, 'f) Reactor res) \<Rightarrow> ('cb, 'k, 'f) Reactor \<Rightarrow>
    ('cb, 'k, 'f) Reactor res" where
  "loop_next wait call run s =
     (case phase (evLoop s) of
        Idle \<Rightarrow> rbind (Loop_enter True (evLoop s)) (\<lambda>l. Inr (s\<lparr>evLoop := l\<rparr>))
      | Testing \<Rightarrow> Inr (on_loop Loop_test s)
      | Polling \<Rightarrow> react_poll wait s
      | Handling \<Rightarrow> react_handle call s
      | Draining \<Rightarrow> react_run run s
      | Stopped \<Rightarrow> Inr s)"

section \<open>What handlers and functors may do\<close>

text \<open>
  The calls of code that runs in the loop's thread: on channels, which are created at fresh
  addresses and removed while registered, on the loop, and on the system, which does not change what
  is registered.  A handler may read the wakeup descriptor; only code outside the handlers (\<open>free\<close>) destroys channels.
\<close>

inductive client_step :: "'k epoll_ctl \<Rightarrow> ('k \<Rightarrow> int \<Rightarrow> (32 word \<times> nat) option) \<Rightarrow> bool \<Rightarrow>
    ('cb, 'k, 'f) Reactor \<Rightarrow> ('cb, 'k, 'f) Reactor \<Rightarrow> bool" for ctl interest free where
  cl_create: "chans s a = None \<Longrightarrow> client_step ctl interest free s (Channel_create a (loopId s) fd s)"
| cl_read_cb: "SetReadCallback a cb s = Inr t \<Longrightarrow> client_step ctl interest free s t"
| cl_write_cb: "SetWriteCallback a cb s = Inr t \<Longrightarrow> client_step ctl interest free s t"
| cl_close_cb: "SetCloseCallback a cb s = Inr t \<Longrightarrow> client_step ctl interest free s t"
| cl_error_cb: "SetErrorCallback a cb s = Inr t \<Longrightarrow> client_step ctl interest free s t"
| cl_change: "change_events ctl True m a s = Inr t \<Longrightarrow> client_step ctl interest free s t"
| cl_remove: "chans s a = Some c \<Longrightarrow> registeredToPoller c \<Longrightarrow> RemoveFromPoller ctl True a s = Inr t \<Longrightarrow>
    client_step ctl interest free s t"
| cl_destroy: "free \<Longrightarrow> Channel_destroy a s = Inr t \<Longrightarrow> client_step ctl interest free s t"
| cl_queue: "client_step ctl interest free s (on_loop (QueueInLoop True f) s)"
| cl_quit: "client_step ctl interest free s (on_loop (Quit True) s)"
| cl_wakeup: "\<not> free \<Longrightarrow> client_step ctl interest free s (on_loop HandleEventfdRead s)"
| cl_system: "interest k = interest (kernel s) \<Longrightarrow> client_step ctl interest free s (s\<lparr>kernel := k\<rparr>)"

definition client_code :: "'k epoll_ctl \<Rightarrow> ('k \<Rightarrow> int \<Rightarrow> (32 word \<times> nat) option) \<Rightarrow> bool \<Rightarrow>
    ('c \<Rightarrow> ('cb, 'k, 'f) Reactor \<Rightarrow> ('cb, 'k, 'f) Reactor res) \<Rightarrow> bool" where
  "client_code ctl interest free f \<longleftrightarrow> (\<forall>x s t. f x s = Inr t \<longrightarrow> (client_step ctl interest free)\<^sup>*\<^sup>* s t)"

text \<open>
  The interleavings: the loop's thread, before \<^verbatim>\<open>Loop()\<close> the thread that sets the loop up, other
  threads that queue functors, quit and wake the loop up, and the system.
\<close>

inductive reactor_step :: "'k epoll_ctl \<Rightarrow> ('k \<Rightarrow> nat \<Rightarrow> (32 word \<times> nat) list option) \<Rightarrow>
    ('k \<Rightarrow> int \<Rightarrow> (32 word \<times> nat) option) \<Rightarrow> ('cb \<Rightarrow> ('cb, 'k, 'f) Reactor \<Rightarrow> ('cb, 'k, 'f) Reactor res) \<Rightarrow>
    ('f \<Rightarrow> ('cb, 'k, 'f) Reactor \<Rightarrow> ('cb, 'k, 'f) Reactor res) \<Rightarrow>
    ('cb, 'k, 'f) Reactor \<Rightarrow> ('cb, 'k, 'f) Reactor \<Rightarrow> bool" for ctl wait interest call run where
  re_setup: "phase (evLoop s) = Idle \<Longrightarrow> client_step ctl interest True s t \<Longrightarrow>
    reactor_step ctl wait interest call run s t"
| re_loop: "loop_next wait call run s = Inr t \<Longrightarrow> reactor_step ctl wait interest call run s t"
| re_queue: "reactor_step ctl wait interest call run s (on_loop (QueueInLoop False f) s)"
| re_quit: "reactor_step ctl wait interest call run s (on_loop (Quit False) s)"
| re_wakeup: "0 < wakers (evLoop s) \<Longrightarrow>
    reactor_step ctl wait interest call run s (on_loop (\<lambda>l. Wakeup (l\<lparr>wakers := wakers l - 1\<rparr>)) s)"
| re_system: "interest k = interest (kernel s) \<Longrightarrow> reactor_step ctl wait interest call run s (s\<lparr>kernel := k\<rparr>)"

text \<open>A loop right after its construction, without channels.\<close>

definition reactor_init :: "'k epoll_ctl \<Rightarrow> ('k \<Rightarrow> nat \<Rightarrow> (32 word \<times> nat) list option) \<Rightarrow>
    ('k \<Rightarrow> int \<Rightarrow> (32 word \<times> nat) option) \<Rightarrow> ('cb \<Rightarrow> ('cb, 'k, 'f) Reactor \<Rightarrow> ('cb, 'k, 'f) Reactor res) \<Rightarrow>
    ('f \<Rightarrow> ('cb, 'k, 'f) Reactor \<Rightarrow> ('cb, 'k, 'f) Reactor res) \<Rightarrow> ('cb, 'k, 'f) Reactor \<Rightarrow> bool" where
  "reactor_init ctl wait interest call run s \<longleftrightarrow> client_code ctl interest False call \<and> client_code ctl interest True run \<and>
     poller_init ctl wait interest (Poller.truncate s) \<and> evLoop s = EventLoop_new \<and> activeChannels s = []"

section \<open>Frames\<close>

lemma on_loop_fields [simp]:
  "evLoop (on_loop g s) = g (evLoop s)" "activeChannels (on_loop g s) = activeChannels s" "chans (on_loop g s) = chans s"
  "kernel (on_loop g s) = kernel s" "channels (on_loop g s) = channels s" "loopId (on_loop g s) = loopId s"
  "eventListSize (on_loop g s) = eventListSize s"
  by (simp_all add: on_loop_def)

text \<open>The operations of the poller leave the rest of the loop alone, and only one ends a channel.\<close>

definition pollerly :: "('cb, 'k, 'f) Reactor \<Rightarrow> ('cb, 'k, 'f) Reactor \<Rightarrow> bool" where
  "pollerly s t \<longleftrightarrow> evLoop t = evLoop s \<and> activeChannels t = activeChannels s"

definition keeps_channels :: "('cb, 'k, 'f) Reactor \<Rightarrow> ('cb, 'k, 'f) Reactor \<Rightarrow> bool" where
  "keeps_channels s t \<longleftrightarrow> (\<forall>a. chans s a \<noteq> None \<longrightarrow> chans t a \<noteq> None)"

lemmas frame_defs = pollerly_def keeps_channels_def deref_def set_chan_def

lemma set_callback_frame:
  "deref a s (\<lambda>c. Inr (set_chan a (f c) s)) = Inr t \<Longrightarrow> pollerly s t \<and> keeps_channels s t"
  by (auto simp: frame_defs split: option.splits)

lemma react_change_events:
  "change_events ctl inLoop m a s = Inr t \<Longrightarrow> pollerly s t \<and> keeps_channels s t"
  by (auto simp: change_events_def RegisterToPoller_def Loop_UpdateChannel_def Poller_UpdateChannel_def frame_defs res_simps
      split: option.splits if_splits prod.splits)

lemma react_RemoveFromPoller:
  "RemoveFromPoller ctl inLoop a s = Inr t \<Longrightarrow> pollerly s t \<and> keeps_channels s t"
  by (auto simp: RemoveFromPoller_def Loop_RemoveChannel_def Poller_RemoveChannel_def frame_defs res_simps
      split: option.splits if_splits prod.splits)

lemma Channel_create_frame: "chans s a = None \<Longrightarrow> pollerly s (Channel_create a l fd s) \<and> keeps_channels s (Channel_create a l fd s)"
  by (simp add: Channel_create_def frame_defs)

lemma Channel_destroy_frame: "Channel_destroy a s = Inr t \<Longrightarrow> pollerly s t"
  by (auto simp: Channel_destroy_def frame_defs res_simps split: option.splits)

lemma client_frame:
  assumes "client_step ctl interest free s t"
  shows "(pollerly s t \<or> (\<exists>g. t = on_loop g s)) \<and> (free \<or> keeps_channels s t)"
  using assms
proof cases
  case cl_system
  then show ?thesis by (simp add: frame_defs)
next
  case cl_queue
  then show ?thesis by (auto simp: keeps_channels_def)
next
  case cl_quit
  then show ?thesis by (auto simp: keeps_channels_def)
next
  case cl_wakeup
  then show ?thesis by (auto simp: keeps_channels_def)
qed (auto dest: react_change_events react_RemoveFromPoller Channel_destroy_frame Channel_create_frame
    set_callback_frame simp: SetReadCallback_def SetWriteCallback_def SetCloseCallback_def SetErrorCallback_def)

lemma poller_inv_frame:
  "chans t = chans s \<Longrightarrow> interest (kernel t) = interest (kernel s) \<Longrightarrow> channels t = channels s \<Longrightarrow> loopId t = loopId s \<Longrightarrow>
    eventListSize t = eventListSize s \<Longrightarrow> poller_inv ctl wait interest t = poller_inv ctl wait interest s"
  by (simp add: poller_inv_def registry_def owned_def)

lemma client_poller_inv:
  assumes "client_step ctl interest free s t" "poller_inv ctl wait interest s"
  shows "poller_inv ctl wait interest t"
proof -
  have "poller_step ctl wait s t \<or> (chans t = chans s \<and> interest (kernel t) = interest (kernel s) \<and>
      channels t = channels s \<and> loopId t = loopId s \<and> eventListSize t = eventListSize s)"
    using assms(1) by cases (simp_all add: poller_step.intros)
  with assms(2) show ?thesis
    using poller_step_inv [OF assms(2)] poller_inv_frame [of t s interest ctl wait] by blast
qed

text \<open>Client code does not touch the list of active channels, and uses the loop as theory \<open>EventLoops\<close> allows.\<close>

lemma client_active: "client_step ctl interest free s t \<Longrightarrow> activeChannels t = activeChannels s"
  using client_frame [of ctl interest free s t] by (auto simp: pollerly_def)

lemma client_loop:
  assumes "client_step ctl interest free s t"
    and p: "phase (evLoop s) = (if free then Draining else Handling) \<or> free \<and> phase (evLoop s) = Idle"
  shows "phase (evLoop t) = phase (evLoop s) \<and> loop_step\<^sup>*\<^sup>* (evLoop s) (evLoop t)"
  using assms(1)
proof cases
  case (cl_queue f)
  have "loop_step (evLoop s) (QueueInLoop True f (evLoop s))" using p by (intro local_queue) (auto split: if_splits)
  then show ?thesis by (auto simp: cl_queue QueueInLoop_def)
next
  case cl_quit
  have "loop_step (evLoop s) (Quit True (evLoop s))" using p by (intro local_quit) (auto split: if_splits)
  then show ?thesis by (auto simp: cl_quit Quit_def)
next
  case cl_wakeup
  have "loop_step (evLoop s) (HandleEventfdRead (evLoop s))" using p cl_wakeup by (intro local_read) auto
  then show ?thesis by (auto simp: cl_wakeup HandleEventfdRead_def)
next
  case (cl_create a fd)
  then show ?thesis by (simp add: Channel_create_def set_chan_def)
qed (auto dest: react_change_events react_RemoveFromPoller Channel_destroy_frame Channel_create_frame
    set_callback_frame simp: pollerly_def SetReadCallback_def SetWriteCallback_def SetCloseCallback_def SetErrorCallback_def)

text \<open>Handlers destroy no channel.\<close>

lemma client_keeps: "client_step ctl interest False s t \<Longrightarrow> keeps_channels s t"
  using client_frame [of ctl interest False s t] by simp

lemma clients_loop:
  assumes "(client_step ctl interest free)\<^sup>*\<^sup>* s t"
    and "phase (evLoop s) = (if free then Draining else Handling)"
  shows "phase (evLoop t) = phase (evLoop s) \<and> loop_step\<^sup>*\<^sup>* (evLoop s) (evLoop t)"
  using assms by (induction rule: rtranclp_induct) (auto dest: client_loop split: if_splits)

lemma clients_active: "(client_step ctl interest free)\<^sup>*\<^sup>* s t \<Longrightarrow> activeChannels t = activeChannels s"
  by (induction rule: rtranclp_induct) (auto dest: client_active)

lemma clients_keep: "(client_step ctl interest False)\<^sup>*\<^sup>* s t \<Longrightarrow> keeps_channels s t"
  by (induction rule: rtranclp_induct) (auto simp: keeps_channels_def dest!: client_keeps)

lemma clients_poller_inv:
  "(client_step ctl interest free)\<^sup>*\<^sup>* s t \<Longrightarrow> poller_inv ctl wait interest s \<Longrightarrow> poller_inv ctl wait interest t"
  by (induction rule: rtranclp_induct) (auto dest: client_poller_inv)

section \<open>Handling an event\<close>

lemma dispatch_client:
  assumes "client_code ctl interest False call" "dispatch call a msk sel s = Inr t"
  shows "(client_step ctl interest False)\<^sup>*\<^sup>* s t"
  using assms by (auto simp: dispatch_def deref_def client_code_def split: option.splits if_splits)

lemma dispatch_fault:
  "chans s a \<noteq> None \<Longrightarrow> dispatch call a msk sel s = Inl e \<Longrightarrow> \<exists>cb. call cb s = Inl e"
  by (auto simp: dispatch_def deref_def split: option.splits if_splits)

lemma HandleEvent_client:
  assumes c: "client_code ctl interest False call" and r: "HandleEvent call True a s = Inr t"
  shows "(client_step ctl interest False)\<^sup>*\<^sup>* s t"
proof -
  obtain s1 s2 s3 where "dispatch call a (EPOLLIN OR EPOLLPRI OR EPOLLRDHUP) readCallback s = Inr s1"
    "dispatch call a EPOLLOUT writeCallback s1 = Inr s2" "dispatch call a EPOLLERR errorCallback s2 = Inr s3"
    "dispatch call a EPOLLHUP closeCallback s3 = Inr t"
    using r by (auto simp: HandleEvent_def deref_def res_simps split: option.splits)
  from this [THEN dispatch_client [OF c]] show ?thesis by (blast intro: rtranclp_trans)
qed

text \<open>The channel is alive at each of the four branches: a fault is that of a callback.\<close>

lemma HandleEvent_fault:
  assumes c: "client_code ctl interest False call" and a: "chans s a \<noteq> None" and r: "HandleEvent call True a s = Inl e"
  shows "\<exists>cb u. (client_step ctl interest False)\<^sup>*\<^sup>* s u \<and> call cb u = Inl e"
proof -
  let ?C = "(client_step ctl interest False)\<^sup>*\<^sup>*"
  have chain: "\<exists>cb u. ?C s u \<and> call cb u = Inl e"
    if "rbind (dispatch call a msk sel u) k = Inl e" "?C s u"
      and k: "\<And>v. ?C s v \<Longrightarrow> k v = Inl e \<Longrightarrow> \<exists>cb u. ?C s u \<and> call cb u = Inl e" for msk sel u k
  proof -
    have u: "chans u a \<noteq> None" using clients_keep [OF that(2)] a by (simp add: keeps_channels_def)
    from that(1) consider "dispatch call a msk sel u = Inl e" | v where "dispatch call a msk sel u = Inr v" "k v = Inl e"
      by (auto simp: res_simps)
    then show ?thesis
    proof cases
      case 1
      with dispatch_fault [OF u] that(2) show ?thesis by blast
    next
      case 2
      with dispatch_client [OF c] that(2) k show ?thesis by (meson rtranclp_trans)
    qed
  qed
  have "rbind (dispatch call a (EPOLLIN OR EPOLLPRI OR EPOLLRDHUP) readCallback s) (\<lambda>s1.
      rbind (dispatch call a EPOLLOUT writeCallback s1) (\<lambda>s2.
      rbind (dispatch call a EPOLLERR errorCallback s2) (\<lambda>s3.
        rbind (dispatch call a EPOLLHUP closeCallback s3) Inr))) = Inl e"
    using r a by (auto simp: HandleEvent_def deref_def rbind_return)
  then show ?thesis
    by (rule chain) (simp, rule chain, assumption+, rule chain, assumption+, rule chain, assumption+, simp)
qed

section \<open>The invariant\<close>

definition reactor_inv :: "'k epoll_ctl \<Rightarrow> ('k \<Rightarrow> nat \<Rightarrow> (32 word \<times> nat) list option) \<Rightarrow>
    ('k \<Rightarrow> int \<Rightarrow> (32 word \<times> nat) option) \<Rightarrow> ('cb \<Rightarrow> ('cb, 'k, 'f) Reactor \<Rightarrow> ('cb, 'k, 'f) Reactor res) \<Rightarrow>
    ('f \<Rightarrow> ('cb, 'k, 'f) Reactor \<Rightarrow> ('cb, 'k, 'f) Reactor res) \<Rightarrow> ('cb, 'k, 'f) Reactor \<Rightarrow> bool" where
  "reactor_inv ctl wait interest call run s \<longleftrightarrow> client_code ctl interest False call \<and> client_code ctl interest True run \<and>
     poller_inv ctl wait interest s \<and> (phase (evLoop s) = Handling \<or> activeChannels s = []) \<and>
     (\<forall>a\<in>set (activeChannels s). chans s a \<noteq> None) \<and> reach (\<lambda>l. l = EventLoop_new) loop_step (evLoop s)"

lemma reach_steps: "reach I r s \<Longrightarrow> r\<^sup>*\<^sup>* s t \<Longrightarrow> reach I r t"
  by (rotate_tac, induction rule: rtranclp_induct) (auto intro: reach_step)

lemma on_loop_inv:
  assumes "reactor_inv ctl wait interest call run s" "loop_step (evLoop s) (g (evLoop s))"
    and "phase (g (evLoop s)) = Handling \<or> activeChannels s = []"
  shows "reactor_inv ctl wait interest call run (on_loop g s)"
  using assms poller_inv_frame [of "on_loop g s" s interest ctl wait] by (auto simp: reactor_inv_def intro: reach_step)

text \<open>\<^verbatim>\<open>Poll\<close> leaves the queue of the loop alone.\<close>

lemma UpdateRevents_frame: "rfold UpdateRevents evs s = Inr t \<Longrightarrow> evLoop t = evLoop s"
  by (induction evs arbitrary: s) (fastforce simp: UpdateRevents_def deref_def set_chan_def res_simps split: option.splits prod.splits)+

lemma Poll_frame: "Poll wait inLoop s = Inr (active, t) \<Longrightarrow> evLoop t = evLoop s"
  by (auto simp: Poll_def res_simps dest: UpdateRevents_frame split: option.splits)

lemma Handling_inv:
  assumes i: "reactor_inv ctl wait interest call run s" and p: "phase (evLoop s) = Handling"
    and r: "react_handle call s = Inr t"
  shows "reactor_inv ctl wait interest call run t"
proof (cases "activeChannels s")
  case Nil
  then have "t = on_loop Loop_swap s" using r by (simp add: react_handle_def)
  with on_loop_inv [OF i, of Loop_swap] loop_step.swap [OF p] Nil show ?thesis by simp
next
  case (Cons a as)
  let ?s = "s\<lparr>activeChannels := as\<rparr>"
  have c: "client_code ctl interest False call" using i by (simp add: reactor_inv_def)
  have "HandleEvent call True a ?s = Inr t" using r Cons by (simp add: react_handle_def)
  note st = HandleEvent_client [OF c this]
  have "poller_inv ctl wait interest ?s" using i poller_inv_frame [of ?s s] by (simp add: reactor_inv_def)
  note pi = clients_poller_inv [OF st this]
  have "phase (evLoop t) = Handling \<and> loop_step\<^sup>*\<^sup>* (evLoop s) (evLoop t)" using clients_loop [OF st] p by simp
  moreover have "\<forall>b\<in>set (activeChannels t). chans t b \<noteq> None"
    using clients_active [OF st] clients_keep [OF st] i Cons by (simp add: reactor_inv_def keeps_channels_def)
  ultimately show ?thesis using i pi by (auto simp: reactor_inv_def intro: reach_steps)
qed

lemma Draining_inv:
  assumes i: "reactor_inv ctl wait interest call run s" and p: "phase (evLoop s) = Draining"
    and r: "react_run run s = Inr t"
  shows "reactor_inv ctl wait interest call run t"
proof -
  have a: "activeChannels s = []" using i p by (simp add: reactor_inv_def)
  have j: "reactor_inv ctl wait interest call run (on_loop Loop_run s)"
    using on_loop_inv [OF i, of Loop_run] loop_step.run [OF p] a by simp
  show ?thesis
  proof (cases "functors (evLoop s)")
    case Nil
    then show ?thesis using r j by (simp add: react_run_def)
  next
    case (Cons f fs)
    then have "run f (on_loop Loop_run s) = Inr t" using r by (simp add: react_run_def)
    then have st: "(client_step ctl interest True)\<^sup>*\<^sup>* (on_loop Loop_run s) t" using i by (auto simp: reactor_inv_def client_code_def)
    have "phase (evLoop (on_loop Loop_run s)) = Draining" using p Cons by (simp add: Loop_run_def)
    with clients_loop [OF st] have "phase (evLoop t) = Draining \<and> loop_step\<^sup>*\<^sup>* (evLoop (on_loop Loop_run s)) (evLoop t)" by simp
    moreover have "poller_inv ctl wait interest t" using clients_poller_inv [OF st] j by (simp add: reactor_inv_def)
    moreover have "activeChannels t = []" using clients_active [OF st] a by simp
    ultimately show ?thesis using j by (auto simp: reactor_inv_def intro: reach_steps)
  qed
qed

lemma Polling_inv:
  assumes i: "reactor_inv ctl wait interest call run s" and p: "phase (evLoop s) = Polling"
    and r: "react_poll wait s = Inr t"
  shows "reactor_inv ctl wait interest call run t"
proof -
  obtain active u where u: "Poll wait True s = Inr (active, u)" "t = on_loop (Loop_polled False) (u\<lparr>activeChannels := active\<rparr>)"
    using r by (auto simp: react_poll_def res_simps)
  have pi: "poller_inv ctl wait interest s" using i by (simp add: reactor_inv_def)
  then have w: "epoll_wait_spec wait interest" "registry interest s" by (simp_all add: poller_inv_def)
  obtain evs where evs: "wait (kernel s) (eventListSize s) = Some evs" using u(1) by (auto simp: Poll_def split: option.splits)
  from Poll_ok [OF w evs] u(1) have "\<forall>a\<in>set active. chans u a \<noteq> None" by auto
  moreover have "evLoop u = evLoop s" using Poll_frame [OF u(1)] .
  moreover have "poller_inv ctl wait interest u" using poller_step_inv [OF pi step_poll [OF u(1)]] .
  ultimately show ?thesis
    using i u(2) poller_inv_frame [of t u interest ctl wait] reach_step [of _ loop_step "evLoop s" "Loop_polled False (evLoop s)"] loop_step.polled [OF p, of False]
    by (auto simp: reactor_inv_def) (simp_all add: Loop_polled_def)
qed

lemma loop_next_inv:
  assumes i: "reactor_inv ctl wait interest call run s" and r: "loop_next wait call run s = Inr t"
  shows "reactor_inv ctl wait interest call run t"
proof (cases "phase (evLoop s)")
  case Idle
  then obtain l where l: "Loop_enter True (evLoop s) = Inr l" "t = s\<lparr>evLoop := l\<rparr>" using r by (auto simp: loop_next_def res_simps)
  have "t = on_loop (\<lambda>_. l) s" using l(2) by (simp add: on_loop_def)
  with on_loop_inv [OF i, of "\<lambda>_. l"] loop_step.enter [OF Idle l(1)] i Idle show ?thesis by (simp add: reactor_inv_def)
next
  case Testing
  with on_loop_inv [OF i, of Loop_test] loop_step.test [OF Testing] i r show ?thesis
    by (auto simp: loop_next_def reactor_inv_def)
next
  case Polling
  with Polling_inv [OF i] r show ?thesis by (simp add: loop_next_def)
next
  case Handling
  with Handling_inv [OF i] r show ?thesis by (simp add: loop_next_def)
next
  case Draining
  with Draining_inv [OF i] r show ?thesis by (simp add: loop_next_def)
next
  case Stopped
  with r i show ?thesis by (simp add: loop_next_def)
qed

lemma reactor_init_inv:
  assumes "reactor_init ctl wait interest call run s"
  shows "reactor_inv ctl wait interest call run s"
proof -
  have "poller_inv ctl wait interest (Poller.truncate s)" using assms by (auto simp: reactor_init_def intro: poller_init_inv)
  with assms show ?thesis
    by (auto simp: reactor_init_def reactor_inv_def poller_inv_def registry_def owned_def Poller.truncate_def intro: reach_init)
qed

lemma reactor_step_inv:
  assumes i: "reactor_inv ctl wait interest call run s" and st: "reactor_step ctl wait interest call run s t"
  shows "reactor_inv ctl wait interest call run t"
  using st
proof cases
  case re_setup
  with i have "phase (evLoop t) = Idle \<and> loop_step\<^sup>*\<^sup>* (evLoop s) (evLoop t)" "activeChannels t = []"
    "poller_inv ctl wait interest t"
    using client_loop [OF re_setup(2)] client_active [OF re_setup(2)] client_poller_inv [OF re_setup(2)]
    by (auto simp: reactor_inv_def)
  with i show ?thesis by (auto simp: reactor_inv_def intro: reach_steps)
next
  case re_loop
  then show ?thesis by (rule loop_next_inv [OF i])
next
  case (re_queue f)
  with on_loop_inv [OF i, of "QueueInLoop False f"] loop_step.remote_queue [of "evLoop s" f] i show ?thesis
    by (auto simp: reactor_inv_def QueueInLoop_def)
next
  case re_quit
  with on_loop_inv [OF i, of "Quit False"] loop_step.remote_quit [of "evLoop s"] i show ?thesis
    by (auto simp: reactor_inv_def Quit_def)
next
  case re_wakeup
  with on_loop_inv [OF i, of "\<lambda>l. Wakeup (l\<lparr>wakers := wakers l - 1\<rparr>)"] loop_step.remote_wakeup i
  show ?thesis by (auto simp: reactor_inv_def)
next
  case (re_system k)
  with i poller_inv_frame [of t s interest ctl wait] show ?thesis by (simp add: reactor_inv_def)
qed

interpretation react: invariant "reactor_init ctl wait interest call run" "reactor_step ctl wait interest call run"
  "reactor_inv ctl wait interest call run" for ctl wait interest call run
  by unfold_locales (fact reactor_init_inv, fact reactor_step_inv)

section \<open>Properties\<close>


text \<open>A loop with one channel, at address 0, that is readable; its callback only reads.\<close>

definition reactor_start :: "(nat, table, nat) Reactor" where
  "reactor_start = \<lparr>loopId = 7, chans = (\<lambda>a. None), kernel = [], channels = [], eventListSize = 16,
     evLoop = EventLoop_new, activeChannels = []\<rparr>"

definition reactor_one :: "(nat, table, nat) Reactor" where
  "reactor_one = reactor_start\<lparr>chans := (\<lambda>a. None)(0 := Some (changed EnableReading (Channel_new 7 4))),
     kernel := [(4, (1, 0))], channels := [(4, 0)]\<rparr>"

abbreviation quiet_step :: "(nat, table, nat) Reactor \<Rightarrow> (nat, table, nat) Reactor \<Rightarrow> bool" where
  "quiet_step \<equiv> reactor_step table_ctl table_wait (\<lambda>k. map_of k) (\<lambda>n s. Inr s) (\<lambda>n s. Inr s)"
abbreviation quiet_init :: "(nat, table, nat) Reactor \<Rightarrow> bool" where
  "quiet_init \<equiv> reactor_init table_ctl table_wait (\<lambda>k. map_of k) (\<lambda>n s. Inr s) (\<lambda>n s. Inr s)"

lemma reactor_one_reach: "reach quiet_init quiet_step reactor_one"
proof -
  have 0: "quiet_init reactor_start"
    by (auto simp: reactor_init_def client_code_def poller_init_def table_ctl_spec table_wait_spec Poller_new_def
        reactor_start_def Poller.truncate_def kEventListSize_def intro!: exI [of _ 7] exI [of _ "[]"])
  have r: "reach quiet_init quiet_step reactor_start" by (rule reach_init) (rule 0)
  have "client_step table_ctl (\<lambda>k. map_of k) True reactor_start (Channel_create 0 7 4 reactor_start)"
    using cl_create [of reactor_start 0 table_ctl "\<lambda>k. map_of k" True 4] by (simp add: reactor_start_def)
  then have 1: "reach quiet_init quiet_step (Channel_create 0 7 4 reactor_start)"
    by (intro reach_step [OF r re_setup]) (simp_all add: reactor_start_def EventLoop_new_def)
  have "change_events table_ctl True EnableReading 0 (Channel_create 0 7 4 reactor_start) = Inr reactor_one"
    by (simp add: poller_eval reactor_start_def reactor_one_def changed_def)
  then have "client_step table_ctl (\<lambda>k. map_of k) True (Channel_create 0 7 4 reactor_start) reactor_one"
    by (rule cl_change)
  then show ?thesis
    by (intro reach_step [OF 1 re_setup])
      (simp_all add: reactor_start_def EventLoop_new_def Channel_create_def set_chan_def)
qed

lemma reactor_polled:
  "\<exists>s :: (nat, table, nat) Reactor. reach quiet_init quiet_step s \<and> activeChannels s = [0] \<and>
    evLoop s = EventLoop_new\<lparr>phase := Handling\<rparr>"
proof -
  let ?s1 = "on_loop (\<lambda>l. l\<lparr>phase := Testing\<rparr>) reactor_one"
  have 1: "reach quiet_init quiet_step ?s1"
    by (rule reach_step [OF reactor_one_reach re_loop])
      (simp add: loop_next_def Loop_enter_def reactor_one_def reactor_start_def EventLoop_new_def on_loop_def)
  let ?s2 = "on_loop (\<lambda>l. l\<lparr>phase := Polling\<rparr>) reactor_one"
  have 2: "reach quiet_init quiet_step ?s2"
    by (rule reach_step [OF 1 re_loop])
      (simp add: loop_next_def Loop_test_def reactor_one_def reactor_start_def EventLoop_new_def on_loop_def)
  obtain t where p: "Poll table_wait True ?s2 = Inr ([0], t)"
    by (auto simp: Poll_def table_wait_def reactor_one_def reactor_start_def UpdateRevents_def deref_def)
  then have "loop_next table_wait (\<lambda>n s. Inr s) (\<lambda>n s. Inr s) ?s2 = Inr (on_loop (Loop_polled False) (t\<lparr>activeChannels := [0]\<rparr>))"
    by (simp add: loop_next_def react_poll_def)
  moreover have "evLoop t = EventLoop_new\<lparr>phase := Polling\<rparr>"
    using Poll_frame [OF p] by (simp add: reactor_one_def reactor_start_def on_loop_def)
  ultimately show ?thesis
    using reach_step [OF 2 re_loop [of table_wait "\<lambda>n s. Inr s" "\<lambda>n s. Inr s"]]
    by (intro exI [of _ "on_loop (Loop_polled False) (t\<lparr>activeChannels := [0]\<rparr>)"]) (simp add: Loop_polled_def)
qed




text \<open>
  Why handlers may not destroy channels: a callback that ends the channel whose event is being handled makes
  \<^verbatim>\<open>HandleEvent\<close> read a dead object.
\<close>

lemma HandleEvent_of_freed_channel:
  assumes "chans s a = Some c" "revents c AND (EPOLLIN OR EPOLLPRI OR EPOLLRDHUP) \<noteq> 0" "readCallback c = Some cb"
    and "call cb s = Inr t" "chans t a = None"
  shows "HandleEvent call True a s = Inl Undefined"
  using assms by (simp add: HandleEvent_def deref_def dispatch_def)

end
