(* ===== verification/Spec2Isabelle.thy ===== *)
theory Spec2Isabelle
  imports NetBuffer Queues Timers Channels Sync ThreadPools EventLoops Http Tcp Growth Sockets Connectors Servers Descriptors Logging AsyncLogs LogFronts Clients EchoClients HttpLines HttpConnections HttpServers LoopObjects Echo Sessions Lifetimes Reactor
begin

text \<open>
  A verification library for wethands, a C++ network library of the Reactor pattern.  The paths
  below are relative to \<^verbatim>\<open>src/src/\<close> of the repository.

  \<^bold>\<open>The program.\<close>  A thread runs one \<^verbatim>\<open>EventLoop\<close> (\<^verbatim>\<open>reactor/\<close>): it waits in a \<^verbatim>\<open>Poller\<close> (epoll) for events of
  registered \<^verbatim>\<open>Channel\<close>s, calls their callbacks, and then runs the functors that any thread has queued;
  an eventfd wakes it, a timerfd drives its \<^verbatim>\<open>TimerQueue\<close>.  On it stand (\<^verbatim>\<open>net/\<close>) \<^verbatim>\<open>TcpConnection\<close> with an input and
  an output \<^verbatim>\<open>Buffer\<close>, \<^verbatim>\<open>Acceptor\<close> and \<^verbatim>\<open>TcpServer\<close> with a pool of I/O loops, \<^verbatim>\<open>Connector\<close> and \<^verbatim>\<open>TcpClient\<close>,
  and (\<^verbatim>\<open>net/http/\<close>) an HTTP server.  Below are threads, locks and queues (\<^verbatim>\<open>thread/\<close>, \<^verbatim>\<open>utils/\<close>), beside it a
  logger with an asynchronous back end (\<^verbatim>\<open>logger/\<close>).

  \<^bold>\<open>How the code is modelled.\<close>  A class is a record, with ghost fields for what its properties
  speak about (bytes accepted, callbacks made, functors run); an operation is a function of the
  state into \<open>'a res\<close> of theory \<open>Prelude\<close>, whose faults are the ways the process can go
  wrong: a failed assertion, a fatal log record, undefined behaviour, \<^verbatim>\<open>std::length_error\<close>, a stack overflow of
  callbacks, a handler that does not return.  Asserts are active, as in the debug build.  Threads,
  the peers and the kernel are step relations; a step that faults ends the program and is no step.  Every
  invariant is an interpretation of the locale \<open>invariant\<close> of \<open>Prelude\<close> on such a relation.
  \<open>size_t\<close> and \<open>int64_t\<close> arithmetic wraps or is undefined as in C++; a \<^verbatim>\<open>double\<close> is a real
  number with an explicit rounding.

  \<^bold>\<open>The theories.\<close>
  \<^item> \<open>Prelude\<close>: results, arithmetic, reachability, lists.  \<open>Interfaces\<close>: the contracts
    (byte sink, byte stream, FIFO and bounded FIFO) that buffer and queues fulfil.  \<open>Containers\<close>:
    \<^verbatim>\<open>std::set\<close> and \<^verbatim>\<open>std::map\<close>.
  \<^item> \<open>NetBuffer\<close> (\<^verbatim>\<open>net/Buffer\<close>): every operation; \<open>Append\<close> refines concatenation on the readable
    bytes, the buffer is type safe, \<^verbatim>\<open>ReadFd\<close> loses nothing.
  \<^item> \<open>Queues\<close> (\<^verbatim>\<open>utils/BlockingQueue.h\<close>, \<^verbatim>\<open>utils/BoundedBlockingQueue.h\<close>), \<open>Sync\<close> (\<^verbatim>\<open>thread/\<close> but the pool, and
    \<^verbatim>\<open>Singleton.h\<close>, \<^verbatim>\<open>WeakCallback.h\<close>), \<open>ThreadPools\<close> (\<^verbatim>\<open>thread/ThreadPool\<close>): monitors in every interleaving of their
    threads; order, bounds, mutual exclusion and no lost wakeup.
  \<^item> \<open>Time\<close> (\<^verbatim>\<open>utils/Timestamp\<close>, \<^verbatim>\<open>utils/operators.h\<close>), \<open>Timers\<close> (\<^verbatim>\<open>reactor/Timer\<close>, \<^verbatim>\<open>reactor/TimerQueue\<close>): timers on a
    heap; what an expiry runs, while callbacks add and cancel timers, and that nothing is used after
    its deletion.
  \<^item> \<open>Channels\<close> (\<^verbatim>\<open>reactor/Channel\<close>, \<^verbatim>\<open>reactor/Poller\<close>): map, channels and the kernel's interest list agree in every
    reachable state.  \<open>EventLoops\<close> (\<^verbatim>\<open>reactor/EventLoop\<close>, \<^verbatim>\<open>EventLoopThread\<close>, \<^verbatim>\<open>EventLoopThreadPool\<close>): the functor queue
    and the wakeup as a protocol.  \<open>LoopObjects\<close>: construction and destruction of a loop with its descriptors.
    \<open>Reactor\<close>: the loop over the real poller, with callbacks that change the channels, refines the
    protocol of \<open>EventLoops\<close>.
  \<^item> \<open>Tcp\<close> (\<^verbatim>\<open>net/TcpConnection\<close>): the state machine of a connection; the byte streams, one closing,
    draining.  \<open>Growth\<close>: what its operations never take back.  \<open>Sessions\<close>: two connections joined by TCP are a
    reliable stream in both directions.  \<open>Lifetimes\<close>: the shared pointers of a connection.
  \<^item> \<open>Sockets\<close> (\<^verbatim>\<open>net/InetAddress\<close>, \<^verbatim>\<open>net/Socket\<close>), \<open>Connectors\<close> (\<^verbatim>\<open>net/Connector\<close>), \<open>Clients\<close> (\<^verbatim>\<open>net/TcpClient\<close>), \<open>Servers\<close>
    (\<^verbatim>\<open>net/Acceptor\<close>, \<^verbatim>\<open>net/TcpServer\<close>): attempts, retries, descriptors, and the set of connections of a
    client and a server.  \<open>Descriptors\<close>: acceptor, server and the sockets of the connections together neither leak
    nor share a descriptor.
  \<^item> \<open>Regex\<close>, \<open>Http\<close> (\<^verbatim>\<open>net/http/HttpRequest\<close>, \<^verbatim>\<open>HttpContext\<close>, \<^verbatim>\<open>HttpResponse\<close> and the handlers of \<^verbatim>\<open>HttpServer\<close>):
    parsing is the inverse of rendering and terminates; the format of a response.  \<open>HttpLines\<close>: the parser equals a
    reference on strings and is incremental.  \<open>HttpConnections\<close>: the handlers on one connection, with a request in
    any packets.  \<open>HttpServers\<close>: the server as a whole, what it does with an event and what it has sent.
  \<^item> \<open>Logging\<close> (\<^verbatim>\<open>logger/Logger\<close>, \<^verbatim>\<open>logger/LogFile\<close>, \<^verbatim>\<open>utils/FileUtil\<close>), \<open>AsyncLogs\<close> (\<^verbatim>\<open>logger/AsyncLogging\<close>), \<open>LogFronts\<close> (the
    global state of \<^verbatim>\<open>logger/Logger.cc\<close>): conservation of the lines, rolling of files, the outcome of a log
    statement.
  \<^item> \<open>Echo\<close> and \<open>EchoClients\<close> (\<^verbatim>\<open>net/tests/EchoServer.cc\<close>, \<^verbatim>\<open>net/tests/EchoClient.cc\<close>): two programs over the library.

  \<^bold>\<open>How they build on one another.\<close>  The connection uses the buffer through the contract of a byte
  stream and the loop's queue as a list of tasks; server and client keep the invariant of each
  connection and add their own; \<open>HttpServers\<close> instantiates the connection's callbacks with the HTTP
  handlers and inherits the server's invariant by showing its steps to be steps of \<open>Servers\<close>; \<open>Sessions\<close> joins two
  connections, one of which may be the echo server's.

  \<^bold>\<open>Bounds and recursion.\<close>  A user callback may call the connection again, whose operation may run a
  callback: \<open>call_back\<close> and \<open>http_back\<close> carry the depth of the stack and overflow when it is used up;
  the invariants hold for every depth, and the HTTP handlers need a depth of one.  The loop of
  \<^verbatim>\<open>ParseRequest\<close> may run for ever and is a partial function into an option; it is proved to
  return from every state but \<open>kGotAll\<close>, in which it spins and in which \<open>HttpServers\<close> shows no
  connection of a server ever is.  Every other loop is structural or has a measure.
  Lengths are bounded by the maximal size of a vector, \<open>2^63 - 1\<close>; that a buffer is
  small enough to read into is a hypothesis where it matters.

  \<^bold>\<open>What is assumed of the surroundings.\<close>  System calls are arguments, constrained by what their manual
  pages say: \<open>epoll_ctl_spec\<close>, \<open>epoll_wait_spec\<close>, \<open>sock_spec\<close> and \<open>kernel_spec\<close> (descriptors and epoll), \<open>readv_spec\<close> and
  \<open>write_spec\<close> (no more bytes than asked for), \<open>sock_never_fatal\<close> (only the errors of \<^verbatim>\<open>write\<close> that
  \<^verbatim>\<open>SendInLoop\<close> tolerates), \<open>delivers\<close> (TCP delivers in order what was sent), \<open>fwrite_spec\<close> and
  \<open>fwrite_all\<close>, \<open>log_env_ok\<close> (calendar and rounding), \<open>double_rounding\<close>.  Each is shown to be satisfiable by the
  witness of a property that uses it.

  \<^bold>\<open>Not modelled.\<close>  Object lifetimes are the subject of \<open>Lifetimes\<close> and \<open>Reactor\<close> only; theory \<open>Tcp\<close> assumes that a
  connection lives to the end of the event it handles, which \<open>Lifetimes\<close> proves for connections owned in
  another loop and refutes for those owned in the same loop.  Memory allocation does not fail.  Data races on
  unprotected members are not modelled: each operation of a thread on such a member is one
  step.  The C++ library's streams, \<^verbatim>\<open>std::function\<close>, the stdio buffer and the SIGPIPE setting have no model; \<^verbatim>\<open>Copyable.h\<close>
  and \<^verbatim>\<open>Uncopyable.h\<close> have no behaviour.  The test drivers other than the echo programs, and the
  build files, are left out.
\<close>

end
